(* ===== verification/NR_Prelude.thy ===== *)
theory NR_Prelude
  imports Main "HOL-Library.Word" "HOL-Library.List_Lexorder"
begin

text \<open>
  Shared vocabulary of the development: the machine types of the C sources, the errors a
  C function can end in, little-endian integers in memory, bounds-checked reads of a
  buffer and the error monad.

  The sources run on 64-bit little-endian machines. A \<^verbatim>\<open>memcpy\<close> of an integer into a
  buffer stores its bytes least significant first. A read past the end of an object is
  undefined behaviour in C; here it is the error \<open>Bad_memory\<close>, so that a theorem about
  a result also says that the accesses were in bounds.
\<close>

unbundle bit_operations_syntax

section \<open>Machine types and errors\<close>

type_synonym byte = "8 word"
type_synonym u16 = "16 word"
type_synonym u32 = "32 word"
type_synonym u64 = "64 word"

datatype nr_error =
    Elog string     \<comment> \<open>\<^verbatim>\<open>elog(ERROR, ..)\<close> or \<^verbatim>\<open>ereport(ERROR, ..)\<close>: the transaction is aborted\<close>
  | Bad_memory      \<comment> \<open>an access outside the object: undefined behaviour\<close>
  | Would_block     \<comment> \<open>the caller sleeps until another process acts\<close>
  | Proc_exit       \<comment> \<open>\<^verbatim>\<open>proc_exit\<close>\<close>

named_theorems codec \<open>round trips and lengths of the byte encodings\<close>

section \<open>The error monad\<close>

definition ebind :: "'e + 'a \<Rightarrow> ('a \<Rightarrow> 'e + 'b) \<Rightarrow> 'e + 'b" where
  "ebind m f = (case m of Inl e \<Rightarrow> Inl e | Inr x \<Rightarrow> f x)"

lemma ebind_simps [simp]:
  "ebind (Inr x) f = f x"
  "ebind (Inl e) f = Inl e"
  by (simp_all add: ebind_def)

lemma ebind_eq_Inr [simp]: "ebind m f = Inr y \<longleftrightarrow> (\<exists>x. m = Inr x \<and> f x = Inr y)"
  by (cases m) simp_all

lemma ebind_eq_Inl: "ebind m f = Inl e \<longleftrightarrow> m = Inl e \<or> (\<exists>x. m = Inr x \<and> f x = Inl e)"
  by (cases m) simp_all

fun mapE :: "('a \<Rightarrow> 'e + 'b) \<Rightarrow> 'a list \<Rightarrow> 'e + 'b list" where
  "mapE f [] = Inr []"
| "mapE f (x # xs) = ebind (f x) (\<lambda>y. ebind (mapE f xs) (\<lambda>ys. Inr (y # ys)))"

lemma mapE_Inr: "(\<And>x. x \<in> set xs \<Longrightarrow> f x = Inr (g x)) \<Longrightarrow> mapE f xs = Inr (map g xs)"
  by (induction xs) simp_all

section \<open>Little-endian integers\<close>

lemma unat_less: "unat (w :: 'a::len word) < 2 ^ LENGTH('a)"
  by (rule unsigned_less)

fun nat_bytes :: "nat \<Rightarrow> nat \<Rightarrow> byte list" where
  "nat_bytes 0 x = []"
| "nat_bytes (Suc n) x = of_nat x # nat_bytes n (x div 256)"

fun bytes_nat :: "byte list \<Rightarrow> nat" where
  "bytes_nat [] = 0"
| "bytes_nat (b # bs) = unat b + 256 * bytes_nat bs"

lemma length_nat_bytes [simp, codec]: "length (nat_bytes n x) = n"
  by (induction n arbitrary: x) simp_all

lemma bytes_nat_bytes: "bytes_nat (nat_bytes n x) = x mod 256 ^ n"
proof (induction n arbitrary: x)
  case 0
  then show ?case by simp
next
  case (Suc n)
  have "unat (of_nat x :: byte) = x mod 256"
    by (simp add: unat_of_nat)
  then show ?case
    using Suc.IH [of "x div 256"] by (simp add: mod_mult2_eq mult.commute)
qed

lemma bytes_nat_less: "bytes_nat bs < 256 ^ length bs"
proof (induction bs)
  case Nil
  then show ?case by simp
next
  case (Cons b bs)
  have "unat b < 256"
    using unat_less [of b] by simp
  with Cons.IH show ?case
    by simp
qed

lemma nat_bytes_bytes: "nat_bytes (length bs) (bytes_nat bs) = bs"
proof (induction bs)
  case Nil
  then show ?case by simp
next
  case (Cons b bs)
  have b: "unat b < 256"
    using unat_less [of b] by simp
  then have "(unat b + 256 * bytes_nat bs) div 256 = bytes_nat bs"
    by simp
  moreover have "(of_nat (unat b + 256 * bytes_nat bs) :: byte) = b"
  proof -
    have zero: "(256 :: byte) = 0" by simp
    show ?thesis by (simp add: zero)
  qed
  ultimately show ?case
    using Cons.IH by (simp del: of_nat_add of_nat_mult)
qed

definition le_bytes :: "'a::len word \<Rightarrow> byte list" where
  "le_bytes w = nat_bytes (LENGTH('a) div 8) (unat w)"

definition le_word :: "byte list \<Rightarrow> 'a::len word" where
  "le_word bs = of_nat (bytes_nat bs)"

lemma length_le_bytes [simp, codec]: "length (le_bytes (w :: 'a::len word)) = LENGTH('a) div 8"
  by (simp add: le_bytes_def)

lemma le_word_le_bytes:
  assumes "8 dvd LENGTH('a::len)"
  shows "le_word (le_bytes (w :: 'a word)) = w"
proof -
  from assms obtain k where k: "LENGTH('a) = 8 * k" by (rule dvdE)
  have "(256::nat) ^ k = 2 ^ LENGTH('a)"
    by (simp add: k power_mult)
  then have "unat w mod 256 ^ k = unat w"
    using unat_less [of w] by simp
  then show ?thesis
    by (simp add: le_word_def le_bytes_def bytes_nat_bytes k)
qed

lemma le_word_le_bytes_width [simp, codec]:
  "le_word (le_bytes (a :: u16)) = a"
  "le_word (le_bytes (b :: u32)) = b"
  "le_word (le_bytes (c :: u64)) = c"
  by (simp_all add: le_word_le_bytes)

lemma le_bytes_le_word:
  assumes "8 dvd LENGTH('a::len)" and "length bs = LENGTH('a) div 8"
  shows "le_bytes (le_word bs :: 'a word) = bs"
proof -
  from assms(1) obtain k where k: "LENGTH('a) = 8 * k" by (rule dvdE)
  have "bytes_nat bs < 2 ^ LENGTH('a)"
    using bytes_nat_less [of bs] assms(2) by (simp add: k power_mult)
  then have "unat (le_word bs :: 'a word) = bytes_nat bs"
    by (simp add: le_word_def unat_of_nat take_bit_nat_eq_self)
  then show ?thesis
    using nat_bytes_bytes [of bs] assms(2) by (simp add: le_bytes_def)
qed

lemma le_bytes_inject [simp]:
  assumes "8 dvd LENGTH('a::len)"
  shows "le_bytes (v :: 'a word) = le_bytes w \<longleftrightarrow> v = w"
  using assms by (metis le_word_le_bytes)

section \<open>Bounds-checked reads\<close>

definition mem_read :: "byte list \<Rightarrow> nat \<Rightarrow> nat \<Rightarrow> nr_error + byte list" where
  "mem_read mem off n =
     (if off + n \<le> length mem then Inr (take n (drop off mem)) else Inl Bad_memory)"

definition rd_word :: "byte list \<Rightarrow> nat \<Rightarrow> nr_error + 'a::len word" where
  "rd_word mem off = ebind (mem_read mem off (LENGTH('a) div 8)) (\<lambda>bs. Inr (le_word bs))"

lemma mem_read_eq_Inr:
  "mem_read mem off n = Inr bs \<longleftrightarrow> off + n \<le> length mem \<and> bs = take n (drop off mem)"
  by (auto simp: mem_read_def)

lemma mem_read_append:
  "off = length a \<Longrightarrow> n = length b \<Longrightarrow> mem_read (a @ b @ c) off n = Inr b"
  by (simp add: mem_read_def)

lemma mem_read_shift: "mem_read mem (off + k) n = mem_read (drop off mem) k n"
  if "off \<le> length mem"
  using that by (auto simp: mem_read_def add.commute)

lemma rd_word_append:
  "off = length a \<Longrightarrow> 8 dvd LENGTH('a::len) \<Longrightarrow>
     rd_word (a @ le_bytes (w :: 'a word) @ c) off = Inr w"
  by (simp add: rd_word_def mem_read_append le_word_le_bytes)

section \<open>Sizes\<close>

text \<open>
  \<^verbatim>\<open>Size\<close> is a 64-bit unsigned integer. Sizes that cannot overflow are naturals; a
  subtraction that may go below zero wraps around and is written with \<open>size_sub\<close>.
  \<^verbatim>\<open>palloc\<close> refuses a request above \<^verbatim>\<open>MaxAllocSize\<close> (memutils.h).
\<close>

definition size_sub :: "nat \<Rightarrow> nat \<Rightarrow> nat" where
  "size_sub a b = (if b \<le> a then a - b else 2 ^ 64 + a - b)"

definition MaxAllocSize :: nat where
  "MaxAllocSize = 0x3fffffff"

definition palloc :: "nat \<Rightarrow> nr_error + unit" where
  "palloc n = (if n \<le> MaxAllocSize then Inr () else Inl (Elog ''invalid memory alloc request size''))"

lemma palloc_ok [simp]: "n \<le> MaxAllocSize \<Longrightarrow> palloc n = Inr ()"
  by (simp add: palloc_def)

lemma size_sub_le [simp]: "b \<le> a \<Longrightarrow> size_sub a b = a - b"
  by (simp add: size_sub_def)

text \<open>Evaluation of reads on a concrete memory.\<close>

lemmas mem_eval = rd_word_def mem_read_def le_word_def

end
