(* ===== verification/NR_Datum.thy ===== *)
theory NR_Datum
  imports NR_Prelude
begin

text \<open>
  The datum serializer of the database engine
  (\<^verbatim>\<open>dbengine/src/backend/utils/adt/datum.c\<close> with the varlena macros of
  \<^verbatim>\<open>dbengine/src/include/varatt.h\<close>), which the NRAM storage uses to flatten the columns
  of a tuple. A datum is either a 64-bit word (pass by value) or a pointer; a pointer is
  modelled by the bytes it points to. Expanded objects flatten themselves through a method
  of their type, the parameter \<open>eoh\<close> of the definitions.
\<close>

datatype datum = DByVal u64 | DByRef "byte list"

record attribute =
  attbyval :: bool
  attlen :: int
  atttypid :: u32

section \<open>Varlena headers\<close>

definition VARATT_IS_1B_E :: "byte list \<Rightarrow> bool" where
  "VARATT_IS_1B_E p = (p ! 0 = 0x01)"

definition VARTAG_IS_EXPANDED :: "byte \<Rightarrow> bool" where
  "VARTAG_IS_EXPANDED tag = (tag AND NOT 1 = 2)"

definition VARTAG_SIZE :: "byte \<Rightarrow> nat" where
  "VARTAG_SIZE tag =
     (if tag = 1 then 8 else if VARTAG_IS_EXPANDED tag then 8 else if tag = 18 then 16 else 0)"

definition VARATT_IS_EXTERNAL_EXPANDED :: "byte list \<Rightarrow> nr_error + bool" where
  "VARATT_IS_EXTERNAL_EXPANDED p =
     (if length p < 1 then Inl Bad_memory
      else if \<not> VARATT_IS_1B_E p then Inr False
      else if length p < 2 then Inl Bad_memory
      else Inr (VARTAG_IS_EXPANDED (p ! 1)))"

definition VARSIZE_ANY :: "byte list \<Rightarrow> nr_error + nat" where
  "VARSIZE_ANY p =
     (if length p < 1 then Inl Bad_memory
      else if VARATT_IS_1B_E p
        then (if length p < 2 then Inl Bad_memory else Inr (2 + VARTAG_SIZE (p ! 1)))
      else if (p ! 0) AND 1 = 1 then Inr (unat (drop_bit 1 (p ! 0) AND 0x7F))
      else ebind (rd_word p 0) (\<lambda>h :: u32. Inr (unat (drop_bit 2 h AND 0x3FFFFFFF))))"

section \<open>Sizes\<close>

fun c_strlen :: "byte list \<Rightarrow> nr_error + nat" where
  "c_strlen [] = Inl Bad_memory"
| "c_strlen (b # bs) = (if b = 0 then Inr 0 else ebind (c_strlen bs) (\<lambda>n. Inr (Suc n)))"

definition datumGetSize :: "datum \<Rightarrow> bool \<Rightarrow> int \<Rightarrow> nr_error + nat" where
  "datumGetSize value typByVal typLen =
     (if typByVal then Inr (nat typLen)
      else if typLen > 0 then Inr (nat typLen)
      else if typLen = -1 then
        (case value of DByRef p \<Rightarrow> VARSIZE_ANY p | DByVal _ \<Rightarrow> Inl Bad_memory)
      else if typLen = -2 then
        (case value of DByRef p \<Rightarrow> ebind (c_strlen p) (\<lambda>n. Inr (n + 1)) | DByVal _ \<Rightarrow> Inl Bad_memory)
      else Inl (Elog ''invalid typLen''))"

text \<open>The test \<^verbatim>\<open>typLen == -1 && VARATT_IS_EXTERNAL_EXPANDED(..)\<close> of both functions below.\<close>

definition is_expanded :: "datum \<Rightarrow> int \<Rightarrow> nr_error + bool" where
  "is_expanded value typLen =
     (if typLen \<noteq> -1 then Inr False
      else case value of DByRef p \<Rightarrow> VARATT_IS_EXTERNAL_EXPANDED p | DByVal _ \<Rightarrow> Inl Bad_memory)"

text \<open>\<open>None\<close> is a NULL column (\<^verbatim>\<open>isnull\<close>).\<close>

definition datumEstimateSpace ::
  "(byte list \<Rightarrow> byte list) \<Rightarrow> datum option \<Rightarrow> bool \<Rightarrow> int \<Rightarrow> nr_error + nat" where
  "datumEstimateSpace eoh d typByVal typLen =
     (case d of
        None \<Rightarrow> Inr 4
      | Some value \<Rightarrow>
          (if typByVal then Inr (4 + 8)
           else ebind (is_expanded value typLen) (\<lambda>x.
             if x then (case value of DByRef p \<Rightarrow> Inr (4 + length (eoh p)) | DByVal _ \<Rightarrow> Inl Bad_memory)
             else ebind (datumGetSize value typByVal typLen) (\<lambda>n. Inr (4 + n)))))"

section \<open>Serialize and restore\<close>

text \<open>
  The bytes \<^verbatim>\<open>datumSerialize\<close> appends at \<^verbatim>\<open>*start_address\<close>: a header word (the length of a
  pass-by-reference datum, \<open>-1\<close> for pass-by-value, \<open>-2\<close> for NULL) and the payload.
\<close>

definition datumSerialize ::
  "(byte list \<Rightarrow> byte list) \<Rightarrow> datum option \<Rightarrow> bool \<Rightarrow> int \<Rightarrow> nr_error + byte list" where
  "datumSerialize eoh d typByVal typLen =
     (case d of
        None \<Rightarrow> Inr (le_bytes (-2 :: u32))
      | Some value \<Rightarrow>
          (if typByVal then
             (case value of
                DByVal w \<Rightarrow> Inr (le_bytes (-1 :: u32) @ le_bytes w)
              | DByRef _ \<Rightarrow> Inl Bad_memory)
           else ebind (is_expanded value typLen) (\<lambda>x.
             case value of
               DByVal _ \<Rightarrow> Inl Bad_memory
             | DByRef p \<Rightarrow>
                 (if x then Inr (le_bytes (of_nat (length (eoh p)) :: u32) @ eoh p)
                  else ebind (datumGetSize value typByVal typLen) (\<lambda>n.
                    ebind (mem_read p 0 n) (\<lambda>bs. Inr (le_bytes (of_nat n :: u32) @ bs)))))))"

text \<open>\<^verbatim>\<open>datumRestore\<close> returns the datum and the advanced position.\<close>

definition datumRestore :: "byte list \<Rightarrow> nat \<Rightarrow> nr_error + (datum option \<times> nat)" where
  "datumRestore mem pos =
     ebind (rd_word mem pos) (\<lambda>h :: u32.
       if sint h = -2 then Inr (None, pos + 4)
       else if sint h = -1 then
         ebind (rd_word mem (pos + 4)) (\<lambda>w. Inr (Some (DByVal w), pos + 12))
       else
         (let n = (if 0 \<le> sint h then nat (sint h) else 2 ^ 64 - nat (- sint h)) in
          ebind (palloc n) (\<lambda>_.
            ebind (mem_read mem (pos + 4) n) (\<lambda>bs. Inr (Some (DByRef bs), pos + 4 + n)))))"

section \<open>Well-formed columns and the round trip\<close>

text \<open>
  What a tuple slot guarantees for a column: a pass-by-value type holds a word, a
  pass-by-reference type points to an object of exactly its size. The datum a reader gets
  back is the flat one.
\<close>

definition flat_datum :: "(byte list \<Rightarrow> byte list) \<Rightarrow> attribute \<Rightarrow> datum option \<Rightarrow> datum option" where
  "flat_datum eoh a d =
     (case d of
        Some (DByRef p) \<Rightarrow>
          (if \<not> attbyval a \<and> is_expanded (DByRef p) (attlen a) = Inr True then Some (DByRef (eoh p)) else d)
      | _ \<Rightarrow> d)"

definition datum_ok :: "(byte list \<Rightarrow> byte list) \<Rightarrow> attribute \<Rightarrow> datum option \<Rightarrow> bool" where
  "datum_ok eoh a d =
     (case d of
        None \<Rightarrow> True
      | Some (DByVal w) \<Rightarrow> attbyval a
      | Some (DByRef p) \<Rightarrow> \<not> attbyval a \<and>
          (if is_expanded (DByRef p) (attlen a) = Inr True then length (eoh p) \<le> MaxAllocSize
           else is_expanded (DByRef p) (attlen a) = Inr False \<and>
                datumGetSize (DByRef p) False (attlen a) = Inr (length p) \<and> length p \<le> MaxAllocSize))"

lemma datumSerialize_size:
  assumes ok: "datum_ok eoh a d"
  shows "\<exists>bs. datumSerialize eoh d (attbyval a) (attlen a) = Inr bs \<and>
              datumEstimateSpace eoh d (attbyval a) (attlen a) = Inr (length bs)"
proof (cases d)
  case None
  then show ?thesis by (simp add: datumSerialize_def datumEstimateSpace_def)
next
  case (Some v)
  show ?thesis
  proof (cases v)
    case (DByVal w)
    with Some ok show ?thesis
      by (simp add: datum_ok_def datumSerialize_def datumEstimateSpace_def)
  next
    case (DByRef p)
    with Some ok have "\<not> attbyval a" by (simp add: datum_ok_def)
    with Some DByRef ok show ?thesis
      by (cases "is_expanded (DByRef p) (attlen a) = Inr True")
        (simp_all add: datum_ok_def datumSerialize_def datumEstimateSpace_def mem_read_def)
  qed
qed

lemma sint_of_nat_small: "n \<le> MaxAllocSize \<Longrightarrow> sint (of_nat n :: u32) = int n"
  by (simp add: MaxAllocSize_def signed_of_nat signed_take_bit_int_eq_self)

lemma datumRestore_ref:
  assumes "length p \<le> MaxAllocSize" and "pos = length pre"
  shows "datumRestore (pre @ le_bytes (of_nat (length p) :: u32) @ p @ post) pos
           = Inr (Some (DByRef p), pos + 4 + length p)"
proof -
  have "rd_word (pre @ le_bytes (of_nat (length p) :: u32) @ p @ post) pos = Inr (of_nat (length p) :: u32)"
    by (rule rd_word_append) (simp_all add: assms)
  moreover have "mem_read (pre @ le_bytes (of_nat (length p) :: u32) @ p @ post) (pos + 4) (length p) = Inr p"
    by (simp add: mem_read_def assms)
  ultimately show ?thesis
    using assms by (simp add: datumRestore_def sint_of_nat_small Let_def)
qed

lemma datumRestore_val:
  assumes "pos = length pre"
  shows "datumRestore (pre @ (le_bytes (-1 :: u32) @ le_bytes w) @ post) pos = Inr (Some (DByVal w), pos + 12)"
proof -
  have "rd_word (pre @ (le_bytes (-1 :: u32) @ le_bytes w) @ post) pos = Inr (-1 :: u32)"
    using rd_word_append [of pos pre "-1 :: u32" "le_bytes w @ post"] assms by simp
  moreover have "rd_word (pre @ (le_bytes (-1 :: u32) @ le_bytes w) @ post) (pos + 4) = Inr w"
    using rd_word_append [of "pos + 4" "pre @ le_bytes (-1 :: u32)" w post] assms by simp
  ultimately show ?thesis
    by (simp add: datumRestore_def)
qed

lemma datumRestore_null:
  assumes "pos = length pre"
  shows "datumRestore (pre @ le_bytes (-2 :: u32) @ post) pos = Inr (None, pos + 4)"
  using rd_word_append [of pos pre "-2 :: u32" post] assms by (simp add: datumRestore_def)

text \<open>A serialized column is read back, wherever it lies in the buffer.\<close>

lemma datumRestore_datumSerialize:
  assumes ok: "datum_ok eoh a d"
    and ser: "datumSerialize eoh d (attbyval a) (attlen a) = Inr bs"
    and pos: "pos = length pre"
  shows "datumRestore (pre @ bs @ post) pos = Inr (flat_datum eoh a d, pos + length bs)"
proof (cases d)
  case None
  with ser have "bs = le_bytes (-2 :: u32)" by (simp add: datumSerialize_def)
  with None show ?thesis using datumRestore_null [OF pos, of post] by (simp add: flat_datum_def)
next
  case (Some v)
  show ?thesis
  proof (cases v)
    case (DByVal w)
    with Some ok ser have "bs = le_bytes (-1 :: u32) @ le_bytes w"
      by (simp add: datumSerialize_def datum_ok_def)
    with Some DByVal show ?thesis
      using datumRestore_val [OF pos, of w post] by (simp add: flat_datum_def)
  next
    case (DByRef p)
    let ?q = "if is_expanded (DByRef p) (attlen a) = Inr True then eoh p else p"
    from Some DByRef ok ser have "bs = le_bytes (of_nat (length ?q) :: u32) @ ?q" and "length ?q \<le> MaxAllocSize"
      by (auto simp: datumSerialize_def datum_ok_def mem_read_def split: if_splits)
    with Some DByRef ok show ?thesis
      using datumRestore_ref [OF _ pos, of ?q post] by (auto simp: flat_datum_def datum_ok_def)
  qed
qed

text \<open>Evaluation on concrete columns.\<close>

lemmas datum_eval = datum_ok_def flat_datum_def is_expanded_def VARATT_IS_EXTERNAL_EXPANDED_def VARATT_IS_1B_E_def
  datumGetSize_def VARSIZE_ANY_def datumEstimateSpace_def

end
