(* ===== verification/NR_KV.thy ===== *)
theory NR_KV
  imports NR_Datum
begin

text \<open>
  The key-value representation of NRAM tuples:
  \<^verbatim>\<open>dbengine/nr_kernel/nr_am/src/nram_access/kv.c\<close> and \<^verbatim>\<open>kv.h\<close>. Tuple identifiers, keys
  and values, their byte encodings, and the conversion between a heap tuple and a value.

  A value is a C struct with a flexible array; \<open>v_data\<close> is the memory of that array.
  \<open>mem\<close> in the readers is the memory from the given pointer to the end of the memory
  that may be read there.
\<close>

section \<open>Tuple identifiers\<close>

record ItemPointerData =
  bi_hi :: u16
  bi_lo :: u16
  ip_posid :: u16

definition ItemPointerSet :: "u32 \<Rightarrow> u16 \<Rightarrow> ItemPointerData" where
  "ItemPointerSet blockNumber offNum =
     \<lparr>bi_hi = ucast (drop_bit 16 blockNumber), bi_lo = ucast (blockNumber AND 0xffff), ip_posid = offNum\<rparr>"

definition BlockIdGetBlockNumber :: "ItemPointerData \<Rightarrow> u32" where
  "BlockIdGetBlockNumber p = push_bit 16 (ucast (bi_hi p)) OR ucast (bi_lo p)"

definition ItemPointerIsValid :: "ItemPointerData \<Rightarrow> bool" where
  "ItemPointerIsValid p = (ip_posid p \<noteq> 0)"

text \<open>
  The generator state is the counter \<^verbatim>\<open>local_tid_seq\<close> of the process; the result is the
  logical tid and the counter after \<^verbatim>\<open>pg_atomic_fetch_add_u64\<close>.
\<close>

definition nram_generate_logical_tid :: "u64 \<Rightarrow> u32 \<Rightarrow> u64 \<times> u64" where
  "nram_generate_logical_tid local_tid_seq MyProcPid =
     (let counter = (ucast (local_tid_seq AND 0xFFFFFFFF) :: u32);
          pid_part = (ucast (MyProcPid AND 0xFFFF) :: u16)
      in (push_bit 16 (ucast counter) OR ucast pid_part, local_tid_seq + 1))"

definition nram_encode_tid :: "u64 \<Rightarrow> ItemPointerData" where
  "nram_encode_tid logical_tid =
     (let block = (ucast (drop_bit 16 logical_tid AND 0xFFFFFFFF) :: u32);
          offset = (ucast (logical_tid AND 0xFFFF) :: u16)
      in ItemPointerSet block offset)"

definition nram_decode_tid :: "ItemPointerData \<Rightarrow> u64" where
  "nram_decode_tid p = push_bit 16 (ucast (BlockIdGetBlockNumber p)) OR ucast (ip_posid p)"

definition nram_generate_tid :: "u64 \<Rightarrow> u32 \<Rightarrow> ItemPointerData \<times> u64" where
  "nram_generate_tid seq pid =
     (let (logical_tid, seq') = nram_generate_logical_tid seq pid in (nram_encode_tid logical_tid, seq'))"

lemma and_FFFF: "w AND 0xFFFF = take_bit 16 (w :: 'a::len word)"
  by (simp add: take_bit_eq_mask mask_numeral)

lemma and_FFFFFFFF: "w AND 0xFFFFFFFF = take_bit 32 (w :: 'a::len word)"
  by (simp add: take_bit_eq_mask mask_numeral)

lemmas tid_bits = and_FFFF and_FFFFFFFF bit_simps

lemma nram_decode_encode: "nram_decode_tid (nram_encode_tid t) = take_bit 48 t"
  by (rule bit_eqI)
    (auto simp: nram_decode_tid_def nram_encode_tid_def BlockIdGetBlockNumber_def ItemPointerSet_def
      Let_def tid_bits)

lemma logical_tid_bits:
  "bit (fst (nram_generate_logical_tid seq pid)) n \<longleftrightarrow>
     (if n < 16 then bit pid n else n < 48 \<and> bit seq (n - 16))"
  by (auto simp: nram_generate_logical_tid_def Let_def tid_bits)

lemma logical_tid_48: "take_bit 48 (fst (nram_generate_logical_tid seq pid)) = fst (nram_generate_logical_tid seq pid)"
  by (rule bit_eqI) (auto simp: bit_take_bit_iff logical_tid_bits)

lemma nram_decode_generate: "nram_decode_tid (fst (nram_generate_tid seq pid)) = fst (nram_generate_logical_tid seq pid)"
  by (simp add: nram_generate_tid_def case_prod_beta nram_decode_encode logical_tid_48)

lemma logical_tid_eq_iff:
  "fst (nram_generate_logical_tid a p) = fst (nram_generate_logical_tid b q) \<longleftrightarrow>
     take_bit 32 a = take_bit 32 b \<and> take_bit 16 p = take_bit 16 q"
proof
  assume eq: "fst (nram_generate_logical_tid a p) = fst (nram_generate_logical_tid b q)"
  have "bit p n = bit q n" if "n < 16" for n
    using that eq logical_tid_bits [of a p n] logical_tid_bits [of b q n] by simp
  moreover have "bit a n = bit b n" if "n < 32" for n
    using that eq logical_tid_bits [of a p "n + 16"] logical_tid_bits [of b q "n + 16"] by simp
  ultimately show "take_bit 32 a = take_bit 32 b \<and> take_bit 16 p = take_bit 16 q"
    by (auto intro!: bit_eqI simp: bit_take_bit_iff)
next
  assume eq: "take_bit 32 a = take_bit 32 b \<and> take_bit 16 p = take_bit 16 q"
  have low: "bit p n = bit q n" if "n < 16" for n
    using that eq by (metis bit_take_bit_iff)
  have high: "bit a n = bit b n" if "n < 32" for n
    using that eq by (metis bit_take_bit_iff)
  show "fst (nram_generate_logical_tid a p) = fst (nram_generate_logical_tid b q)"
    by (rule bit_eqI) (auto simp: logical_tid_bits low high)
qed

section \<open>Keys\<close>

record nram_key =
  tableOid :: u32
  tid :: u64

definition nram_key_from_tid :: "u32 \<Rightarrow> ItemPointerData \<Rightarrow> nram_key" where
  "nram_key_from_tid oid p = \<lparr>tableOid = oid, tid = nram_decode_tid p\<rparr>"

definition tkey_serialize :: "nram_key \<Rightarrow> byte list" where
  "tkey_serialize k = le_bytes (tableOid k) @ le_bytes (tid k)"

definition tkey_deserialize :: "byte list \<Rightarrow> nat \<Rightarrow> nr_error + nram_key" where
  "tkey_deserialize mem len =
     (if len \<noteq> 4 + 8 then Inl (Elog ''tkey_deserialize: input buffer invalid length'')
      else ebind (rd_word mem 0) (\<lambda>oid.
        ebind (rd_word mem 4) (\<lambda>t. Inr \<lparr>tableOid = oid, tid = t\<rparr>)))"

definition copy_nram_key :: "nram_key \<Rightarrow> nram_key" where
  "copy_nram_key src = \<lparr>tableOid = tableOid src, tid = tid src\<rparr>"

lemma copy_nram_key_id [simp]: "copy_nram_key k = k"
  by (simp add: copy_nram_key_def)

lemma length_tkey_serialize [simp, codec]: "length (tkey_serialize k) = 12"
  by (simp add: tkey_serialize_def)

lemma tkey_roundtrip [simp, codec]: "tkey_deserialize (tkey_serialize k @ rest) 12 = Inr k"
proof -
  have "rd_word (tkey_serialize k @ rest) 0 = Inr (tableOid k)"
    using rd_word_append [of 0 "[]" "tableOid k" "le_bytes (tid k) @ rest"] by (simp add: tkey_serialize_def)
  moreover have "rd_word (tkey_serialize k @ rest) 4 = Inr (tid k)"
    using rd_word_append [of 4 "le_bytes (tableOid k)" "tid k" rest] by (simp add: tkey_serialize_def)
  ultimately show ?thesis by (simp add: tkey_deserialize_def)
qed

lemma tkey_serialize_inject [simp]: "tkey_serialize j = tkey_serialize k \<longleftrightarrow> j = k"
  by (metis sum.inject(2) tkey_roundtrip)

section \<open>Values\<close>

record nram_value =
  v_xact_id :: u32
  v_flags :: u16
  v_nfields :: u16
  v_data :: "byte list"

definition NRAMF_PRIVATE :: u16 where "NRAMF_PRIVATE = 0x0001"
definition NRAMF_DELETED :: u16 where "NRAMF_DELETED = 0x0002"

definition NRAMValueIsPrivate :: "nram_value \<Rightarrow> bool" where
  "NRAMValueIsPrivate v = (v_flags v AND NRAMF_PRIVATE \<noteq> 0)"

definition NRAMValueIsDeleted :: "nram_value \<Rightarrow> bool" where
  "NRAMValueIsDeleted v = (v_flags v AND NRAMF_DELETED \<noteq> 0)"

text \<open>
  \<^verbatim>\<open>nfields\<close> is an \<^verbatim>\<open>int16\<close>: the loops over the fields run \<open>nat (sint nfields)\<close> times.
  A field is a 12-byte \<^verbatim>\<open>NRAMValueFieldData\<close> (\<^verbatim>\<open>attnum\<close> at 0, two bytes of padding,
  \<^verbatim>\<open>type_oid\<close> at 4, \<^verbatim>\<open>len\<close> at 8) and \<^verbatim>\<open>len\<close> bytes of data.
\<close>

abbreviation nfields_count :: "nram_value \<Rightarrow> nat" where
  "nfields_count v \<equiv> nat (sint (v_nfields v))"

text \<open>The first pass: the offset behind the last field.\<close>

fun fields_end :: "nat \<Rightarrow> byte list \<Rightarrow> nat \<Rightarrow> nr_error + nat" where
  "fields_end 0 mem pos = Inr pos"
| "fields_end (Suc n) mem pos =
     ebind (rd_word mem (pos + 8)) (\<lambda>len :: u32. fields_end n mem (pos + 12 + unat len))"

text \<open>The second pass of \<^verbatim>\<open>tvalue_serialize\<close>: copy field by field.\<close>

fun copy_fields :: "nat \<Rightarrow> byte list \<Rightarrow> nat \<Rightarrow> nr_error + byte list" where
  "copy_fields 0 mem pos = Inr []"
| "copy_fields (Suc n) mem pos =
     ebind (rd_word mem (pos + 8)) (\<lambda>len :: u32.
       ebind (mem_read mem pos (12 + unat len)) (\<lambda>f.
         ebind (copy_fields n mem (pos + 12 + unat len)) (\<lambda>fs. Inr (f @ fs))))"

definition tvalue_serialize :: "nram_value \<Rightarrow> nr_error + byte list" where
  "tvalue_serialize v =
     ebind (fields_end (nfields_count v) (v_data v) 0) (\<lambda>data_len.
       ebind (palloc (4 + 2 + 2 + data_len)) (\<lambda>_.
         ebind (copy_fields (nfields_count v) (v_data v) 0) (\<lambda>fs.
           Inr (le_bytes (v_xact_id v) @ le_bytes (v_flags v) @ le_bytes (v_nfields v) @ fs))))"

text \<open>
  The reader takes the three header words (8 bytes), but computes the length of the data
  with one 2-byte word less: \<^verbatim>\<open>data_len = len - sizeof(TransactionId) - sizeof(int16)\<close>.
\<close>

definition tvalue_deserialize :: "byte list \<Rightarrow> nat \<Rightarrow> nr_error + nram_value" where
  "tvalue_deserialize mem len =
     ebind (rd_word mem 0) (\<lambda>xact_id.
     ebind (rd_word mem 4) (\<lambda>flags.
     ebind (rd_word mem 6) (\<lambda>nfields.
       (let data_len = size_sub (size_sub len 4) 2;
            total_len = (8 + data_len) mod 2 ^ 64
        in ebind (palloc total_len) (\<lambda>_.
             ebind (mem_read mem 8 data_len) (\<lambda>data.
               Inr \<lparr>v_xact_id = xact_id, v_flags = flags, v_nfields = nfields, v_data = data\<rparr>))))))"

definition copy_nram_value :: "nram_value \<Rightarrow> nr_error + nram_value" where
  "copy_nram_value src =
     ebind (fields_end (nfields_count src) (v_data src) 0) (\<lambda>data_len.
       ebind (palloc (8 + data_len)) (\<lambda>_.
         ebind (mem_read (v_data src) 0 data_len) (\<lambda>data.
           Inr \<lparr>v_xact_id = v_xact_id src, v_flags = v_flags src, v_nfields = v_nfields src, v_data = data\<rparr>)))"

subsection \<open>The field walk\<close>

lemma private_flags: "(0 OR NRAMF_PRIVATE) AND NOT NRAMF_PRIVATE = 0" "(f OR NRAMF_PRIVATE) AND NRAMF_PRIVATE \<noteq> 0"
  by (simp_all add: NRAMF_PRIVATE_def and_one_eq even_or_iff odd_iff_mod_2_eq_one [symmetric])

lemma rd_word_take:
  "rd_word (take m mem) off = Inr w \<Longrightarrow> rd_word mem off = Inr w"
  by (auto simp: rd_word_def mem_read_def min_def drop_take split: if_splits)

lemma rd_word_extend: "rd_word mem off = Inr w \<Longrightarrow> rd_word (mem @ rest) off = Inr w"
  by (auto simp: rd_word_def mem_read_def split: if_splits)

lemma fields_end_mono: "fields_end n mem pos = Inr e \<Longrightarrow> pos + 12 * n \<le> e"
  by (induction n mem pos rule: fields_end.induct) fastforce+

lemma fields_end_extend: "fields_end n mem pos = Inr e \<Longrightarrow> fields_end n (mem @ rest) pos = Inr e"
  by (induction n mem pos rule: fields_end.induct) (auto dest: rd_word_extend)

lemma rd_word_within:
  "rd_word mem off = Inr (w :: 'a::len word) \<Longrightarrow> off + LENGTH('a) div 8 \<le> m \<Longrightarrow> rd_word (take m mem) off = Inr w"
  by (auto simp: rd_word_def mem_read_def drop_take min_def split: if_splits)

lemma fields_end_within: "fields_end n mem pos = Inr e \<Longrightarrow> fields_end n (take e mem) pos = Inr e"
proof (induction n mem pos rule: fields_end.induct)
  case (1 mem pos)
  then show ?case by simp
next
  case (2 n mem pos)
  then obtain len :: u32 where len: "rd_word mem (pos + 8) = Inr len"
    and rest: "fields_end n mem (pos + 12 + unat len) = Inr e"
    by auto
  have "pos + 12 + unat len \<le> e"
    using fields_end_mono [OF rest] by simp
  then have "rd_word (take e mem) (pos + 8) = Inr len"
    using len by (intro rd_word_within) simp_all
  then show ?case
    using "2.IH" rest by simp
qed

lemma take_split: "a \<le> b \<Longrightarrow> take a xs @ take (b - a) (drop a xs) = take b xs"
  by (metis le_add_diff_inverse take_add)

lemma copy_fields_eq:
  "fields_end n mem pos = Inr e \<Longrightarrow>
     copy_fields n mem pos = (if n = 0 \<or> e \<le> length mem then Inr (take (e - pos) (drop pos mem)) else Inl Bad_memory)"
proof (induction n mem pos rule: fields_end.induct)
  case (1 mem pos)
  then show ?case by simp
next
  case (2 n mem pos)
  then obtain len :: u32 where len: "rd_word mem (pos + 8) = Inr len"
    and rest: "fields_end n mem (pos + 12 + unat len) = Inr e"
    by auto
  let ?f = "12 + unat len"
  have le: "pos + ?f \<le> e"
    using fields_end_mono [OF rest] by simp
  show ?case
  proof (cases "e \<le> length mem")
    case True
    have "take ?f (drop pos mem) @ take (e - (pos + ?f)) (drop (pos + ?f) mem) = take (e - pos) (drop pos mem)"
      using take_split [of ?f "e - pos" "drop pos mem"] le by (simp add: add.commute)
    then show ?thesis
      using True le len rest "2.IH" [OF rest] by (simp add: mem_read_def add.assoc)
  next
    case False
    show ?thesis
      using False le len rest "2.IH" [OF rest] by (cases "n = 0") (auto simp: mem_read_def add.assoc)
  qed
qed

section \<open>Tuples\<close>

text \<open>
  A heap tuple enters as the columns \<^verbatim>\<open>heap_deform_tuple\<close> yields, each with its attribute
  descriptor. The padding bytes of a field header are zero (\<^verbatim>\<open>palloc0\<close>).
\<close>

type_synonym tuple_columns = "(attribute \<times> datum option) list"

definition field_header :: "nat \<Rightarrow> attribute \<Rightarrow> nat \<Rightarrow> byte list" where
  "field_header i a len = le_bytes (of_nat i :: u16) @ [0, 0] @ le_bytes (atttypid a) @ le_bytes (of_nat len :: u32)"

fun serialize_fields ::
  "(byte list \<Rightarrow> byte list) \<Rightarrow> nat \<Rightarrow> tuple_columns \<Rightarrow> nat list \<Rightarrow> nr_error + byte list" where
  "serialize_fields eoh i ((a, d) # cols) (len # lens) =
     ebind (datumSerialize eoh d (attbyval a) (attlen a)) (\<lambda>bs.
       ebind (serialize_fields eoh (Suc i) cols lens) (\<lambda>rest. Inr (field_header i a len @ bs @ rest)))"
| "serialize_fields eoh i _ _ = Inr []"

definition nram_value_serialize_from_tuple ::
  "(byte list \<Rightarrow> byte list) \<Rightarrow> u32 \<Rightarrow> tuple_columns \<Rightarrow> nr_error + nram_value" where
  "nram_value_serialize_from_tuple eoh xid cols =
     ebind (mapE (\<lambda>(a, d). datumEstimateSpace eoh d (attbyval a) (attlen a)) cols) (\<lambda>lens.
       (let total_size = 8 + sum_list (map (\<lambda>l. l + 12) lens) in
        ebind (palloc total_size) (\<lambda>_.
          ebind (serialize_fields eoh 0 cols lens) (\<lambda>data.
            if 8 + length data > total_size then Inl Bad_memory
            else if 8 + length data \<noteq> total_size
              then Inl (Elog ''[nram_value_serialize_from_tuple]: wrong value serialization length mismatch'')
            else Inr \<lparr>v_xact_id = xid, v_flags = 0, v_nfields = of_nat (length cols), v_data = data\<rparr>))))"

fun restore_fields :: "nat \<Rightarrow> byte list \<Rightarrow> nat \<Rightarrow> nr_error + datum option list" where
  "restore_fields 0 mem pos = Inr []"
| "restore_fields (Suc n) mem pos =
     ebind (datumRestore mem (pos + 12)) (\<lambda>(d, pos').
       ebind (restore_fields n mem pos') (\<lambda>ds. Inr (d # ds)))"

text \<open>
  The two arrays are allocated with \<^verbatim>\<open>nfields\<close> entries, so a negative count is a request of
  almost \<open>2 ^ 64\<close> bytes. \<^verbatim>\<open>heap_form_tuple\<close> reads as many entries as the descriptor has
  attributes.
\<close>

definition deserialize_nram_value_to_tuple :: "nram_value \<Rightarrow> nat \<Rightarrow> nr_error + datum option list" where
  "deserialize_nram_value_to_tuple v natts =
     ebind (palloc (nat ((8 * sint (v_nfields v)) mod 2 ^ 64))) (\<lambda>_.
       ebind (restore_fields (nfields_count v) (v_data v) 0) (\<lambda>ds.
         if natts > 1664 then Inl (Elog ''number of columns exceeds limit'')
         else if natts > length ds then Inl Bad_memory
         else Inr (take natts ds)))"

definition stringify_buff :: "byte list \<Rightarrow> string" where
  "stringify_buff buf =
     ''[Hex] '' @ concat (map (\<lambda>b. [''0123456789ABCDEF'' ! (unat b div 16), ''0123456789ABCDEF'' ! (unat b mod 16)]) buf)"

section \<open>Well-formed values\<close>

text \<open>The data of a well-formed value is exactly its fields.\<close>

definition value_wf :: "nram_value \<Rightarrow> bool" where
  "value_wf v = (fields_end (nfields_count v) (v_data v) 0 = Inr (length (v_data v)))"

definition value_header :: "nram_value \<Rightarrow> byte list" where
  "value_header v = le_bytes (v_xact_id v) @ le_bytes (v_flags v) @ le_bytes (v_nfields v)"

lemma length_value_header [simp]: "length (value_header v) = 8"
  by (simp add: value_header_def)

lemma value_header_update [simp]: "value_header (v\<lparr>v_data := d\<rparr>) = value_header v"
  by (simp add: value_header_def)

lemma tvalue_serialize_wf:
  assumes "value_wf v" "8 + length (v_data v) \<le> MaxAllocSize"
  shows "tvalue_serialize v = Inr (value_header v @ v_data v)"
  using assms copy_fields_eq [of "nfields_count v" "v_data v" 0 "length (v_data v)"]
  by (simp add: tvalue_serialize_def value_wf_def palloc_ok value_header_def)

text \<open>Bytes behind the fields are not serialized.\<close>

lemma tvalue_serialize_slack:
  assumes "value_wf v" "8 + length (v_data v) \<le> MaxAllocSize"
  shows "tvalue_serialize (v\<lparr>v_data := v_data v @ rest\<rparr>) = Inr (value_header v @ v_data v)"
  using assms fields_end_extend [of "nfields_count v" "v_data v" 0 "length (v_data v)" rest]
    copy_fields_eq [of "nfields_count v" "v_data v @ rest" 0 "length (v_data v)"]
  by (simp add: tvalue_serialize_def value_wf_def palloc_ok value_header_def)

lemma copy_nram_value_slack:
  assumes "value_wf v" "8 + length (v_data v) \<le> MaxAllocSize"
  shows "copy_nram_value (v\<lparr>v_data := v_data v @ rest\<rparr>) = Inr v"
  using assms fields_end_extend [of "nfields_count v" "v_data v" 0 "length (v_data v)" rest]
  by (simp add: copy_nram_value_def value_wf_def palloc_ok mem_read_def)

lemma read_value_header:
  "rd_word (value_header v @ mem) 0 = Inr (v_xact_id v)"
  "rd_word (value_header v @ mem) 4 = Inr (v_flags v)"
  "rd_word (value_header v @ mem) 6 = Inr (v_nfields v)"
  using rd_word_append [of 0 "[]" "v_xact_id v"] rd_word_append [of 4 "le_bytes (v_xact_id v)" "v_flags v"]
    rd_word_append [of 6 "le_bytes (v_xact_id v) @ le_bytes (v_flags v)" "v_nfields v"]
  by (simp_all add: value_header_def)

lemma tvalue_deserialize_eq:
  assumes "10 + length data \<le> MaxAllocSize"
  shows "tvalue_deserialize (value_header v @ data @ rest) (8 + length data) =
     (if length rest < 2 then Inl Bad_memory
      else Inr (v\<lparr>v_data := data @ take 2 rest\<rparr>))"
  using assms
  by (auto simp: tvalue_deserialize_def read_value_header palloc_ok mem_read_def size_sub_def MaxAllocSize_def
      Let_def palloc_def)

subsection \<open>Tuples make well-formed values\<close>

lemma length_field_header [simp]: "length (field_header i a len) = 12"
  by (simp add: field_header_def)

lemma rd_field_len:
  "len \<le> MaxAllocSize \<Longrightarrow> pos = length pre \<Longrightarrow>
     rd_word (pre @ field_header i a len @ rest) (pos + 8) = Inr (of_nat len :: u32)"
  using rd_word_append [of "pos + 8" "pre @ le_bytes (of_nat i :: u16) @ [0, 0] @ le_bytes (atttypid a)"
      "of_nat len :: u32" rest]
  by (simp add: field_header_def)

lemma unat_of_nat_alloc: "n \<le> MaxAllocSize \<Longrightarrow> unat (of_nat n :: u32) = n"
  by (simp add: MaxAllocSize_def unsigned_of_nat take_bit_nat_eq_self)

definition cols_ok :: "(byte list \<Rightarrow> byte list) \<Rightarrow> tuple_columns \<Rightarrow> bool" where
  "cols_ok eoh cols = list_all (\<lambda>(a, d). datum_ok eoh a d) cols"

abbreviation flat_cols :: "(byte list \<Rightarrow> byte list) \<Rightarrow> tuple_columns \<Rightarrow> datum option list" where
  "flat_cols eoh cols \<equiv> map (\<lambda>(a, d). flat_datum eoh a d) cols"

text \<open>The sizes of the first pass are those of the second.\<close>

lemma serialize_fields_ok:
  assumes "cols_ok eoh cols"
  shows "\<exists>lens. mapE (\<lambda>(a, d). datumEstimateSpace eoh d (attbyval a) (attlen a)) cols = Inr lens \<and>
           (\<forall>i. \<exists>bs. serialize_fields eoh i cols lens = Inr bs \<and> length bs = sum_list (map (\<lambda>l. l + 12) lens))"
  using assms
proof (induction cols)
  case Nil
  then show ?case by simp
next
  case (Cons c cols)
  obtain a d where c: "c = (a, d)" by force
  from Cons.prems c have ok: "datum_ok eoh a d" and oks: "cols_ok eoh cols" by (auto simp: cols_ok_def)
  from datumSerialize_size [OF ok] obtain b where
    b: "datumSerialize eoh d (attbyval a) (attlen a) = Inr b"
       "datumEstimateSpace eoh d (attbyval a) (attlen a) = Inr (length b)" by blast
  from Cons.IH [OF oks] obtain lens where
    lens: "mapE (\<lambda>(a, d). datumEstimateSpace eoh d (attbyval a) (attlen a)) cols = Inr lens"
    and rest: "\<And>i. \<exists>bs. serialize_fields eoh i cols lens = Inr bs \<and> length bs = sum_list (map (\<lambda>l. l + 12) lens)"
    by blast
  have "\<exists>bs. serialize_fields eoh i ((a, d) # cols) (length b # lens) = Inr bs \<and>
          length bs = sum_list (map (\<lambda>l. l + 12) (length b # lens))" for i
    using rest [of "Suc i"] b by auto
  then show ?case
    using b lens c by auto
qed

lemma serialize_fields_walk:
  assumes "cols_ok eoh cols"
    and "mapE (\<lambda>(a, d). datumEstimateSpace eoh d (attbyval a) (attlen a)) cols = Inr lens"
    and "serialize_fields eoh i cols lens = Inr bs"
    and "pos = length pre" "length bs \<le> MaxAllocSize"
  shows "fields_end (length cols) (pre @ bs @ post) pos = Inr (pos + length bs) \<and>
         restore_fields (length cols) (pre @ bs @ post) pos = Inr (flat_cols eoh cols)"
  using assms
proof (induction cols arbitrary: i lens bs pos pre)
  case Nil
  then show ?case by simp
next
  case (Cons c cols)
  obtain a d where c: "c = (a, d)" by force
  from Cons.prems c have ok: "datum_ok eoh a d" and oks: "cols_ok eoh cols" by (auto simp: cols_ok_def)
  from datumSerialize_size [OF ok] obtain b where
    b: "datumSerialize eoh d (attbyval a) (attlen a) = Inr b"
       "datumEstimateSpace eoh d (attbyval a) (attlen a) = Inr (length b)" by blast
  from Cons.prems(2) c b obtain lens' where
    lens: "mapE (\<lambda>(a, d). datumEstimateSpace eoh d (attbyval a) (attlen a)) cols = Inr lens'"
          "lens = length b # lens'" by auto
  from Cons.prems(3) c b lens obtain r where
    r: "serialize_fields eoh (Suc i) cols lens' = Inr r" and bs: "bs = field_header i a (length b) @ b @ r" by auto
  from Cons.prems(5) bs have small: "length b \<le> MaxAllocSize" "length r \<le> MaxAllocSize" by auto
  let ?pre = "pre @ field_header i a (length b) @ b"
  note IH = Cons.IH [OF oks lens(1) r, of "pos + 12 + length b" ?pre]
  have "rd_word (pre @ bs @ post) (pos + 8) = Inr (of_nat (length b) :: u32)"
    using rd_field_len [OF small(1) Cons.prems(4)] bs by simp
  moreover have "datumRestore (pre @ bs @ post) (pos + 12) = Inr (flat_datum eoh a d, pos + 12 + length b)"
    using datumRestore_datumSerialize [OF ok b(1), of "pos + 12" "pre @ field_header i a (length b)" "r @ post"]
      Cons.prems(4) bs by simp
  ultimately show ?case
    using IH small Cons.prems(4) c bs by (simp add: unat_of_nat_alloc)
qed

lemma sint_of_nat_16: "n < 2 ^ 15 \<Longrightarrow> sint (of_nat n :: u16) = int n"
  by (simp add: signed_of_nat signed_take_bit_int_eq_self)

abbreviation tuple_lens :: "(byte list \<Rightarrow> byte list) \<Rightarrow> tuple_columns \<Rightarrow> nr_error + nat list" where
  "tuple_lens eoh cols \<equiv> mapE (\<lambda>(a, d). datumEstimateSpace eoh d (attbyval a) (attlen a)) cols"

definition tuple_fits :: "(byte list \<Rightarrow> byte list) \<Rightarrow> tuple_columns \<Rightarrow> bool" where
  "tuple_fits eoh cols = (cols_ok eoh cols \<and> length cols \<le> 1664 \<and>
     (case tuple_lens eoh cols of Inr lens \<Rightarrow> 10 + sum_list (map (\<lambda>l. l + 12) lens) \<le> MaxAllocSize | Inl _ \<Rightarrow> False))"

lemma tuple_to_value:
  assumes fits: "tuple_fits eoh cols"
  shows "\<exists>v. nram_value_serialize_from_tuple eoh xid cols = Inr v \<and> value_wf v \<and>
           10 + length (v_data v) \<le> MaxAllocSize \<and> v_xact_id v = xid \<and> v_flags v = 0 \<and>
           sint (v_nfields v) = int (length cols) \<and>
           (\<forall>rest. restore_fields (length cols) (v_data v @ rest) 0 = Inr (flat_cols eoh cols))"
proof -
  from fits have oks: "cols_ok eoh cols" and n: "length cols \<le> 1664" by (auto simp: tuple_fits_def)
  from serialize_fields_ok [OF oks] obtain lens bs where
    lens: "tuple_lens eoh cols = Inr lens" and bs: "serialize_fields eoh 0 cols lens = Inr bs"
    and len: "length bs = sum_list (map (\<lambda>l. l + 12) lens)" by blast
  from fits lens len have small: "10 + length bs \<le> MaxAllocSize" by (simp add: tuple_fits_def)
  let ?v = "\<lparr>v_xact_id = xid, v_flags = 0, v_nfields = of_nat (length cols), v_data = bs\<rparr>"
  have walk: "fields_end (length cols) (bs @ rest) 0 = Inr (length bs) \<and>
      restore_fields (length cols) (bs @ rest) 0 = Inr (flat_cols eoh cols)" for rest
    using serialize_fields_walk [OF oks lens bs, of 0 "[]" rest] small by simp
  have nf: "sint (of_nat (length cols) :: u16) = int (length cols)"
    using n by (intro sint_of_nat_16) simp
  have "nram_value_serialize_from_tuple eoh xid cols = Inr ?v"
    using lens bs len small by (simp add: nram_value_serialize_from_tuple_def Let_def)
  moreover have "value_wf ?v"
    using walk [of "[]"] nf by (simp add: value_wf_def)
  ultimately show ?thesis
    using small nf walk by auto
qed

lemma value_to_tuple:
  assumes "restore_fields n (v_data v) 0 = Inr ds" "sint (v_nfields v) = int n" "n \<le> 1664" "length ds = n"
  shows "deserialize_nram_value_to_tuple v n = Inr ds"
  using assms by (simp add: deserialize_nram_value_to_tuple_def palloc_def MaxAllocSize_def)

section \<open>Properties\<close>

text \<open>
  C3: a tuple stored as an NRAM value, encoded for the wire, decoded and converted back is
  the original tuple (with expanded objects flattened), whatever two bytes lie behind the
  encoded value. Both passes of the writer agree, so no error is raised.
\<close>

theorem tuple_wire_roundtrip:
  assumes "tuple_fits eoh cols"
  shows "\<exists>v bs. nram_value_serialize_from_tuple eoh xid cols = Inr v \<and> tvalue_serialize v = Inr bs \<and>
           (\<forall>x y rest. ebind (tvalue_deserialize (bs @ x # y # rest) (length bs))
              (\<lambda>v'. deserialize_nram_value_to_tuple v' (length cols)) = Inr (flat_cols eoh cols))"
proof -
  from tuple_to_value [OF assms, of xid] obtain v where
    v: "nram_value_serialize_from_tuple eoh xid cols = Inr v" "value_wf v" "10 + length (v_data v) \<le> MaxAllocSize"
       "sint (v_nfields v) = int (length cols)"
       "\<And>rest. restore_fields (length cols) (v_data v @ rest) 0 = Inr (flat_cols eoh cols)" by blast
  have n: "length cols \<le> 1664" using assms by (simp add: tuple_fits_def)
  have "tvalue_serialize v = Inr (value_header v @ v_data v)"
    using v by (intro tvalue_serialize_wf) simp_all
  moreover have "ebind (tvalue_deserialize ((value_header v @ v_data v) @ x # y # rest) (8 + length (v_data v)))
      (\<lambda>v'. deserialize_nram_value_to_tuple v' (length cols)) = Inr (flat_cols eoh cols)" for x y rest
    using v n tvalue_deserialize_eq [OF v(3), of v "x # y # rest"]
      value_to_tuple [of "length cols" "v\<lparr>v_data := v_data v @ [x, y]\<rparr>" "flat_cols eoh cols"]
    by simp
  ultimately show ?thesis using v(1) by auto
qed

theorem tuple_wire_roundtrip_witness:
  "\<exists>v bs. nram_value_serialize_from_tuple id 7
       [(\<lparr>attbyval = True, attlen = 4, atttypid = 23\<rparr>, Some (DByVal 42)),
        (\<lparr>attbyval = False, attlen = -1, atttypid = 25\<rparr>, Some (DByRef [7, 65, 66])),
        (\<lparr>attbyval = True, attlen = 8, atttypid = 20\<rparr>, None)] = Inr v \<and>
     tvalue_serialize v = Inr bs \<and>
     (\<forall>x y rest. ebind (tvalue_deserialize (bs @ x # y # rest) (length bs))
        (\<lambda>v'. deserialize_nram_value_to_tuple v' 3) = Inr [Some (DByVal 42), Some (DByRef [7, 65, 66]), None])"
proof -
  let ?cols = "[(\<lparr>attbyval = True, attlen = 4, atttypid = 23\<rparr>, Some (DByVal 42)),
        (\<lparr>attbyval = False, attlen = -1, atttypid = 25\<rparr>, Some (DByRef [7, 65, 66])),
        (\<lparr>attbyval = True, attlen = 8, atttypid = 20\<rparr>, None)]"
  have "tuple_fits id ?cols" by (simp add: tuple_fits_def cols_ok_def MaxAllocSize_def datum_eval)
  moreover have "flat_cols id ?cols = [Some (DByVal 42), Some (DByRef [7, 65, 66]), None]" by (simp add: datum_eval)
  ultimately show ?thesis using tuple_wire_roundtrip [of id ?cols 7] by (simp add: numeral_3_eq_3)
qed

text \<open>
  Decoding a value reads two bytes behind its encoding: with exactly the encoded bytes
  available the read leaves the buffer.
\<close>

theorem tvalue_deserialize_overread:
  assumes "value_wf v" "10 + length (v_data v) \<le> MaxAllocSize" "length rest < 2"
  shows "\<exists>bs. tvalue_serialize v = Inr bs \<and> tvalue_deserialize (bs @ rest) (length bs) = Inl Bad_memory"
  using assms tvalue_serialize_wf [of v] tvalue_deserialize_eq [of "v_data v" v rest] by simp

theorem tvalue_deserialize_overread_witness:
  "\<exists>bs. tvalue_serialize \<lparr>v_xact_id = 7, v_flags = 0, v_nfields = 0, v_data = []\<rparr> = Inr bs \<and>
        tvalue_deserialize (bs @ [0]) (length bs) = Inl Bad_memory"
  using tvalue_deserialize_overread [of "\<lparr>v_xact_id = 7, v_flags = 0, v_nfields = 0, v_data = []\<rparr>" "[0]"]
  by (simp add: value_wf_def MaxAllocSize_def)

text \<open>
  \<^verbatim>\<open>copy_nram_value\<close> of a decoded value restores the value that was encoded: it drops
  the bytes behind the last field, and the copy has the same encoding as the original.
\<close>

theorem copy_decoded_value:
  assumes "value_wf v" "10 + length (v_data v) \<le> MaxAllocSize" "2 \<le> length rest"
  shows "\<exists>bs v'. tvalue_serialize v = Inr bs \<and> tvalue_deserialize (bs @ rest) (length bs) = Inr v' \<and>
           tvalue_serialize v' = Inr bs \<and> copy_nram_value v' = Inr v"
  using assms tvalue_serialize_wf [of v] tvalue_deserialize_eq [of "v_data v" v rest]
    tvalue_serialize_slack [of v "take 2 rest"] copy_nram_value_slack [of v "take 2 rest"] by simp

theorem copy_decoded_value_witness:
  "\<exists>bs v'. tvalue_serialize \<lparr>v_xact_id = 7, v_flags = 0, v_nfields = 1, v_data = [0,0,0,0, 23,0,0,0, 2,0,0,0, 5,6]\<rparr> = Inr bs \<and>
     tvalue_deserialize (bs @ [8, 9]) (length bs) = Inr v' \<and> tvalue_serialize v' = Inr bs \<and>
     copy_nram_value v' = Inr \<lparr>v_xact_id = 7, v_flags = 0, v_nfields = 1, v_data = [0,0,0,0, 23,0,0,0, 2,0,0,0, 5,6]\<rparr>"
proof (rule copy_decoded_value)
  show "value_wf \<lparr>v_xact_id = 7, v_flags = 0, v_nfields = 1, v_data = [0,0,0,0, 23,0,0,0, 2,0,0,0, 5,6]\<rparr>"
    by (simp add: value_wf_def mem_eval)
qed (simp_all add: MaxAllocSize_def)

text \<open>
  Two generated tuple identifiers of a table give the same key exactly if their
  counters agree in the low 32 bits and the backends' process ids in the low 16; a
  generated identifier is a valid item pointer exactly if the low 16 bits of the process
  id are not all zero.
\<close>

theorem generated_key_eq_iff:
  "(nram_key_from_tid oid (fst (nram_generate_tid a p)) = nram_key_from_tid oid (fst (nram_generate_tid b q)) \<longleftrightarrow>
      unat a mod 2 ^ 32 = unat b mod 2 ^ 32 \<and> unat p mod 2 ^ 16 = unat q mod 2 ^ 16) \<and>
   (ItemPointerIsValid (fst (nram_generate_tid a p)) \<longleftrightarrow> unat p mod 2 ^ 16 \<noteq> 0)"
proof -
  have tb: "take_bit n x = take_bit n y \<longleftrightarrow> unat x mod 2 ^ n = unat y mod 2 ^ n" for x y :: "'a::len word" and n
    by (metis take_bit_eq_mod unsigned_take_bit_eq word_unat_eq_iff)
  have "ip_posid (fst (nram_generate_tid a p)) = ucast (take_bit 16 p)"
    by (rule bit_eqI)
      (auto simp: nram_generate_tid_def nram_generate_logical_tid_def nram_encode_tid_def ItemPointerSet_def
        Let_def tid_bits)
  moreover have "(ucast (take_bit 16 p) :: u16) = 0 \<longleftrightarrow> take_bit 16 p = 0"
    by (auto simp: bit_eq_iff bit_simps)
  ultimately show ?thesis
    by (simp add: nram_key_from_tid_def nram_decode_generate logical_tid_eq_iff tb tb [of 16 p 0, simplified] ItemPointerIsValid_def)
qed

end
