(* ===== verification/NR_Lock.thy ===== *)
theory NR_Lock
  imports Complex_Main NR_KV
begin

text \<open>
  The heavyweight lock manager as NeurDB changed it: conflict table, acquisition and release
  (\<^verbatim>\<open>dbengine/src/backend/storage/lmgr/lock.c\<close>), the ranked wait queue (\<^verbatim>\<open>proc.c\<close>), and the
  relation and tuple locks (\<^verbatim>\<open>lmgr.c\<close>) the NRAM access method takes.

  A lock mode is its number, a set of modes a bit mask. The table of granted locks is a list
  of (tag, mode, process); an entry is repeated as often as the process acquired the lock.
  The fast path for weak relation locks, lock groups and resource owners are not modelled:
  they do not change which requests are granted to different processes. The rank of a
  process is a \<^verbatim>\<open>double\<close>, here a rational; a process does not change it while it waits. The
  dependency counters of the processes (\<^verbatim>\<open>nDep\<close>) are part of the table, because other processes
  raise them.
\<close>

section \<open>Modes and conflicts\<close>

definition AccessShareLock :: nat where "AccessShareLock = 1"
definition RowShareLock :: nat where "RowShareLock = 2"
definition RowExclusiveLock :: nat where "RowExclusiveLock = 3"
definition ShareUpdateExclusiveLock :: nat where "ShareUpdateExclusiveLock = 4"
definition ShareLock :: nat where "ShareLock = 5"
definition ShareRowExclusiveLock :: nat where "ShareRowExclusiveLock = 6"
definition ExclusiveLock :: nat where "ExclusiveLock = 7"
definition AccessExclusiveLock :: nat where "AccessExclusiveLock = 8"

lemmas mode_defs = AccessShareLock_def RowShareLock_def RowExclusiveLock_def ShareUpdateExclusiveLock_def
  ShareLock_def ShareRowExclusiveLock_def ExclusiveLock_def AccessExclusiveLock_def

definition LOCKBIT_ON :: "nat \<Rightarrow> u32" where
  "LOCKBIT_ON m = push_bit m 1"

definition mode_mask :: "nat list \<Rightarrow> u32" where
  "mode_mask ms = foldr (\<lambda>m acc. LOCKBIT_ON m OR acc) ms 0"

definition LockConflicts :: "u32 list" where
  "LockConflicts =
    [0,
     mode_mask [AccessExclusiveLock],
     mode_mask [ExclusiveLock, AccessExclusiveLock],
     mode_mask [ShareLock, ShareRowExclusiveLock, ExclusiveLock, AccessExclusiveLock],
     mode_mask [ShareUpdateExclusiveLock, ShareLock, ShareRowExclusiveLock, ExclusiveLock, AccessExclusiveLock],
     mode_mask [RowExclusiveLock, ShareUpdateExclusiveLock, ShareRowExclusiveLock, ExclusiveLock, AccessExclusiveLock],
     mode_mask [RowExclusiveLock, ShareUpdateExclusiveLock, ShareLock, ShareRowExclusiveLock, ExclusiveLock, AccessExclusiveLock],
     mode_mask [RowShareLock, RowExclusiveLock, ShareUpdateExclusiveLock, ShareLock, ShareRowExclusiveLock, ExclusiveLock, AccessExclusiveLock],
     mode_mask [AccessShareLock, RowShareLock, RowExclusiveLock, ShareUpdateExclusiveLock, ShareLock, ShareRowExclusiveLock, ExclusiveLock, AccessExclusiveLock]]"

definition conflictTab :: "nat \<Rightarrow> u32" where
  "conflictTab m = (if m < length LockConflicts then LockConflicts ! m else 0)"

text \<open>Whether a request for mode \<open>a\<close> conflicts with a held mode \<open>b\<close>.\<close>

definition conflicting :: "nat \<Rightarrow> nat \<Rightarrow> bool" where
  "conflicting a b = (conflictTab a AND LOCKBIT_ON b \<noteq> 0)"

section \<open>Tags and the lock table\<close>

datatype locktag =
    Tag_relation u32 u32
  | Tag_tuple u32 u32 u32 u16
  | Tag_advisory u32 u32 u32 u16

record waiter =
  w_pid :: u32
  waitLockMode :: nat
  heldLocks :: u32
  w_rank :: rat

record lock_table =
  lt_granted :: "(locktag \<times> nat \<times> u32) list"
  lt_waiters :: "locktag \<Rightarrow> waiter list"
  nDep :: "u32 \<Rightarrow> u32"

datatype LockAcquireResult = LOCKACQUIRE_NOT_AVAIL | LOCKACQUIRE_OK | LOCKACQUIRE_ALREADY_HELD

definition holds :: "lock_table \<Rightarrow> locktag \<Rightarrow> nat \<Rightarrow> u32 \<Rightarrow> bool" where
  "holds lt tag m pid = ((tag, m, pid) \<in> set (lt_granted lt))"

text \<open>The modes a process holds on a lock (\<^verbatim>\<open>holdMask\<close>), and the modes anyone holds (\<^verbatim>\<open>grantMask\<close>).\<close>

definition holdMask :: "lock_table \<Rightarrow> locktag \<Rightarrow> u32 \<Rightarrow> u32" where
  "holdMask lt tag pid = mode_mask (filter (\<lambda>m. holds lt tag m pid) [1..<9])"

definition holders :: "lock_table \<Rightarrow> locktag \<Rightarrow> nat \<Rightarrow> u32 list" where
  "holders lt tag m = remdups (map (\<lambda>(_, _, p). p) (filter (\<lambda>(t, k, _). t = tag \<and> k = m) (lt_granted lt)))"

definition grantMask :: "lock_table \<Rightarrow> locktag \<Rightarrow> u32" where
  "grantMask lt tag = mode_mask (filter (\<lambda>m. holders lt tag m \<noteq> []) [1..<9])"

definition waitMask :: "lock_table \<Rightarrow> locktag \<Rightarrow> u32" where
  "waitMask lt tag = mode_mask (map waitLockMode (lt_waiters lt tag))"

text \<open>\<^verbatim>\<open>LockCheckConflicts\<close> without lock groups: the conflicting holders that are not the process itself.\<close>

definition LockCheckConflicts :: "nat \<Rightarrow> lock_table \<Rightarrow> locktag \<Rightarrow> u32 \<Rightarrow> bool" where
  "LockCheckConflicts lockmode lt tag pid =
     (let conflictMask = conflictTab lockmode in
      if conflictMask AND grantMask lt tag = 0 then False
      else
        (let myLocks = holdMask lt tag pid;
             remaining = (\<lambda>i. if conflictMask AND LOCKBIT_ON i = 0 then 0
                              else length (holders lt tag i) - (if myLocks AND LOCKBIT_ON i \<noteq> 0 then 1 else 0))
         in sum_list (map remaining [1..<9]) \<noteq> 0))"

definition GrantLock :: "locktag \<Rightarrow> nat \<Rightarrow> u32 \<Rightarrow> lock_table \<Rightarrow> lock_table" where
  "GrantLock tag m pid lt = lt\<lparr>lt_granted := (tag, m, pid) # lt_granted lt\<rparr>"

section \<open>The wait queue\<close>

text \<open>
  The scan of the wait queue in \<^verbatim>\<open>ProcSleep\<close>: where to go (before a waiter, at the end,
  immediately granted, or a deadlock) and the processes whose dependency counter is raised on
  the way. A waiter's counter is raised on the test \<^verbatim>\<open>conflictTab[proc->waitLockMode] & lockmode\<close>.
\<close>

datatype queue_decision = At_end | Before nat | Grant_now | Early_deadlock

fun queue_scan ::
  "(nat \<Rightarrow> bool) \<Rightarrow> nat \<Rightarrow> u32 \<Rightarrow> rat \<Rightarrow> u32 \<Rightarrow> nat \<Rightarrow> waiter list \<Rightarrow> queue_decision \<times> u32 list" where
  "queue_scan check lockmode myHeldLocks rank ahead i [] = (At_end, [])"
| "queue_scan check lockmode myHeldLocks rank ahead i (p # ps) =
     (let dep = (if conflictTab (waitLockMode p) AND of_nat lockmode \<noteq> 0 then [w_pid p] else []);
          must = (myHeldLocks \<noteq> 0 \<and> conflictTab (waitLockMode p) AND myHeldLocks \<noteq> 0);
          needWaitBefore = (w_rank p > rank \<or> must)
      in if must \<and> conflictTab lockmode AND heldLocks p \<noteq> 0 then (Early_deadlock, dep)
         else if needWaitBefore then
           (if conflictTab lockmode AND ahead = 0 \<and> \<not> check lockmode then (Grant_now, dep)
            else (Before i, dep))
         else (let (d, deps) = queue_scan check lockmode myHeldLocks rank (ahead OR LOCKBIT_ON (waitLockMode p)) (Suc i) ps
               in (d, dep @ deps)))"

text \<open>
  The waiters that are woken, with the lock granted to them, are those that conflict neither
  with a waiter ahead of them nor with a held lock.
\<close>

fun wakeup_scan :: "lock_table \<Rightarrow> locktag \<Rightarrow> u32 \<Rightarrow> waiter list \<Rightarrow> waiter list \<times> lock_table" where
  "wakeup_scan lt tag ahead [] = ([], lt)"
| "wakeup_scan lt tag ahead (w # ws) =
     (if conflictTab (waitLockMode w) AND ahead = 0 \<and> \<not> LockCheckConflicts (waitLockMode w) lt tag (w_pid w)
      then wakeup_scan (GrantLock tag (waitLockMode w) (w_pid w) lt) tag ahead ws
      else (let (rest, lt') = wakeup_scan lt tag (ahead OR LOCKBIT_ON (waitLockMode w)) ws in (w # rest, lt')))"

definition ProcLockWakeup :: "locktag \<Rightarrow> lock_table \<Rightarrow> lock_table" where
  "ProcLockWakeup tag lt =
     (let (q, lt') = wakeup_scan lt tag 0 (lt_waiters lt tag) in lt'\<lparr>lt_waiters := (lt_waiters lt')(tag := q)\<rparr>)"

definition ProcSleep :: "u32 \<Rightarrow> rat \<Rightarrow> locktag \<Rightarrow> nat \<Rightarrow> lock_table \<Rightarrow> (nr_error + unit) \<times> lock_table" where
  "ProcSleep pid rank tag lockmode lt =
     (let held = holdMask lt tag pid; q = lt_waiters lt tag;
          (d, deps) = queue_scan (\<lambda>m. LockCheckConflicts m lt tag pid) lockmode held rank 0 0 q;
          lt1 = lt\<lparr>nDep := fold (\<lambda>p f. f(p := f p + 1)) deps (nDep lt)\<rparr>;
          me = \<lparr>w_pid = pid, waitLockMode = lockmode, heldLocks = held, w_rank = rank\<rparr>;
          queue = (\<lambda>ws. lt1\<lparr>lt_waiters := (lt_waiters lt1)(tag := ws)\<rparr>)
      in case d of
           Grant_now \<Rightarrow> (Inr (), GrantLock tag lockmode pid lt1)
         | Early_deadlock \<Rightarrow> (Inl (Elog ''deadlock detected''), ProcLockWakeup tag lt1)
         | Before i \<Rightarrow> (Inl Would_block, queue (take i q @ me # drop i q))
         | At_end \<Rightarrow> (Inl Would_block, queue (q @ [me])))"

section \<open>Acquire and release\<close>

text \<open>
  A request that has to wait is \<open>Would_block\<close> with the process in the wait queue. A process
  with a rank above 9.8 never waits.
\<close>

definition LockAcquire ::
  "u32 \<Rightarrow> rat \<Rightarrow> locktag \<Rightarrow> nat \<Rightarrow> bool \<Rightarrow> lock_table \<Rightarrow> (nr_error + LockAcquireResult) \<times> lock_table" where
  "LockAcquire pid rank tag lockmode dontWait lt =
     (if lockmode = 0 \<or> lockmode > 8 then (Inl (Elog ''unrecognized lock mode''), lt)
      else if holds lt tag lockmode pid then (Inr LOCKACQUIRE_ALREADY_HELD, GrantLock tag lockmode pid lt)
      else
        (let found_conflict = (conflictTab lockmode AND waitMask lt tag \<noteq> 0 \<or> LockCheckConflicts lockmode lt tag pid) in
         if \<not> found_conflict then (Inr LOCKACQUIRE_OK, GrantLock tag lockmode pid lt)
         else if dontWait \<or> rank > 98 / 10 then (Inr LOCKACQUIRE_NOT_AVAIL, lt)
         else (case ProcSleep pid rank tag lockmode lt of
             (Inl e, lt') \<Rightarrow> (Inl e, lt')
           | (Inr _, lt') \<Rightarrow> (Inr LOCKACQUIRE_OK, lt'))))"

text \<open>
  Releasing the last of a process's acquisitions of a mode takes the mode from the lock and
  wakes waiters if the mode conflicts with a waiting request. The lock method of advisory
  locks is the user method, of relations and tuples the default one.
\<close>

definition UnGrantLock :: "locktag \<Rightarrow> nat \<Rightarrow> u32 \<Rightarrow> lock_table \<Rightarrow> bool \<times> lock_table" where
  "UnGrantLock tag lockmode pid lt =
     (conflictTab lockmode AND waitMask lt tag \<noteq> 0,
      lt\<lparr>lt_granted := filter (\<lambda>g. g \<noteq> (tag, lockmode, pid)) (lt_granted lt)\<rparr>)"

definition CleanUpLock :: "locktag \<Rightarrow> bool \<Rightarrow> lock_table \<Rightarrow> lock_table" where
  "CleanUpLock tag wakeupNeeded lt = (if wakeupNeeded then ProcLockWakeup tag lt else lt)"

definition LockRelease :: "u32 \<Rightarrow> locktag \<Rightarrow> nat \<Rightarrow> lock_table \<Rightarrow> (nr_error + bool) \<times> lock_table" where
  "LockRelease pid tag lockmode lt =
     (if lockmode = 0 \<or> lockmode > 8 then (Inl (Elog ''unrecognized lock mode''), lt)
      else if \<not> holds lt tag lockmode pid then (Inr False, lt)
      else
        (let lt1 = lt\<lparr>lt_granted := remove1 (tag, lockmode, pid) (lt_granted lt)\<rparr> in
         if holds lt1 tag lockmode pid then (Inr True, lt1)
         else (let (wakeupNeeded, lt2) = UnGrantLock tag lockmode pid lt1 in (Inr True, CleanUpLock tag wakeupNeeded lt2))))"

text \<open>A waiter that gives up (a timeout, a cancelled query, a deadlock) leaves the queue.\<close>

definition RemoveFromWaitQueue :: "u32 \<Rightarrow> locktag \<Rightarrow> lock_table \<Rightarrow> lock_table" where
  "RemoveFromWaitQueue pid tag lt =
     CleanUpLock tag True
       (lt\<lparr>lt_waiters := (lt_waiters lt)(tag := filter (\<lambda>w. w_pid w \<noteq> pid) (lt_waiters lt tag))\<rparr>)"

fun is_user_lock :: "locktag \<Rightarrow> bool" where
  "is_user_lock (Tag_advisory _ _ _ _) = True"
| "is_user_lock _ = False"

fun ungrant_modes :: "locktag \<Rightarrow> u32 \<Rightarrow> nat list \<Rightarrow> bool \<times> lock_table \<Rightarrow> bool \<times> lock_table" where
  "ungrant_modes tag pid [] s = s"
| "ungrant_modes tag pid (i # is) (wakeupNeeded, lt) =
     (if holds lt tag i pid
      then (let (w, lt') = UnGrantLock tag i pid lt in ungrant_modes tag pid is (wakeupNeeded \<or> w, lt'))
      else ungrant_modes tag pid is (wakeupNeeded, lt))"

definition release_tag :: "u32 \<Rightarrow> locktag \<Rightarrow> lock_table \<Rightarrow> lock_table" where
  "release_tag pid tag lt =
     (let (wakeupNeeded, lt') = ungrant_modes tag pid [1..<9] (False, lt) in CleanUpLock tag wakeupNeeded lt')"

definition LockReleaseAll :: "bool \<Rightarrow> u32 \<Rightarrow> lock_table \<Rightarrow> lock_table" where
  "LockReleaseAll user pid lt =
     fold (release_tag pid)
       (remdups (map fst (filter (\<lambda>(tag, _, p). p = pid \<and> is_user_lock tag = user) (lt_granted lt)))) lt"

text \<open>
  The end of a transaction: a process that still waits for the lock \<open>awaited\<close> leaves its queue,
  then all its locks are released.
\<close>

definition LockErrorCleanup :: "u32 \<Rightarrow> locktag option \<Rightarrow> lock_table \<Rightarrow> lock_table" where
  "LockErrorCleanup pid awaited lt =
     (case awaited of
        None \<Rightarrow> lt
      | Some tag \<Rightarrow> if pid \<in> w_pid ` set (lt_waiters lt tag) then RemoveFromWaitQueue pid tag lt else lt)"

definition ProcReleaseLocks :: "u32 \<Rightarrow> locktag option \<Rightarrow> lock_table \<Rightarrow> lock_table" where
  "ProcReleaseLocks pid awaited lt = LockReleaseAll True pid (LockReleaseAll False pid (LockErrorCleanup pid awaited lt))"

text \<open>
  \<^verbatim>\<open>LockRelation\<close> marks the local lock entry it got, which is a null pointer if the lock was
  not available. \<^verbatim>\<open>LockTuple\<close> ignores the result.
\<close>

definition LockRelation ::
  "u32 \<Rightarrow> rat \<Rightarrow> u32 \<Rightarrow> u32 \<Rightarrow> nat \<Rightarrow> lock_table \<Rightarrow> (nr_error + unit) \<times> lock_table" where
  "LockRelation pid rank dbId relId lockmode lt =
     (case LockAcquire pid rank (Tag_relation dbId relId) lockmode False lt of
        (Inl e, lt') \<Rightarrow> (Inl e, lt')
      | (Inr LOCKACQUIRE_NOT_AVAIL, lt') \<Rightarrow> (Inl Bad_memory, lt')
      | (Inr _, lt') \<Rightarrow> (Inr (), lt'))"

definition LockTuple ::
  "u32 \<Rightarrow> rat \<Rightarrow> u32 \<Rightarrow> u32 \<Rightarrow> ItemPointerData \<Rightarrow> nat \<Rightarrow> lock_table \<Rightarrow> (nr_error + unit) \<times> lock_table" where
  "LockTuple pid rank dbId relId ip lockmode lt =
     (case LockAcquire pid rank (Tag_tuple dbId relId (BlockIdGetBlockNumber ip) (ip_posid ip)) lockmode False lt of
        (Inl e, lt') \<Rightarrow> (Inl e, lt')
      | (Inr _, lt') \<Rightarrow> (Inr (), lt'))"

section \<open>Masks\<close>

lemma bit_LOCKBIT [simp]: "bit (LOCKBIT_ON m) n \<longleftrightarrow> n = m \<and> m < 32"
  by (auto simp: LOCKBIT_ON_def bit_exp_iff)

lemma bit_mode_mask: "bit (mode_mask ms) n \<longleftrightarrow> n \<in> set ms \<and> n < 32"
  by (induction ms) (auto simp: mode_mask_def bit_or_iff)

lemma and_LOCKBIT: "m < 32 \<Longrightarrow> a AND LOCKBIT_ON m \<noteq> 0 \<longleftrightarrow> bit a m"
  by (auto simp: bit_eq_iff [of "a AND LOCKBIT_ON m" 0] bit_and_iff)

lemma and_mode_mask:
  assumes "\<forall>m \<in> set ms. m < 32"
  shows "a AND mode_mask ms \<noteq> 0 \<longleftrightarrow> (\<exists>m \<in> set ms. a AND LOCKBIT_ON m \<noteq> 0)"
proof -
  have "a AND mode_mask ms \<noteq> 0 \<longleftrightarrow> (\<exists>n. bit a n \<and> n \<in> set ms \<and> n < 32)"
    by (auto simp: bit_eq_iff [of "a AND mode_mask ms" 0] bit_and_iff bit_mode_mask)
  also have "\<dots> \<longleftrightarrow> (\<exists>m \<in> set ms. a AND LOCKBIT_ON m \<noteq> 0)"
    using assms by (auto simp: and_LOCKBIT)
  finally show ?thesis .
qed

lemma holders_iff: "p \<in> set (holders lt tag m) \<longleftrightarrow> holds lt tag m p"
  by (force simp: holders_def holds_def)

lemma distinct_holders: "distinct (holders lt tag m)"
  by (simp add: holders_def)

lemma holdMask_iff: "1 \<le> m \<Longrightarrow> m \<le> 8 \<Longrightarrow> holdMask lt tag pid AND LOCKBIT_ON m \<noteq> 0 \<longleftrightarrow> holds lt tag m pid"
  by (simp add: and_LOCKBIT holdMask_def bit_mode_mask less_Suc_eq_le)

text \<open>
  The reference: a request conflicts if another process holds a conflicting mode. The counting
  of \<^verbatim>\<open>LockCheckConflicts\<close> decides exactly that.
\<close>

definition conflicts_with_other :: "nat \<Rightarrow> lock_table \<Rightarrow> locktag \<Rightarrow> u32 \<Rightarrow> bool" where
  "conflicts_with_other lockmode lt tag pid =
     (\<exists>m p. 1 \<le> m \<and> m \<le> 8 \<and> p \<noteq> pid \<and> holds lt tag m p \<and> conflicting lockmode m)"

lemma other_holder_iff:
  "length (holders lt tag m) - (if holds lt tag m pid then 1 else 0) \<noteq> 0 \<longleftrightarrow> (\<exists>p. p \<noteq> pid \<and> holds lt tag m p)"
proof -
  let ?h = "holders lt tag m"
  have "length ?h - (if holds lt tag m pid then 1 else 0) = card (set ?h - {pid})"
    using distinct_card [OF distinct_holders, of lt tag m] by (simp add: card_Diff_singleton_if holders_iff)
  moreover have "card (set ?h - {pid}) \<noteq> 0 \<longleftrightarrow> (\<exists>p. p \<noteq> pid \<and> holds lt tag m p)"
    by (auto simp: holders_iff)
  ultimately show ?thesis by simp
qed

lemma sum_list_map_nonzero: "sum_list (map f xs) \<noteq> (0 :: nat) \<longleftrightarrow> (\<exists>x \<in> set xs. f x \<noteq> 0)"
  by (induction xs) auto

lemma LockCheckConflicts_iff: "LockCheckConflicts lockmode lt tag pid \<longleftrightarrow> conflicts_with_other lockmode lt tag pid"
proof -
  have grant: "conflictTab lockmode AND grantMask lt tag \<noteq> 0 \<longleftrightarrow>
      (\<exists>m. 1 \<le> m \<and> m \<le> 8 \<and> holders lt tag m \<noteq> [] \<and> conflicting lockmode m)"
    unfolding grantMask_def conflicting_def by (subst and_mode_mask) auto
  have held: "holders lt tag m \<noteq> []" if "holds lt tag m p" for m p
    using that holders_iff [of p lt tag m] by auto
  have "(\<exists>m \<in> set [1..<9]. (if conflictTab lockmode AND LOCKBIT_ON m = 0 then 0
      else length (holders lt tag m) - (if holdMask lt tag pid AND LOCKBIT_ON m \<noteq> 0 then 1 else 0)) \<noteq> 0) \<longleftrightarrow>
      conflicts_with_other lockmode lt tag pid"
  proof -
    have "(if conflictTab lockmode AND LOCKBIT_ON m = 0 then 0
        else length (holders lt tag m) - (if holdMask lt tag pid AND LOCKBIT_ON m \<noteq> 0 then 1 else 0)) \<noteq> 0 \<longleftrightarrow>
        conflicting lockmode m \<and> (\<exists>p. p \<noteq> pid \<and> holds lt tag m p)" if "1 \<le> m" "m \<le> 8" for m
      using other_holder_iff [of lt tag m pid] holdMask_iff [OF that, of lt tag pid] by (auto simp: conflicting_def)
    then show ?thesis by (auto simp: conflicts_with_other_def less_Suc_eq_le)
  qed
  moreover have "conflicts_with_other lockmode lt tag pid \<Longrightarrow> conflictTab lockmode AND grantMask lt tag \<noteq> 0"
    unfolding grant conflicts_with_other_def using held by blast
  ultimately show ?thesis
    unfolding LockCheckConflicts_def Let_def sum_list_map_nonzero by auto
qed

lemma conflicting_table:
  assumes "b \<le> 8"
  shows "\<not> conflicting 0 b" "conflicting 1 b \<longleftrightarrow> b = 8" "conflicting 2 b \<longleftrightarrow> b \<in> {7, 8}"
    "conflicting 3 b \<longleftrightarrow> b \<in> {5, 6, 7, 8}" "conflicting 4 b \<longleftrightarrow> b \<in> {4, 5, 6, 7, 8}"
    "conflicting 5 b \<longleftrightarrow> b \<in> {3, 4, 6, 7, 8}" "conflicting 6 b \<longleftrightarrow> b \<in> {3, 4, 5, 6, 7, 8}"
    "conflicting 7 b \<longleftrightarrow> b \<in> {2, 3, 4, 5, 6, 7, 8}" "conflicting 8 b \<longleftrightarrow> b \<in> {1, 2, 3, 4, 5, 6, 7, 8}"
  using assms
  by (simp_all add: conflicting_def and_LOCKBIT conflictTab_def LockConflicts_def bit_mode_mask mode_defs)

lemma mode_cases:
  assumes "m \<le> (8 :: nat)"
  obtains "m = 0" | "m = 1" | "m = 2" | "m = 3" | "m = 4" | "m = 5" | "m = 6" | "m = 7" | "m = 8"
  using assms by linarith

text \<open>The table as rows of mode numbers; it is symmetric.\<close>

definition conflict_rows :: "nat list list" where
  "conflict_rows = [[], [8], [7, 8], [5, 6, 7, 8], [4, 5, 6, 7, 8], [3, 4, 6, 7, 8], [3, 4, 5, 6, 7, 8],
     [2, 3, 4, 5, 6, 7, 8], [1, 2, 3, 4, 5, 6, 7, 8]]"

lemma conflicting_rows: "a \<le> 8 \<Longrightarrow> b \<le> 8 \<Longrightarrow> conflicting a b \<longleftrightarrow> b \<in> set (conflict_rows ! a)"
  by (cases a rule: mode_cases) (simp_all add: conflict_rows_def conflicting_table conflicting_table(2) [unfolded One_nat_def])

lemma conflict_rows_sym:
  "\<forall>a \<in> set [0..<9]. \<forall>b \<in> set [0..<9]. (b \<in> set (conflict_rows ! a)) = (a \<in> set (conflict_rows ! b))"
  by code_simp

lemma conflicting_sym:
  assumes "a \<le> 8" "b \<le> 8"
  shows "conflicting a b \<longleftrightarrow> conflicting b a"
proof -
  have "a \<in> set [0..<9]" "b \<in> set [0..<9]" using assms by auto
  then show ?thesis using conflict_rows_sym assms by (simp only: conflicting_rows)
qed

section \<open>Mutual exclusion\<close>

text \<open>No two processes hold conflicting modes of one lock.\<close>

definition lock_ok :: "lock_table \<Rightarrow> bool" where
  "lock_ok lt \<longleftrightarrow>
     (\<forall>t m p. holds lt t m p \<longrightarrow> 1 \<le> m \<and> m \<le> 8) \<and>
     (\<forall>t. \<forall>w \<in> set (lt_waiters lt t). 1 \<le> waitLockMode w \<and> waitLockMode w \<le> 8) \<and>
     (\<forall>t m p n q. holds lt t m p \<longrightarrow> holds lt t n q \<longrightarrow> p \<noteq> q \<longrightarrow> \<not> conflicting m n)"

lemma holds_GrantLock [simp]: "holds (GrantLock tag m pid lt) t n q \<longleftrightarrow> (t = tag \<and> n = m \<and> q = pid) \<or> holds lt t n q"
  by (auto simp: holds_def GrantLock_def)

lemma waiters_GrantLock [simp]: "lt_waiters (GrantLock tag m pid lt) = lt_waiters lt"
  by (simp add: GrantLock_def)

lemma holds_waiters [simp]: "holds (lt\<lparr>lt_waiters := q\<rparr>) t m p = holds lt t m p"
  by (simp add: holds_def)

lemma holds_nDep [simp]: "holds (lt\<lparr>nDep := f\<rparr>) t m p = holds lt t m p"
  by (simp add: holds_def)

lemma GrantLock_ok:
  assumes ok: "lock_ok lt" and m: "1 \<le> m" "m \<le> 8" and free: "\<not> conflicts_with_other m lt tag pid"
  shows "lock_ok (GrantLock tag m pid lt)"
proof -
  have "\<not> conflicting m n \<and> \<not> conflicting n m" if "holds lt tag n q" "q \<noteq> pid" for n q
  proof -
    have "1 \<le> n" "n \<le> 8" using ok that by (auto simp: lock_ok_def)
    with free that m show ?thesis by (auto simp: conflicts_with_other_def conflicting_sym)
  qed
  with ok m show ?thesis unfolding lock_ok_def by auto
qed

lemma regrant_ok: "lock_ok lt \<Longrightarrow> holds lt tag m pid \<Longrightarrow> lock_ok (GrantLock tag m pid lt)"
  unfolding lock_ok_def by auto

lemma queue_scan_free: "queue_scan check lockmode held rank ahead i ps = (Grant_now, ps') \<Longrightarrow> \<not> check lockmode"
  by (induction ps arbitrary: ahead i ps') (auto simp: Let_def split: if_splits prod.splits)

lemma waiters_update_ok:
  assumes "lock_ok lt" "\<forall>w \<in> set q. 1 \<le> waitLockMode w \<and> waitLockMode w \<le> 8"
  shows "lock_ok (lt\<lparr>lt_waiters := (lt_waiters lt)(tag := q)\<rparr>)"
    and "lock_ok (lt\<lparr>nDep := f, lt_waiters := (lt_waiters lt)(tag := q)\<rparr>)"
  using assms by (auto simp: lock_ok_def)

lemma lock_ok_nDep [simp]: "lock_ok (lt\<lparr>nDep := f\<rparr>) = lock_ok lt"
  by (simp add: lock_ok_def)

lemma conflicts_with_other_waiters [simp]:
  "conflicts_with_other m (lt\<lparr>lt_waiters := q\<rparr>) tag pid = conflicts_with_other m lt tag pid"
  by (simp add: conflicts_with_other_def)

lemma conflicts_with_other_nDep [simp]: "conflicts_with_other m (lt\<lparr>nDep := f\<rparr>) tag pid = conflicts_with_other m lt tag pid"
  by (simp add: conflicts_with_other_def)

lemma wakeup_scan_ok:
  "lock_ok lt \<Longrightarrow> \<forall>w \<in> set ws. 1 \<le> waitLockMode w \<and> waitLockMode w \<le> 8 \<Longrightarrow> wakeup_scan lt tag ahead ws = (q, lt') \<Longrightarrow>
     lock_ok lt' \<and> set q \<subseteq> set ws"
proof (induction lt tag ahead ws arbitrary: q rule: wakeup_scan.induct)
  case (2 lt tag ahead w ws)
  show ?case
  proof (cases "conflictTab (waitLockMode w) AND ahead = 0 \<and> \<not> LockCheckConflicts (waitLockMode w) lt tag (w_pid w)")
    case True
    then have "lock_ok (GrantLock tag (waitLockMode w) (w_pid w) lt)"
      using 2 by (intro GrantLock_ok) (auto simp: LockCheckConflicts_iff)
    with "2.IH"(1) [OF True] "2.prems" True show ?thesis by auto
  next
    case False
    with "2.IH"(2) [OF False] "2.prems" show ?thesis by (auto split: prod.splits)
  qed
qed simp

lemma ProcLockWakeup_ok:
  assumes ok: "lock_ok lt"
  shows "lock_ok (ProcLockWakeup tag lt)"
proof -
  obtain q lt2 where scan: "wakeup_scan lt tag 0 (lt_waiters lt tag) = (q, lt2)" by force
  have w: "\<forall>w \<in> set (lt_waiters lt tag). 1 \<le> waitLockMode w \<and> waitLockMode w \<le> 8"
    using ok by (auto simp: lock_ok_def)
  from wakeup_scan_ok [OF ok w scan] w scan show ?thesis
    by (auto simp: ProcLockWakeup_def intro!: waiters_update_ok)
qed

lemma CleanUpLock_ok: "lock_ok lt \<Longrightarrow> lock_ok (CleanUpLock tag b lt)"
  by (simp add: CleanUpLock_def ProcLockWakeup_ok)

lemma ProcSleep_ok:
  assumes ok: "lock_ok lt" and m: "1 \<le> m" "m \<le> 8" and r: "ProcSleep pid rank tag m lt = (r, lt')"
  shows "lock_ok lt'"
proof -
  let ?q = "lt_waiters lt tag"
  obtain d deps where scan: "queue_scan (\<lambda>m. LockCheckConflicts m lt tag pid) m (holdMask lt tag pid) rank 0 0 ?q = (d, deps)"
    by force
  have ws: "\<forall>w \<in> set ?q. 1 \<le> waitLockMode w \<and> waitLockMode w \<le> 8"
    using ok by (simp add: lock_ok_def)
  have sub: "set (take i ?q) \<subseteq> set ?q" "set (drop i ?q) \<subseteq> set ?q" for i
    by (rule set_take_subset) (rule set_drop_subset)
  show ?thesis
  proof (cases d)
    case Grant_now
    then have "\<not> conflicts_with_other m lt tag pid"
      using queue_scan_free scan LockCheckConflicts_iff by blast
    with Grant_now r scan show ?thesis
      by (auto simp: ProcSleep_def intro!: GrantLock_ok ok m)
  next
    case (Before i)
    have "\<forall>w \<in> set (take i ?q @ \<lparr>w_pid = pid, waitLockMode = m, heldLocks = holdMask lt tag pid, w_rank = rank\<rparr> # drop i ?q).
        1 \<le> waitLockMode w \<and> waitLockMode w \<le> 8"
      using ws sub [of i] m by auto
    with Before r scan show ?thesis
      by (auto simp: ProcSleep_def Let_def ok intro!: waiters_update_ok)
  qed (use r scan m ws in \<open>auto simp: ProcSleep_def Let_def ok intro!: waiters_update_ok ProcLockWakeup_ok\<close>)
qed

lemma LockAcquire_cases:
  assumes "LockAcquire pid rank tag m dontWait lt = (r, lt')"
  obtains (unchanged) "lt' = lt" | (again) "holds lt tag m pid" "lt' = GrantLock tag m pid lt"
    | (granted) "1 \<le> m" "m \<le> 8" "\<not> conflicts_with_other m lt tag pid" "lt' = GrantLock tag m pid lt"
    | (slept) s where "1 \<le> m" "m \<le> 8" "ProcSleep pid rank tag m lt = (s, lt')"
proof -
  let ?conf = "conflictTab m AND waitMask lt tag \<noteq> 0 \<or> LockCheckConflicts m lt tag pid"
  show thesis
  proof (cases "m = 0 \<or> m > 8")
    case True
    with assms show ?thesis by (intro unchanged) (simp add: LockAcquire_def)
  next
    case mode: False
    then have m: "1 \<le> m" "m \<le> 8" by auto
    consider "holds lt tag m pid" | "\<not> holds lt tag m pid" "\<not> ?conf"
      | "\<not> holds lt tag m pid" ?conf "dontWait \<or> rank > 98 / 10" | "\<not> holds lt tag m pid" ?conf "\<not> (dontWait \<or> rank > 98 / 10)"
      by blast
    then show ?thesis
    proof cases
      case 1
      with mode assms show ?thesis by (intro again) (simp_all add: LockAcquire_def)
    next
      case 2
      with mode m assms show ?thesis by (intro granted) (simp_all add: LockAcquire_def LockCheckConflicts_iff)
    next
      case 3
      then have "LockAcquire pid rank tag m dontWait lt = (Inr LOCKACQUIRE_NOT_AVAIL, lt)"
        using mode unfolding LockAcquire_def Let_def by simp
      with assms show ?thesis by (intro unchanged) simp
    next
      case 4
      obtain s lt1 where s: "ProcSleep pid rank tag m lt = (s, lt1)" by force
      have "LockAcquire pid rank tag m dontWait lt =
          (case ProcSleep pid rank tag m lt of (Inl e, lt') \<Rightarrow> (Inl e, lt') | (Inr _, lt') \<Rightarrow> (Inr LOCKACQUIRE_OK, lt'))"
        using 4 mode unfolding LockAcquire_def Let_def by simp
      with s assms have "lt1 = lt'" by (cases s) auto
      with s m show ?thesis by (intro slept) auto
    qed
  qed
qed

lemma LockAcquire_ok: "lock_ok lt \<Longrightarrow> LockAcquire pid rank tag m dontWait lt = (r, lt') \<Longrightarrow> lock_ok lt'"
  by (erule LockAcquire_cases) (auto intro: regrant_ok GrantLock_ok ProcSleep_ok)

lemma lock_ok_fewer:
  assumes "lock_ok lt" "\<And>t n q. holds lt1 t n q \<Longrightarrow> holds lt t n q" "lt_waiters lt1 = lt_waiters lt"
  shows "lock_ok lt1"
  using assms(1) unfolding lock_ok_def assms(3) by (meson assms(2))

lemma UnGrantLock_ok: "lock_ok lt \<Longrightarrow> UnGrantLock tag m pid lt = (w, lt') \<Longrightarrow> lock_ok lt'"
  by (rule lock_ok_fewer [of lt]) (auto simp: UnGrantLock_def holds_def)

lemma LockRelease_ok:
  assumes ok: "lock_ok lt" and r: "LockRelease pid tag m lt = (r, lt')"
  shows "lock_ok lt'"
proof -
  let ?lt1 = "lt\<lparr>lt_granted := remove1 (tag, m, pid) (lt_granted lt)\<rparr>"
  have sub: "holds ?lt1 t n q \<Longrightarrow> holds lt t n q" for t n q
    using set_remove1_subset [of "(tag, m, pid)" "lt_granted lt"] by (auto simp: holds_def)
  have ok1: "lock_ok ?lt1"
    by (rule lock_ok_fewer [OF ok]) (use sub in \<open>auto\<close>)
  obtain w lt2 where un: "UnGrantLock tag m pid ?lt1 = (w, lt2)" by force
  from UnGrantLock_ok [OF ok1 un] have "lock_ok (CleanUpLock tag w lt2)" by (rule CleanUpLock_ok)
  with ok ok1 un r show ?thesis
    by (auto simp: LockRelease_def Let_def split: if_splits)
qed

lemma RemoveFromWaitQueue_ok: "lock_ok lt \<Longrightarrow> lock_ok (RemoveFromWaitQueue pid tag lt)"
  unfolding RemoveFromWaitQueue_def by (intro CleanUpLock_ok waiters_update_ok) (auto simp: lock_ok_def)

lemma ungrant_modes_ok: "lock_ok lt \<Longrightarrow> ungrant_modes tag pid ms (w, lt) = (w', lt') \<Longrightarrow> lock_ok lt'"
  by (induction ms arbitrary: w lt) (auto split: if_splits prod.splits dest: UnGrantLock_ok)

lemma release_tag_ok: "lock_ok lt \<Longrightarrow> lock_ok (release_tag pid tag lt)"
  by (auto simp: release_tag_def split: prod.splits intro: CleanUpLock_ok dest: ungrant_modes_ok)

lemma LockReleaseAll_ok: "lock_ok lt \<Longrightarrow> lock_ok (LockReleaseAll user pid lt)"
proof -
  have "lock_ok lt \<Longrightarrow> lock_ok (fold (release_tag pid) tags lt)" for tags
    by (induction tags arbitrary: lt) (auto intro: release_tag_ok)
  then show "lock_ok lt \<Longrightarrow> lock_ok (LockReleaseAll user pid lt)" by (simp add: LockReleaseAll_def)
qed

section \<open>Reachable lock tables\<close>

text \<open>
  Any interleaving of the calls of any processes, of any ranks, from the empty table. A
  request that has to wait is a step that queues it.
\<close>

definition no_locks :: lock_table where
  "no_locks = \<lparr>lt_granted = [], lt_waiters = (\<lambda>_. []), nDep = (\<lambda>_. 0)\<rparr>"

inductive lock_reachable :: "lock_table \<Rightarrow> bool" where
  start: "lock_reachable no_locks"
| acquire: "lock_reachable lt'" if "lock_reachable lt" and "LockAcquire pid rank tag m dontWait lt = (r, lt')"
| release: "lock_reachable lt'" if "lock_reachable lt" and "LockRelease pid tag m lt = (b, lt')"
| give_up: "lock_reachable (RemoveFromWaitQueue pid tag lt)" if "lock_reachable lt"
| release_all: "lock_reachable (LockReleaseAll user pid lt)" if "lock_reachable lt"

lemma lock_reachable_ok: "lock_reachable lt \<Longrightarrow> lock_ok lt"
proof (induction rule: lock_reachable.induct)
  case start
  show ?case by (simp add: lock_ok_def no_locks_def holds_def)
qed (auto intro: LockAcquire_ok LockRelease_ok RemoveFromWaitQueue_ok LockReleaseAll_ok)

lemmas lock_eval = LockAcquire_def GrantLock_def LockCheckConflicts_iff conflicts_with_other_def holds_def no_locks_def
  waitMask_def mode_mask_def


lemma lock_share_run:
  "LockAcquire 2 0 (Tag_relation 1 1) 1 False (snd (LockAcquire 1 0 (Tag_relation 1 1) 3 False no_locks)) =
     (Inr LOCKACQUIRE_OK, \<lparr>lt_granted = [(Tag_relation 1 1, 1, 2), (Tag_relation 1 1, 3, 1)], lt_waiters = (\<lambda>_. []), nDep = (\<lambda>_. 0)\<rparr>)"
  by (auto simp: lock_eval conflicting_table conflicting_table(2) [unfolded One_nat_def])



section \<open>Releasing all locks\<close>

lemma wakeup_scan_holds:
  "wakeup_scan lt tag ahead ws = (q, lt') \<Longrightarrow>
     lt_waiters lt' = lt_waiters lt \<and>
     (\<forall>t m p. holds lt t m p \<longrightarrow> holds lt' t m p) \<and>
     (\<forall>t m p. holds lt' t m p \<longrightarrow> holds lt t m p \<or> t = tag \<and> p \<in> w_pid ` set ws)"
proof (induction lt tag ahead ws arbitrary: q rule: wakeup_scan.induct)
  case (2 lt tag ahead w ws)
  show ?case
  proof (cases "conflictTab (waitLockMode w) AND ahead = 0 \<and> \<not> LockCheckConflicts (waitLockMode w) lt tag (w_pid w)")
    case True
    then have "wakeup_scan (GrantLock tag (waitLockMode w) (w_pid w) lt) tag ahead ws = (q, lt')"
      using "2.prems" by simp
    from "2.IH"(1) [OF True this] show ?thesis by (simp add: image_iff) blast
  next
    case False
    then obtain q' where "wakeup_scan lt tag (ahead OR LOCKBIT_ON (waitLockMode w)) ws = (q', lt')"
      using "2.prems" by (auto split: prod.splits)
    from "2.IH"(2) [OF False this] show ?thesis by (simp add: image_iff) blast
  qed
qed simp

lemma CleanUpLock_holds:
  shows holds_CleanUpLock: "holds lt t m p \<Longrightarrow> holds (CleanUpLock tag w lt) t m p"
    and CleanUpLock_holdsD:
      "holds (CleanUpLock tag w lt) t m p \<Longrightarrow> \<forall>v \<in> set (lt_waiters lt tag). w_pid v \<noteq> p \<Longrightarrow> holds lt t m p"
proof -
  obtain q lt' where scan: "wakeup_scan lt tag 0 (lt_waiters lt tag) = (q, lt')" by force
  note same = wakeup_scan_holds [OF scan]
  have eq: "holds (CleanUpLock tag w lt) t m p = holds (if w then lt' else lt) t m p"
    using scan by (simp add: CleanUpLock_def ProcLockWakeup_def)
  show "holds lt t m p \<Longrightarrow> holds (CleanUpLock tag w lt) t m p"
    unfolding eq using same by simp
  show "holds (CleanUpLock tag w lt) t m p \<Longrightarrow> \<forall>v \<in> set (lt_waiters lt tag). w_pid v \<noteq> p \<Longrightarrow> holds lt t m p"
    unfolding eq using same by (cases w) (simp_all add: image_iff, blast)
qed

lemma wakeup_scan_subset: "wakeup_scan lt tag ahead ws = (q, lt') \<Longrightarrow> set q \<subseteq> set ws"
  by (induction lt tag ahead ws arbitrary: q rule: wakeup_scan.induct) (auto split: if_splits prod.splits)

lemma waiting_CleanUpLock: "set (lt_waiters (CleanUpLock tag b lt) t) \<subseteq> set (lt_waiters lt t)"
proof -
  obtain q lt' where scan: "wakeup_scan lt tag 0 (lt_waiters lt tag) = (q, lt')" by force
  then show ?thesis
    using wakeup_scan_subset [OF scan] wakeup_scan_holds [OF scan, THEN conjunct1]
    by (simp add: CleanUpLock_def ProcLockWakeup_def)
qed

lemma ungrant_modes_holds:
  "ungrant_modes tag pid ms (w, lt) = (w', lt') \<Longrightarrow>
     lt_waiters lt' = lt_waiters lt \<and>
     (\<forall>t m p. holds lt' t m p \<longleftrightarrow> holds lt t m p \<and> \<not> (t = tag \<and> p = pid \<and> m \<in> set ms))"
proof (induction ms arbitrary: w lt)
  case (Cons i ms)
  show ?case
  proof (cases "holds lt tag i pid")
    case True
    let ?lt1 = "lt\<lparr>lt_granted := filter (\<lambda>g. g \<noteq> (tag, i, pid)) (lt_granted lt)\<rparr>"
    have one: "holds ?lt1 t m p \<longleftrightarrow> holds lt t m p \<and> (t, m, p) \<noteq> (tag, i, pid)" for t m p
      by (simp add: holds_def)
    from True Cons.prems obtain w1 where "ungrant_modes tag pid ms (w1, ?lt1) = (w', lt')"
      by (auto simp: UnGrantLock_def)
    from Cons.IH [OF this] one show ?thesis by auto
  next
    case False
    with Cons.IH [of w lt] Cons.prems show ?thesis by auto
  qed
qed auto

definition not_waiting :: "u32 \<Rightarrow> lock_table \<Rightarrow> bool" where
  "not_waiting pid lt \<longleftrightarrow> (\<forall>t. \<forall>w \<in> set (lt_waiters lt t). w_pid w \<noteq> pid)"

lemma release_tag_holds:
  assumes idle: "not_waiting pid lt"
  shows "not_waiting pid (release_tag pid tag lt)"
    and "holds (release_tag pid tag lt) t m pid \<Longrightarrow> holds lt t m pid \<and> \<not> (t = tag \<and> 1 \<le> m \<and> m \<le> 8)"
    and "holds lt t m p \<Longrightarrow> p \<noteq> pid \<or> t \<noteq> tag \<Longrightarrow> holds (release_tag pid tag lt) t m p"
proof -
  obtain w lt' where un: "ungrant_modes tag pid [1..<9] (False, lt) = (w, lt')" by force
  note same = ungrant_modes_holds [OF un]
  have eq: "release_tag pid tag lt = CleanUpLock tag w lt'" unfolding release_tag_def un by simp
  have idle': "not_waiting pid lt'" using idle same by (simp add: not_waiting_def)
  then show "not_waiting pid (release_tag pid tag lt)"
    unfolding eq not_waiting_def using waiting_CleanUpLock by blast
  show "holds (release_tag pid tag lt) t m pid \<Longrightarrow> holds lt t m pid \<and> \<not> (t = tag \<and> 1 \<le> m \<and> m \<le> 8)"
    unfolding eq using same CleanUpLock_holdsD [of tag w lt' t m pid] idle' by (auto simp: not_waiting_def)
  show "holds lt t m p \<Longrightarrow> p \<noteq> pid \<or> t \<noteq> tag \<Longrightarrow> holds (release_tag pid tag lt) t m p"
    unfolding eq using same holds_CleanUpLock [of lt' t m p tag w] by auto
qed

lemma release_tags_holds:
  assumes "not_waiting pid lt"
  shows "holds (fold (release_tag pid) tags lt) t m pid \<Longrightarrow> holds lt t m pid \<and> (1 \<le> m \<and> m \<le> 8 \<longrightarrow> t \<notin> set tags)"
    and "holds lt t m p \<Longrightarrow> p \<noteq> pid \<or> t \<notin> set tags \<Longrightarrow> holds (fold (release_tag pid) tags lt) t m p"
  using assms
proof (induction tags arbitrary: lt)
  case (Cons tag tags)
  {
    case 1
    then have "holds (fold (release_tag pid) tags (release_tag pid tag lt)) t m pid" by simp
    from Cons.IH(1) [OF this release_tag_holds(1) [OF 1(2)]] release_tag_holds(2) [OF 1(2), of tag t m] show ?case by auto
  next
    case 2
    then have "holds (release_tag pid tag lt) t m p" by (auto intro: release_tag_holds(3))
    from Cons.IH(2) [OF this _ release_tag_holds(1) [OF 2(3)]] 2(2) show ?case by auto
  }
qed auto



section \<open>Priorities\<close>

text \<open>
  C38: a process whose rank is above 9.8 never waits: if another process holds a conflicting
  mode, \<^verbatim>\<open>LockTuple\<close> returns without an error and without the lock, and \<^verbatim>\<open>LockRelation\<close>
  dereferences the null pointer it got in place of its local lock entry.
\<close>

theorem high_rank_skips_lock:
  assumes "rank > 98 / 10" "1 \<le> m" "m \<le> 8"
    and "conflicts_with_other m lt (Tag_tuple db rel (BlockIdGetBlockNumber ip) (ip_posid ip)) pid"
    and "\<not> holds lt (Tag_tuple db rel (BlockIdGetBlockNumber ip) (ip_posid ip)) m pid"
    and "conflicts_with_other n lt (Tag_relation db rel) pid" "\<not> holds lt (Tag_relation db rel) n pid" "1 \<le> n" "n \<le> 8"
  shows "LockTuple pid rank db rel ip m lt = (Inr (), lt) \<and> LockRelation pid rank db rel n lt = (Inl Bad_memory, lt)"
  using assms by (simp add: LockTuple_def LockRelation_def LockAcquire_def LockCheckConflicts_iff)

theorem high_rank_skips_lock_witness:
  "\<exists>lt. holds lt (Tag_tuple 1 2 65539 4) 7 9 \<and> \<not> holds lt (Tag_tuple 1 2 65539 4) 7 5 \<and>
     LockTuple 5 10 1 2 \<lparr>bi_hi = 1, bi_lo = 3, ip_posid = 4\<rparr> 7 lt = (Inr (), lt)"
proof -
  let ?lt = "\<lparr>lt_granted = [(Tag_tuple 1 2 65539 4, 7, 9), (Tag_relation 1 2, 8, 9)], lt_waiters = (\<lambda>_. []), nDep = (\<lambda>_. 0)\<rparr> :: lock_table"
  let ?ip = "\<lparr>bi_hi = 1, bi_lo = 3, ip_posid = 4\<rparr>"
  have ip: "BlockIdGetBlockNumber ?ip = 65539" by (simp add: BlockIdGetBlockNumber_def)
  have "conflicts_with_other 7 ?lt (Tag_tuple 1 2 65539 4) 5"
    unfolding conflicts_with_other_def by (intro exI [of _ 7] exI [of _ 9]) (simp add: holds_def conflicting_table)
  moreover have "conflicts_with_other 3 ?lt (Tag_relation 1 2) 5"
    unfolding conflicts_with_other_def by (intro exI [of _ 8] exI [of _ 9]) (simp add: holds_def conflicting_table)
  ultimately have "LockTuple 5 10 1 2 ?ip 7 ?lt = (Inr (), ?lt)"
    using high_rank_skips_lock [of 10 7 ?lt 1 2 ?ip 5 3] by (simp add: ip holds_def)
  then show ?thesis by (intro exI [of _ ?lt]) (simp add: holds_def)
qed

text \<open>A process that holds no mode of the lock is queued by its rank alone.\<close>

lemma queue_scan_rank:
  "queue_scan check m 0 rank ahead i ps = (d, ws) \<Longrightarrow>
     d = At_end \<and> (\<forall>p \<in> set ps. w_rank p \<le> rank) \<or> d = Grant_now \<or>
     d = Before (i + length (takeWhile (\<lambda>p. w_rank p \<le> rank) ps))"
proof (induction ps arbitrary: ahead i ws)
  case (Cons p ps)
  show ?case
  proof (cases "w_rank p \<le> rank")
    case True
    with Cons.prems obtain ws' where "queue_scan check m 0 rank (ahead OR LOCKBIT_ON (waitLockMode p)) (Suc i) ps = (d, ws')"
      by (auto simp: Let_def not_less split: prod.splits)
    from Cons.IH [OF this] True show ?thesis by simp
  qed (use Cons.prems in \<open>auto simp: Let_def split: if_splits\<close>)
qed simp

lemma take_drop_While: "take (length (takeWhile P xs)) xs = takeWhile P xs" "drop (length (takeWhile P xs)) xs = dropWhile P xs"
  by (simp_all add: takeWhile_eq_take [symmetric] dropWhile_eq_drop [symmetric])

lemma sorted_insert_While:
  fixes r :: rat
  assumes "sorted xs"
  shows "sorted (takeWhile (\<lambda>x. x \<le> r) xs @ r # dropWhile (\<lambda>x. x \<le> r) xs)"
  using assms by (induction xs) (auto dest: set_takeWhileD set_dropWhileD)



end
