(* ===== verification/NR_Policy.thy ===== *)
theory NR_Policy
  imports Complex_Main NR_Prelude
begin

text \<open>
  The concurrency-control policy of NRAM transactions:
  \<^verbatim>\<open>dbengine/nr_kernel/nr_am/src/nram_xact/action.c\<close> and \<^verbatim>\<open>action.h\<close>. A policy maps the features
  of a running transaction to an action; it is loaded from a text file or built in.

  The cached policy is a list of \<^verbatim>\<open>MAX_XACT_FEATURE_SPACE\<close> actions in shared memory, \<open>None\<close> before
  the initialization. A priority is a \<^verbatim>\<open>double\<close>; the model keeps the exact decimal number of the
  file as a rational. \<^verbatim>\<open>sscanf\<close> is modelled for the conversions the source uses: for \<^verbatim>\<open>%lf\<close>
  decimal notation with an optional exponent (not the hexadecimal, infinity and NaN forms).
\<close>

section \<open>State\<close>

definition MAX_XACT_FEATURE_SPACE :: nat where
  "MAX_XACT_FEATURE_SPACE = 32"

definition DEFAULT_WAIT_MS :: u32 where
  "DEFAULT_WAIT_MS = 1 * 1000"

definition READ_OPT :: byte where "READ_OPT = 0"
definition UPDATE_OPT :: byte where "UPDATE_OPT = 1"

record cc_action =
  detect_all :: bool
  priority :: rat
  timeout :: u32

type_synonym agent_func = "cc_action list"

record xact_feature =
  n_access :: u32
  cur_op :: byte
  n_dep :: u16

section \<open>Features\<close>

definition min_u32 :: "u32 \<Rightarrow> u32 \<Rightarrow> u32" where
  "min_u32 x y = (if x < y then x else y)"

definition encode_feature_10bit :: "xact_feature \<Rightarrow> u32" where
  "encode_feature_10bit feature =
     (let opb = (if cur_op feature \<noteq> 0 then 1 else 0);
          acc = min_u32 (n_access feature) 15;
          idx0 = 0 OR opb;
          idx1 = push_bit 4 idx0
      in idx1 OR acc)"

definition default_action :: cc_action where
  "default_action = \<lparr>detect_all = False, priority = 0, timeout = DEFAULT_WAIT_MS\<rparr>"

definition init_agent_function_cache :: "agent_func option \<Rightarrow> agent_func" where
  "init_agent_function_cache found =
     (case found of Some ptr \<Rightarrow> ptr | None \<Rightarrow> replicate MAX_XACT_FEATURE_SPACE default_action)"

definition get_action :: "agent_func option \<Rightarrow> xact_feature option \<Rightarrow> nr_error + cc_action" where
  "get_action cache feature =
     (case cache of
        None \<Rightarrow> Inl (Elog ''GlobalCachedAgentFunc not initialized'')
      | Some act \<Rightarrow>
          (case feature of
             None \<Rightarrow> Inl (Elog ''get_action: feature is NULL'')
           | Some f \<Rightarrow>
               (let idx = unat (encode_feature_10bit f) in
                if idx < length act then Inr (act ! idx) else Inl Bad_memory)))"

section \<open>Scanning numbers\<close>

definition isspace :: "char \<Rightarrow> bool" where
  "isspace c = (c = CHR '' '' \<or> (9 \<le> (of_char c :: nat) \<and> (of_char c :: nat) \<le> 13))"

definition isdigit :: "char \<Rightarrow> bool" where
  "isdigit c = (48 \<le> (of_char c :: nat) \<and> (of_char c :: nat) \<le> 57)"

definition digits_value :: "string \<Rightarrow> nat" where
  "digits_value ds = foldl (\<lambda>n c. 10 * n + (of_char c - 48)) 0 ds"

definition scan_sign :: "string \<Rightarrow> bool \<times> string" where
  "scan_sign s = (case s of [] \<Rightarrow> (False, []) | c # cs \<Rightarrow>
     if c = CHR ''-'' then (True, cs) else if c = CHR ''+'' then (False, cs) else (False, s))"

text \<open>
  \<^verbatim>\<open>%u\<close> and \<^verbatim>\<open>%llu\<close>: white space, an optional sign, at least one digit. The value is converted
  to 64 bits (saturating), negated for a minus sign, and stored in the width of the variable.
\<close>

definition scan_u64 :: "string \<Rightarrow> (u64 \<times> string) option" where
  "scan_u64 s =
     (let (neg, s1) = scan_sign (dropWhile isspace s); ds = takeWhile isdigit s1; n = digits_value ds in
      if ds = [] then None
      else Some (if n \<ge> 2 ^ 64 then - 1 else if neg then - of_nat n else of_nat n, dropWhile isdigit s1))"

definition scan_u32 :: "string \<Rightarrow> (u32 \<times> string) option" where
  "scan_u32 s = map_option (\<lambda>(w, r). (ucast w, r)) (scan_u64 s)"

definition scan_exponent :: "string \<Rightarrow> (int \<times> string) option" where
  "scan_exponent s =
     (case s of
        [] \<Rightarrow> Some (0, [])
      | c # cs \<Rightarrow>
          if c = CHR ''e'' \<or> c = CHR ''E'' then
            (let (neg, s1) = scan_sign cs; ds = takeWhile isdigit s1 in
             if ds = [] then None
             else Some (if neg then - int (digits_value ds) else int (digits_value ds), dropWhile isdigit s1))
          else Some (0, s))"

definition scan_double :: "string \<Rightarrow> (rat \<times> string) option" where
  "scan_double s =
     (let (neg, s1) = scan_sign (dropWhile isspace s);
          ip = takeWhile isdigit s1; s2 = dropWhile isdigit s1;
          (fp, s3) = (case s2 of c # cs \<Rightarrow> if c = CHR ''.'' then (takeWhile isdigit cs, dropWhile isdigit cs) else ([], s2)
                              | [] \<Rightarrow> ([], []))
      in if ip = [] \<and> fp = [] then None
         else (case scan_exponent s3 of
                 None \<Rightarrow> None
               | Some (e, s4) \<Rightarrow>
                   (let m = of_nat (digits_value (ip @ fp)) / 10 ^ length fp;
                        v = (if e \<ge> 0 then m * 10 ^ nat e else m / 10 ^ nat (- e))
                    in Some (if neg then - v else v, s4))))"

text \<open>The two formats; \<open>None\<close> if fewer conversions succeed.\<close>

definition sscanf4 :: "string \<Rightarrow> (u32 \<times> u32 \<times> rat \<times> u64) option" where
  "sscanf4 p =
     Option.bind (scan_u32 p) (\<lambda>(idx, s1).
     Option.bind (scan_u32 s1) (\<lambda>(detect, s2).
     Option.bind (scan_double s2) (\<lambda>(prio, s3).
     Option.bind (scan_u64 s3) (\<lambda>(tout, s4). Some (idx, detect, prio, tout)))))"

definition sscanf3 :: "string \<Rightarrow> (u32 \<times> rat \<times> u64) option" where
  "sscanf3 p =
     Option.bind (scan_u32 p) (\<lambda>(detect, s1).
     Option.bind (scan_double s1) (\<lambda>(prio, s2).
     Option.bind (scan_u64 s2) (\<lambda>(tout, s3). Some (detect, prio, tout))))"

section \<open>Loading a policy\<close>

text \<open>\<^verbatim>\<open>fgets\<close> with a buffer of 256 bytes: up to 255 characters, and not past a newline.\<close>

fun fgets_line :: "nat \<Rightarrow> string \<Rightarrow> string" where
  "fgets_line 0 s = []"
| "fgets_line (Suc n) [] = []"
| "fgets_line (Suc n) (c # cs) = (if c = CHR 0x0A then [c] else c # fgets_line n cs)"

function fgets_lines :: "string \<Rightarrow> string list" where
  "fgets_lines [] = []"
| "fgets_lines (c # cs) =
     (let l = fgets_line 255 (c # cs) in l # fgets_lines (drop (length l) (c # cs)))"
  by pat_completeness auto
termination
proof (relation "measure length")
  fix c :: char and cs l
  assume "l = fgets_line 255 (c # cs)"
  then have "l \<noteq> []" by (simp add: numeral_eq_Suc)
  then show "(drop (length l) (c # cs), c # cs) \<in> measure length" by (cases l) auto
qed simp

definition set_action :: "agent_func \<Rightarrow> nat \<Rightarrow> u32 \<Rightarrow> rat \<Rightarrow> u64 \<Rightarrow> agent_func" where
  "set_action act i detect prio tout =
     act[i := \<lparr>detect_all = (detect \<noteq> 0), priority = prio, timeout = ucast (min tout (2 ^ 32 - 1))\<rparr>]"

text \<open>One line; the state is the cached policy and the cursor for lines without an index.\<close>

definition load_line :: "string \<Rightarrow> agent_func \<times> nat \<Rightarrow> (nr_error + nat) \<times> agent_func" where
  "load_line line st =
     (let (act, cursor) = st; p = dropWhile (\<lambda>c. c = CHR '' '' \<or> c = CHR 0x09) line in
      if p = [] \<or> hd p = CHR 0x00 \<or> hd p = CHR 0x0A \<or> hd p = CHR ''#'' then (Inr cursor, act)
      else case sscanf4 p of
        Some (idx, detect, prio, tout) \<Rightarrow>
          (if unat idx \<ge> MAX_XACT_FEATURE_SPACE then (Inl (Elog ''load_agent_function: index out of range''), act)
           else (Inr cursor, set_action act (unat idx) detect prio tout))
      | None \<Rightarrow>
          (case sscanf3 p of
             Some (detect, prio, tout) \<Rightarrow>
               (if cursor \<ge> MAX_XACT_FEATURE_SPACE then (Inl (Elog ''load_agent_function: too many entries''), act)
                else (Inr (cursor + 1), set_action act cursor detect prio tout))
           | None \<Rightarrow> (Inl (Elog ''load_agent_function: malformed line''), act)))"

fun load_lines :: "string list \<Rightarrow> agent_func \<times> nat \<Rightarrow> (nr_error + unit) \<times> agent_func" where
  "load_lines [] st = (Inr (), fst st)"
| "load_lines (l # ls) st =
     (case load_line l st of
        (Inl e, act) \<Rightarrow> (Inl e, act)
      | (Inr cursor, act) \<Rightarrow> load_lines ls (act, cursor))"

definition to_lower :: "char \<Rightarrow> char" where
  "to_lower c = (if 65 \<le> (of_char c :: nat) \<and> (of_char c :: nat) \<le> 90 then char_of ((of_char c :: nat) + 32) else c)"

definition pg_strcasecmp_eq :: "string \<Rightarrow> string \<Rightarrow> bool" where
  "pg_strcasecmp_eq a b = (map to_lower a = map to_lower b)"

definition builtin_policy :: "bool \<Rightarrow> agent_func" where
  "builtin_policy detect =
     map (\<lambda>_. \<lparr>detect_all = detect, priority = 0, timeout = DEFAULT_WAIT_MS\<rparr>) [0..<MAX_XACT_FEATURE_SPACE]"

text \<open>
  \<open>fs\<close> is the file system: the contents of the readable files. An error in the middle of a
  file leaves the lines before it in effect.
\<close>

definition load_agent_function ::
  "(string \<Rightarrow> string option) \<Rightarrow> string option \<Rightarrow> agent_func option \<Rightarrow> (nr_error + unit) \<times> agent_func option" where
  "load_agent_function fs filename cache =
     (case cache of
        None \<Rightarrow> (Inl (Elog ''GlobalCachedAgentFunc not initialized''), None)
      | Some act \<Rightarrow>
          (case filename of
             None \<Rightarrow> (Inl (Elog ''load_agent_function: invalid filename''), cache)
           | Some name \<Rightarrow>
               if name = [] then (Inl (Elog ''load_agent_function: invalid filename''), cache)
               else if pg_strcasecmp_eq name ''2pl'' then (Inr (), Some (builtin_policy True))
               else if pg_strcasecmp_eq name ''occ'' then (Inr (), Some (builtin_policy False))
               else (case fs name of
                   None \<Rightarrow> (Inl (Elog ''load_agent_function: could not open''), cache)
                 | Some content \<Rightarrow>
                     (let (r, act') = load_lines (fgets_lines content) (act, 0) in (r, Some act')))))"

section \<open>Lemmas\<close>

lemma unat_min_15: "unat (min_u32 n 15) = min (unat n) 15"
  by (auto simp: min_u32_def word_less_nat_alt min_def)

lemma encode_feature_value:
  "unat (encode_feature_10bit f) = (if cur_op f \<noteq> 0 then 16 else 0) + min (unat (n_access f)) 15"
proof -
  have small: "w OR 16 = w + 16" if "w \<le> 15" for w :: u32
  proof -
    have "w AND 16 = 0"
    proof (rule bit_eqI)
      fix n
      have "unat (take_bit 4 w) = unat w"
        using that by (simp add: unsigned_take_bit_eq word_le_nat_alt take_bit_nat_eq_self)
      then have "take_bit 4 w = w" by (simp only: word_unat_eq_iff)
      then have "bit w n \<Longrightarrow> n < 4" by (metis bit_take_bit_iff)
      moreover have "bit (16 :: u32) n \<longleftrightarrow> n = 4"
        using bit_exp_iff [of 4 n, where 'a = u32] by auto
      ultimately show "bit (w AND 16) n = bit (0 :: u32) n" by (auto simp: bit_and_iff)
    qed
    then show ?thesis using disjunctive_add_eq_or [of w 16] by simp
  qed
  have le: "min_u32 (n_access f) 15 \<le> 15" by (simp add: min_u32_def less_imp_le)
  then have "unat (min_u32 (n_access f) 15 + 16) = unat (min_u32 (n_access f) 15) + 16"
    by (simp add: unat_word_ariths word_le_nat_alt)
  then show ?thesis
    using small [OF le] unat_min_15 [of "n_access f"]
    by (simp add: encode_feature_10bit_def Let_def or.commute add.commute)
qed

lemma length_set_action [simp]: "length (set_action act i d p tm) = length act"
  by (simp add: set_action_def)

lemma load_line_length: "load_line l (act, cursor) = (r, act') \<Longrightarrow> length act' = length act"
  by (auto simp: load_line_def Let_def split: if_splits option.splits)

lemma load_lines_length: "load_lines ls st = (r, act') \<Longrightarrow> length act' = length (fst st)"
proof (induction ls st rule: load_lines.induct)
  case (2 l ls st)
  obtain r1 act1 where step: "load_line l st = (r1, act1)" by force
  then have len: "length act1 = length (fst st)" using load_line_length [of l "fst st" "snd st" r1 act1] by simp
  with 2 step show ?case by (cases r1) auto
qed simp

lemma load_agent_function_length:
  assumes "load_agent_function fs filename (Some act) = (r, Some act')" "length act = MAX_XACT_FEATURE_SPACE"
  shows "length act' = MAX_XACT_FEATURE_SPACE"
  using assms load_lines_length [of _ "(act, 0)"]
  by (auto simp: load_agent_function_def builtin_policy_def split: if_splits option.splits prod.splits)

text \<open>Decimal notation, as the policy files have it.\<close>

fun show_nat :: "nat \<Rightarrow> string" where
  "show_nat n = (if n < 10 then [char_of (48 + n)] else show_nat (n div 10) @ [char_of (48 + n mod 10)])"

declare show_nat.simps [simp del]

lemma of_char_digit: "d < 10 \<Longrightarrow> (of_char (char_of (48 + d :: nat)) :: nat) = 48 + d"
  by simp

lemma isdigit_char_of: "d < 10 \<Longrightarrow> isdigit (char_of (48 + d :: nat))"
  by (simp add: isdigit_def)

lemma show_nat_digits: "\<forall>c \<in> set (show_nat n). isdigit c"
proof (induction n rule: show_nat.induct)
  case (1 n)
  have "isdigit (char_of (48 + n mod 10 :: nat))" by (intro isdigit_char_of) simp
  with 1 show ?case by (subst show_nat.simps) (auto simp: isdigit_char_of)
qed

lemma show_nat_nonempty [simp]: "show_nat n \<noteq> []"
  by (subst show_nat.simps) simp

lemma digits_value_snoc: "digits_value (ds @ [c]) = 10 * digits_value ds + (of_char c - 48)"
  by (simp add: digits_value_def)

lemma digits_value_show_nat [simp]: "digits_value (show_nat n) = n"
proof (induction n rule: show_nat.induct)
  case (1 n)
  show ?case
  proof (cases "n < 10")
    case True
    then show ?thesis by (subst show_nat.simps) (simp add: digits_value_def)
  next
    case False
    have "digits_value (show_nat n) = 10 * digits_value (show_nat (n div 10)) + n mod 10"
      using False by (subst show_nat.simps) (simp add: digits_value_snoc)
    with False 1 show ?thesis by simp
  qed
qed

lemma scan_digits:
  assumes "\<not> isdigit c"
  shows "takeWhile isdigit (show_nat n @ c # rest) = show_nat n"
    and "dropWhile isdigit (show_nat n @ c # rest) = c # rest"
  using show_nat_digits assms by (simp_all add: takeWhile_append2 dropWhile_append2)

lemma show_nat_head: "\<exists>c cs. show_nat n = c # cs \<and> isdigit c"
  using show_nat_digits [of n] by (cases "show_nat n") auto

lemma skip_to_digits: "dropWhile isspace (replicate k (CHR '' '') @ show_nat n @ rest) = show_nat n @ rest"
proof -
  obtain c cs where c: "show_nat n = c # cs" "isdigit c" using show_nat_head by blast
  then have "\<not> isspace c" by (auto simp: isspace_def isdigit_def)
  then have "dropWhile isspace (show_nat n @ rest) = show_nat n @ rest" using c by simp
  then show ?thesis by (induction k) (simp_all add: isspace_def)
qed

lemma scan_sign_digits: "scan_sign (show_nat n @ rest) = (False, show_nat n @ rest)"
proof -
  obtain c cs where "show_nat n = c # cs" "isdigit c" using show_nat_head by blast
  then show ?thesis by (auto simp: scan_sign_def isdigit_def)
qed

lemma scan_u64_show:
  "n < 2 ^ 64 \<Longrightarrow> \<not> isdigit c \<Longrightarrow> scan_u64 (replicate k (CHR '' '') @ show_nat n @ c # rest) = Some (of_nat n, c # rest)"
  by (simp add: scan_u64_def skip_to_digits scan_sign_digits scan_digits)

lemma scan_u32_show:
  "n < 2 ^ 32 \<Longrightarrow> \<not> isdigit c \<Longrightarrow> scan_u32 (replicate k (CHR '' '') @ show_nat n @ c # rest) = Some (of_nat n, c # rest)"
  using scan_u64_show [of n c k rest]
  by (simp add: scan_u32_def word_unat_eq_iff unsigned_ucast_eq unsigned_of_nat take_bit_nat_eq_self)

lemma scan_double_show:
  "scan_double (replicate k (CHR '' '') @ show_nat n @ CHR '' '' # rest) = Some (of_nat n, CHR '' '' # rest)"
proof -
  have "\<not> isdigit (CHR '' '')" by (simp add: isdigit_def)
  then show ?thesis
    by (simp add: scan_double_def skip_to_digits scan_sign_digits scan_digits scan_exponent_def)
qed

section \<open>Properties\<close>





text \<open>
  A line without index whose priority has a fraction is read as a line with index. The
  triple \<open>1 0.5 1000\<close> (detect all, priority one half, one second) sets entry 1 to no detection
  instead of the entry at the cursor to detection.
\<close>

theorem policy_triple_misread:
  "load_line ''1 0.5 1000'' (act, cursor) =
     (Inr cursor, act[1 := \<lparr>detect_all = False, priority = 1 / 2, timeout = 1000\<rparr>])"
proof -
  have "sscanf4 ''1 0.5 1000'' = Some (1, 0, 1 / 2, 1000)"
    by (simp add: sscanf4_def scan_u32_def scan_u64_def scan_double_def scan_exponent_def scan_sign_def
        isspace_def isdigit_def digits_value_def)
  then show ?thesis
    by (simp add: load_line_def set_action_def MAX_XACT_FEATURE_SPACE_def)
qed

end
