(* ===== verification/NR_Engine.thy ===== *)
theory NR_Engine
  imports NR_KV
begin

text \<open>
  The RocksDB storage engine: \<^verbatim>\<open>dbengine/nr_kernel/nr_am/src/nram_storage/rocksengine.c\<close>.

  RocksDB itself is not part of the sources. Its C API is the argument \<open>api\<close> of the
  definitions; \<open>rocksdb_ok\<close> states the documented behaviour the engine relies on: a map from
  byte strings to byte strings, iterated in bytewise key order over a snapshot. The bytes
  that can be read behind a buffer returned by RocksDB are the argument \<open>slack\<close>.
\<close>

section \<open>The RocksDB interface\<close>

record ('db, 'it) rocksdb_api =
  rocksdb_open :: "string + 'db"
  rocksdb_get :: "'db \<Rightarrow> byte list \<Rightarrow> string + byte list option"
  rocksdb_put :: "'db \<Rightarrow> byte list \<Rightarrow> byte list \<Rightarrow> string + 'db"
  rocksdb_delete :: "'db \<Rightarrow> byte list \<Rightarrow> string + 'db"
  rocksdb_create_iterator :: "'db \<Rightarrow> 'it option"
  rocksdb_iter_seek :: "'it \<Rightarrow> byte list \<Rightarrow> 'it"
  rocksdb_iter_seek_for_prev :: "'it \<Rightarrow> byte list \<Rightarrow> 'it"
  rocksdb_iter_valid :: "'it \<Rightarrow> bool"
  rocksdb_iter_next :: "'it \<Rightarrow> 'it"
  rocksdb_iter_prev :: "'it \<Rightarrow> 'it"
  rocksdb_iter_key :: "'it \<Rightarrow> byte list"
  rocksdb_iter_value :: "'it \<Rightarrow> byte list"

type_synonym entry = "byte list \<times> byte list"

text \<open>
  \<open>ents\<close> lists the entries of a database in key order, \<open>view\<close> the snapshot of an iterator and
  its position; the position behind the last entry is the invalid one.
\<close>

definition seek_pos :: "entry list \<Rightarrow> byte list \<Rightarrow> nat" where
  "seek_pos es k = length (takeWhile (\<lambda>e. fst e < k) es)"

definition seek_prev_pos :: "entry list \<Rightarrow> byte list \<Rightarrow> nat" where
  "seek_prev_pos es k =
     (let n = length (takeWhile (\<lambda>e. fst e \<le> k) es) in if n = 0 then length es else n - 1)"

definition store_ok :: "('db, 'it) rocksdb_api \<Rightarrow> ('db \<Rightarrow> entry list) \<Rightarrow> bool" where
  "store_ok api ents \<longleftrightarrow>
     (\<forall>db. sorted_wrt (<) (map fst (ents db)) \<and>
       (\<forall>k. rocksdb_get api db k = Inr (map_of (ents db) k)) \<and>
       (\<forall>k v. \<exists>db'. rocksdb_put api db k v = Inr db' \<and> map_of (ents db') = (map_of (ents db))(k \<mapsto> v)) \<and>
       (\<forall>k. \<exists>db'. rocksdb_delete api db k = Inr db' \<and> map_of (ents db') = (map_of (ents db))(k := None)))"

definition iter_ok :: "('db, 'it) rocksdb_api \<Rightarrow> ('db \<Rightarrow> entry list) \<Rightarrow> ('it \<Rightarrow> entry list \<times> nat) \<Rightarrow> bool" where
  "iter_ok api ents view \<longleftrightarrow>
     (\<forall>db. \<exists>it. rocksdb_create_iterator api db = Some it \<and> fst (view it) = ents db) \<and>
     (\<forall>it k. view (rocksdb_iter_seek api it k) = (fst (view it), seek_pos (fst (view it)) k)) \<and>
     (\<forall>it k. view (rocksdb_iter_seek_for_prev api it k) = (fst (view it), seek_prev_pos (fst (view it)) k)) \<and>
     (\<forall>it es p. view it = (es, p) \<longrightarrow>
        (rocksdb_iter_valid api it \<longleftrightarrow> p < length es) \<and>
        (p < length es \<longrightarrow>
           view (rocksdb_iter_next api it) = (es, Suc p) \<and>
           view (rocksdb_iter_prev api it) = (es, if p = 0 then length es else p - 1) \<and>
           rocksdb_iter_key api it = fst (es ! p) \<and> rocksdb_iter_value api it = snd (es ! p)))"

definition rocksdb_ok :: "('db, 'it) rocksdb_api \<Rightarrow> ('db \<Rightarrow> entry list) \<Rightarrow> ('it \<Rightarrow> entry list \<times> nat) \<Rightarrow> bool" where
  "rocksdb_ok api ents view \<longleftrightarrow> store_ok api ents \<and> iter_ok api ents view"

section \<open>Opening\<close>

fun strstr :: "string \<Rightarrow> string \<Rightarrow> bool" where
  "strstr [] needle = (needle = [])"
| "strstr (c # cs) needle = (take (length needle) (c # cs) = needle \<or> strstr cs needle)"

definition rocksengine_open :: "('db, 'it) rocksdb_api \<Rightarrow> nr_error + 'db" where
  "rocksengine_open api =
     (case rocksdb_open api of
        Inl error \<Rightarrow>
          (if strstr error ''lock hold by current process''
           then Inl (Elog ''RocksDB unrecoverable lock detected, manual restart needed'')
           else Inl (Elog (''RocksDB: open operation failed, '' @ error)))
      | Inr db \<Rightarrow> Inr db)"

text \<open>The engine of the process, opened at the first use.\<close>

definition GetCurrentEngine :: "('db, 'it) rocksdb_api \<Rightarrow> 'db option \<Rightarrow> nr_error + 'db" where
  "GetCurrentEngine api shared_engine =
     (case shared_engine of None \<Rightarrow> rocksengine_open api | Some db \<Rightarrow> Inr db)"

section \<open>Point operations\<close>

text \<open>A missing key gives a null pointer, which \<^verbatim>\<open>tvalue_deserialize\<close> reads from.\<close>

definition rocksengine_get ::
  "('db, 'it) rocksdb_api \<Rightarrow> byte list \<Rightarrow> 'db \<Rightarrow> nram_key \<Rightarrow> nr_error + nram_value" where
  "rocksengine_get api slack db tkey =
     (let key = tkey_serialize tkey in
      case rocksdb_get api db key of
        Inl error \<Rightarrow> Inl (Elog (''RocksDB: get operation failed, '' @ error))
      | Inr None \<Rightarrow> Inl Bad_memory
      | Inr (Some value) \<Rightarrow> tvalue_deserialize (value @ slack) (length value))"

definition rocksengine_put ::
  "('db, 'it) rocksdb_api \<Rightarrow> 'db \<Rightarrow> nram_key \<Rightarrow> nram_value \<Rightarrow> nr_error + 'db" where
  "rocksengine_put api db tkey tvalue =
     (let key = tkey_serialize tkey in
      ebind (tvalue_serialize tvalue) (\<lambda>serialized_value.
        case rocksdb_put api db key serialized_value of
          Inl error \<Rightarrow> Inl (Elog (''RocksDB: put operation failed, '' @ error))
        | Inr db' \<Rightarrow> Inr db'))"

definition rocksengine_delete :: "('db, 'it) rocksdb_api \<Rightarrow> 'db \<Rightarrow> nram_key \<Rightarrow> nr_error + 'db" where
  "rocksengine_delete api db tkey =
     (case rocksdb_delete api db (tkey_serialize tkey) of
        Inl error \<Rightarrow> Inl (Elog (''RocksDB: delete operation failed, '' @ error))
      | Inr db' \<Rightarrow> Inr db')"

section \<open>Iterators\<close>

text \<open>
  An engine iterator is the RocksDB iterator with the direction that selects its \<^verbatim>\<open>next\<close> and
  \<^verbatim>\<open>seek\<close> functions.
\<close>

record 'it engine_iterator =
  rocksdb_iterator :: 'it
  isforward :: bool

definition rocksengine_create_iterator ::
  "('db, 'it) rocksdb_api \<Rightarrow> 'db \<Rightarrow> bool \<Rightarrow> nr_error + 'it engine_iterator" where
  "rocksengine_create_iterator api db fwd =
     (case rocksdb_create_iterator api db of
        None \<Rightarrow> Inl (Elog ''[NRAM] Failed to create RocksDB iterator.'')
      | Some it \<Rightarrow> Inr \<lparr>rocksdb_iterator = it, isforward = fwd\<rparr>)"

definition rocksengine_iterator_seek ::
  "('db, 'it) rocksdb_api \<Rightarrow> 'it engine_iterator \<Rightarrow> nram_key \<Rightarrow> 'it engine_iterator" where
  "rocksengine_iterator_seek api it tkey =
     it\<lparr>rocksdb_iterator := rocksdb_iter_seek api (rocksdb_iterator it) (tkey_serialize tkey)\<rparr>"

definition rocksengine_iterator_seek_for_prev ::
  "('db, 'it) rocksdb_api \<Rightarrow> 'it engine_iterator \<Rightarrow> nram_key \<Rightarrow> 'it engine_iterator" where
  "rocksengine_iterator_seek_for_prev api it tkey =
     it\<lparr>rocksdb_iterator := rocksdb_iter_seek_for_prev api (rocksdb_iterator it) (tkey_serialize tkey)\<rparr>"

definition rocksengine_iterator_is_valid :: "('db, 'it) rocksdb_api \<Rightarrow> 'it engine_iterator \<Rightarrow> bool" where
  "rocksengine_iterator_is_valid api it = rocksdb_iter_valid api (rocksdb_iterator it)"

definition rocksengine_iterator_next :: "('db, 'it) rocksdb_api \<Rightarrow> 'it engine_iterator \<Rightarrow> 'it engine_iterator" where
  "rocksengine_iterator_next api it = it\<lparr>rocksdb_iterator := rocksdb_iter_next api (rocksdb_iterator it)\<rparr>"

definition rocksengine_iterator_prev :: "('db, 'it) rocksdb_api \<Rightarrow> 'it engine_iterator \<Rightarrow> 'it engine_iterator" where
  "rocksengine_iterator_prev api it = it\<lparr>rocksdb_iterator := rocksdb_iter_prev api (rocksdb_iterator it)\<rparr>"

text \<open>The function pointers of \<^verbatim>\<open>KVEngineIterator\<close>.\<close>

definition kv_it_next :: "('db, 'it) rocksdb_api \<Rightarrow> 'it engine_iterator \<Rightarrow> 'it engine_iterator" where
  "kv_it_next api it =
     (if isforward it then rocksengine_iterator_next api it else rocksengine_iterator_prev api it)"

definition kv_it_seek :: "('db, 'it) rocksdb_api \<Rightarrow> 'it engine_iterator \<Rightarrow> nram_key \<Rightarrow> 'it engine_iterator" where
  "kv_it_seek api it tkey =
     (if isforward it then rocksengine_iterator_seek api it tkey else rocksengine_iterator_seek_for_prev api it tkey)"

definition rocksengine_iterator_get ::
  "('db, 'it) rocksdb_api \<Rightarrow> byte list \<Rightarrow> 'it engine_iterator \<Rightarrow> nr_error + (nram_key \<times> nram_value)" where
  "rocksengine_iterator_get api slack it =
     (let key = rocksdb_iter_key api (rocksdb_iterator it);
          value = rocksdb_iter_value api (rocksdb_iterator it)
      in ebind (tkey_deserialize (key @ slack) (length key)) (\<lambda>tkey.
           ebind (tvalue_deserialize (value @ slack) (length value)) (\<lambda>tvalue. Inr (tkey, tvalue))))"

definition NRAM_TABLE_KEY_LENGTH :: nat where
  "NRAM_TABLE_KEY_LENGTH = 4"

definition rocksengine_fetch_table_key :: "u32 \<Rightarrow> byte list \<times> byte list" where
  "rocksengine_fetch_table_key table_id =
     (take NRAM_TABLE_KEY_LENGTH (le_bytes table_id), take NRAM_TABLE_KEY_LENGTH (le_bytes (table_id + 1)))"

definition rocksengine_get_min_key ::
  "('db, 'it) rocksdb_api \<Rightarrow> byte list \<Rightarrow> 'db \<Rightarrow> u32 \<Rightarrow> nr_error + nram_key option" where
  "rocksengine_get_min_key api slack db table_id =
     ebind (rocksengine_create_iterator api db True) (\<lambda>it.
       (let min_key = fst (rocksengine_fetch_table_key table_id);
            it' = it\<lparr>rocksdb_iterator := rocksdb_iter_seek api (rocksdb_iterator it) min_key\<rparr>
        in if \<not> rocksengine_iterator_is_valid api it' then Inr None
           else ebind (rocksengine_iterator_get api slack it') (\<lambda>(tkey, _). Inr (Some tkey))))"

definition rocksengine_get_max_key ::
  "('db, 'it) rocksdb_api \<Rightarrow> byte list \<Rightarrow> 'db \<Rightarrow> u32 \<Rightarrow> nr_error + nram_key option" where
  "rocksengine_get_max_key api slack db table_id =
     ebind (rocksengine_create_iterator api db False) (\<lambda>it.
       (let max_key = snd (rocksengine_fetch_table_key table_id);
            it' = it\<lparr>rocksdb_iterator := rocksdb_iter_seek_for_prev api (rocksdb_iterator it) max_key\<rparr>
        in if \<not> rocksengine_iterator_is_valid api it' then Inr None
           else ebind (rocksengine_iterator_get api slack it') (\<lambda>(tkey, _). Inr (Some tkey))))"

section \<open>Range scan\<close>

text \<open>
  The loop of \<^verbatim>\<open>rocksengine_range_scan\<close>. The two result arrays start with 8 entries of 8 bytes
  and double when full (\<^verbatim>\<open>repalloc\<close> has the limit of \<^verbatim>\<open>palloc\<close>). Not returning is \<open>None\<close>.
\<close>

partial_function (option) range_scan_loop ::
  "('db, 'it) rocksdb_api \<Rightarrow> byte list \<Rightarrow> byte list \<Rightarrow> 'it \<Rightarrow> nat \<Rightarrow> (nram_key \<times> nram_value) list \<Rightarrow>
   (nr_error + (nram_key \<times> nram_value) list) option" where
  "range_scan_loop api slack end_buf it capacity results =
     (if \<not> rocksdb_iter_valid api it then Some (Inr results)
      else
        (let key = rocksdb_iter_key api it; val = rocksdb_iter_value api it in
         if length key \<noteq> length end_buf \<or> end_buf \<le> key then Some (Inr results)
         else
           (case tkey_deserialize (key @ slack) (length key) of
              Inl e \<Rightarrow> Some (Inl e)
            | Inr tkey \<Rightarrow>
                (case tvalue_deserialize (val @ slack) (length val) of
                   Inl e \<Rightarrow> Some (Inl e)
                 | Inr tval \<Rightarrow>
                     (let capacity' = (if length results \<ge> capacity then capacity * 2 else capacity) in
                      case palloc (8 * capacity') of
                        Inl e \<Rightarrow> Some (Inl e)
                      | Inr _ \<Rightarrow>
                          range_scan_loop api slack end_buf (rocksdb_iter_next api it) capacity'
                            (results @ [(tkey, tval)]))))))"

definition rocksengine_range_scan ::
  "('db, 'it) rocksdb_api \<Rightarrow> byte list \<Rightarrow> 'db \<Rightarrow> nram_key \<Rightarrow> nram_key \<Rightarrow>
   (nr_error + (nram_key \<times> nram_value) list) option" where
  "rocksengine_range_scan api slack db start_key end_key =
     (case rocksengine_create_iterator api db True of
        Inl e \<Rightarrow> Some (Inl e)
      | Inr it \<Rightarrow>
          (let start_buf = tkey_serialize start_key; end_buf = tkey_serialize end_key in
           range_scan_loop api slack end_buf (rocksdb_iter_seek api (rocksdb_iterator it) start_buf) 8 []))"

section \<open>Range scan: result\<close>

lemmas iter_okD = iter_ok_def [THEN iffD1, THEN conjunct1, rule_format]
  iter_ok_def [THEN iffD1, THEN conjunct2, THEN conjunct1, rule_format]
  iter_ok_def [THEN iffD1, THEN conjunct2, THEN conjunct2, THEN conjunct1, rule_format]

lemma iter_ok_at:
  assumes "iter_ok api ents view" "view it = (es, p)"
  shows "rocksdb_iter_valid api it \<longleftrightarrow> p < length es"
    and "p < length es \<Longrightarrow> view (rocksdb_iter_next api it) = (es, Suc p)"
    and "p < length es \<Longrightarrow> rocksdb_iter_key api it = fst (es ! p)"
    and "p < length es \<Longrightarrow> rocksdb_iter_value api it = snd (es ! p)"
  using assms by (auto simp: iter_ok_def)

definition decode_entry :: "byte list \<Rightarrow> entry \<Rightarrow> nr_error + (nram_key \<times> nram_value)" where
  "decode_entry slack e =
     ebind (tkey_deserialize (fst e @ slack) (length (fst e))) (\<lambda>k.
       ebind (tvalue_deserialize (snd e @ slack) (length (snd e))) (\<lambda>v. Inr (k, v)))"

definition decodable :: "byte list \<Rightarrow> entry list \<Rightarrow> bool" where
  "decodable slack es = list_all (\<lambda>e. length (fst e) = 12 \<and> \<not> isl (decode_entry slack e)) es"

lemma decode_entry_Inr:
  "\<not> isl (decode_entry slack e) \<longleftrightarrow>
     (\<exists>k v. tkey_deserialize (fst e @ slack) (length (fst e)) = Inr k \<and>
            tvalue_deserialize (snd e @ slack) (length (snd e)) = Inr v \<and> decode_entry slack e = Inr (k, v))"
  by (auto simp: decode_entry_def ebind_def split: sum.splits)

lemma range_scan_loop_result:
  assumes ok: "iter_ok api ents view" and view: "view it = (es, p)"
    and dec: "decodable slack es" and len: "length end_buf = 12"
    and cap: "8 \<le> cap" "cap \<le> max 8 (2 * length rs)" "length rs + (length es - p) \<le> 2 ^ 26"
  shows "range_scan_loop api slack end_buf it cap rs =
           Some (Inr (rs @ map (\<lambda>e. projr (decode_entry slack e)) (takeWhile (\<lambda>e. fst e < end_buf) (drop p es))))"
  using view cap
proof (induction "length es - p" arbitrary: p it cap rs)
  case 0
  then show ?case
    using iter_ok_at(1) [OF ok "0.prems"(1)] by (subst range_scan_loop.simps) simp
next
  case (Suc n)
  then have p: "p < length es" by simp
  note at = iter_ok_at [OF ok Suc.prems(1)]
  have drop: "drop p es = es ! p # drop (Suc p) es" using p by (simp add: Cons_nth_drop_Suc)
  from dec p have "length (fst (es ! p)) = 12" "\<not> isl (decode_entry slack (es ! p))"
    by (auto simp: decodable_def list_all_length)
  then obtain k v where kv: "tkey_deserialize (fst (es ! p) @ slack) (length (fst (es ! p))) = Inr k"
      "tvalue_deserialize (snd (es ! p) @ slack) (length (snd (es ! p))) = Inr v"
      "decode_entry slack (es ! p) = Inr (k, v)" and l12: "length (fst (es ! p)) = 12"
    by (auto simp: decode_entry_Inr)
  show ?case
  proof (cases "fst (es ! p) < end_buf")
    case False
    then show ?thesis
      using at p drop by (subst range_scan_loop.simps) (simp add: Let_def not_less)
  next
    case True
    let ?cap = "if length rs \<ge> cap then cap * 2 else cap"
    have "?cap \<le> max 8 (2 * length (rs @ [(k, v)]))" "8 \<le> ?cap" using Suc.prems(2,3) by auto
    moreover have "8 * ?cap \<le> MaxAllocSize"
      using Suc.prems p by (auto simp: MaxAllocSize_def)
    moreover have "range_scan_loop api slack end_buf (rocksdb_iter_next api it) ?cap (rs @ [(k, v)]) =
        Some (Inr ((rs @ [(k, v)]) @ map (\<lambda>e. projr (decode_entry slack e))
          (takeWhile (\<lambda>e. fst e < end_buf) (drop (Suc p) es))))"
      using Suc.hyps(2) Suc.prems(4) p calculation(1,2) at(2) by (intro Suc.hyps(1)) auto
    ultimately show ?thesis
      using at p drop kv True l12 len by (subst range_scan_loop.simps) (simp add: Let_def not_le)
  qed
qed

lemma sorted_takeWhile_filter:
  "sorted_wrt (<) (map fst es) \<Longrightarrow>
     takeWhile (\<lambda>e. fst e < hi) (dropWhile (\<lambda>e. fst e < lo) es) = filter (\<lambda>e. lo \<le> fst e \<and> fst e < (hi :: 'a::linorder)) es"
proof (induction es)
  case (Cons e es)
  then have IH: "takeWhile (\<lambda>e. fst e < hi) (dropWhile (\<lambda>e. fst e < lo) es) = filter (\<lambda>e. lo \<le> fst e \<and> fst e < hi) es"
    and less: "\<forall>x\<in>set es. fst e < fst x" by auto
  show ?case
  proof (cases "fst e < lo")
    case True
    then show ?thesis using IH by auto
  next
    case False
    then have all: "\<forall>x\<in>set es. lo \<le> fst x" using less by (meson dual_order.strict_trans leI less_imp_le)
    then have "dropWhile (\<lambda>e. fst e < lo) es = es"
      by (cases es) (auto simp: not_less)
    moreover have "filter (\<lambda>e. lo \<le> fst e \<and> fst e < hi) es = []" if "\<not> fst e < hi"
      using less that by (auto simp: filter_empty_conv)
    ultimately show ?thesis using False IH all by auto
  qed
qed simp

lemma drop_seek_pos: "drop (seek_pos es k) es = dropWhile (\<lambda>e. fst e < k) es"
  by (simp add: seek_pos_def dropWhile_eq_drop)

lemma rocksengine_range_scan_eq:
  assumes "rocksdb_ok api ents view" "decodable slack (ents db)" "length (ents db) \<le> 2 ^ 26"
  shows "rocksengine_range_scan api slack db lo hi =
           Some (Inr (map (\<lambda>e. projr (decode_entry slack e))
             (filter (\<lambda>e. tkey_serialize lo \<le> fst e \<and> fst e < tkey_serialize hi) (ents db))))"
proof -
  from assms have it_ok: "iter_ok api ents view" and srt: "sorted_wrt (<) (map fst (ents db))"
    by (auto simp: rocksdb_ok_def store_ok_def)
  obtain it where it: "rocksdb_create_iterator api db = Some it" "fst (view it) = ents db"
    using iter_okD(1) [OF it_ok] by blast
  have v: "view (rocksdb_iter_seek api it (tkey_serialize lo)) = (ents db, seek_pos (ents db) (tkey_serialize lo))"
    using iter_okD(2) [OF it_ok] it by simp
  show ?thesis
    using it range_scan_loop_result [OF it_ok v assms(2), of "tkey_serialize hi" 8 "[]"] assms(3)
    by (simp add: rocksengine_range_scan_def rocksengine_create_iterator_def Let_def drop_seek_pos
        sorted_takeWhile_filter [OF srt])
qed

section \<open>Point operations: results\<close>

lemma store_okD:
  assumes "store_ok api ents"
  shows "rocksdb_get api db k = Inr (map_of (ents db) k)"
    and "\<exists>db'. rocksdb_put api db k v = Inr db' \<and> map_of (ents db') = (map_of (ents db))(k \<mapsto> v)"
    and "\<exists>db'. rocksdb_delete api db k = Inr db' \<and> map_of (ents db') = (map_of (ents db))(k := None)"
  using assms by (auto simp: store_ok_def)

definition storable :: "nram_value \<Rightarrow> bool" where
  "storable v = (value_wf v \<and> 10 + length (v_data v) \<le> MaxAllocSize)"

abbreviation encoded :: "nram_value \<Rightarrow> byte list" where
  "encoded v \<equiv> value_header v @ v_data v"

lemma serialize_storable: "storable v \<Longrightarrow> tvalue_serialize v = Inr (encoded v)"
  by (simp add: storable_def tvalue_serialize_wf)

lemma deserialize_storable:
  "storable v \<Longrightarrow> 2 \<le> length rest \<Longrightarrow>
     tvalue_deserialize (encoded v @ rest) (8 + length (v_data v)) = Inr (v\<lparr>v_data := v_data v @ take 2 rest\<rparr>)"
  using tvalue_deserialize_eq [of "v_data v" v rest] by (simp add: storable_def)

lemma rocksengine_put_ok:
  assumes "store_ok api ents" "storable v"
  shows "\<exists>db'. rocksengine_put api db k v = Inr db' \<and>
           map_of (ents db') = (map_of (ents db))(tkey_serialize k \<mapsto> encoded v)"
  using store_okD(2) [OF assms(1), of db "tkey_serialize k" "encoded v"] assms(2)
  by (auto simp: rocksengine_put_def serialize_storable)

lemma rocksengine_delete_ok:
  assumes "store_ok api ents"
  shows "\<exists>db'. rocksengine_delete api db k = Inr db' \<and> map_of (ents db') = (map_of (ents db))(tkey_serialize k := None)"
  using store_okD(3) [OF assms, of db "tkey_serialize k"] by (auto simp: rocksengine_delete_def)

lemma rocksengine_get_eq:
  assumes "store_ok api ents"
  shows "rocksengine_get api slack db k =
     (case map_of (ents db) (tkey_serialize k) of
        None \<Rightarrow> Inl Bad_memory | Some b \<Rightarrow> tvalue_deserialize (b @ slack) (length b))"
  by (simp add: rocksengine_get_def store_okD(1) [OF assms] split: option.split)

section \<open>A concrete store\<close>

text \<open>
  A log of writes and deletions, with the sorted entries it leaves. It has the documented
  behaviour, so the hypotheses on RocksDB can be met.
\<close>

fun insert_entry :: "byte list \<Rightarrow> byte list \<Rightarrow> entry list \<Rightarrow> entry list" where
  "insert_entry k v [] = [(k, v)]"
| "insert_entry k v (e # es) =
     (if k < fst e then (k, v) # e # es else if k = fst e then (k, v) # es else e # insert_entry k v es)"

type_synonym write_log = "(byte list \<times> byte list option) list"

fun log_entries :: "write_log \<Rightarrow> entry list" where
  "log_entries [] = []"
| "log_entries ((k, ov) # l) =
     (case ov of Some v \<Rightarrow> insert_entry k v (log_entries l) | None \<Rightarrow> filter (\<lambda>e. fst e \<noteq> k) (log_entries l))"

definition log_store :: "(write_log, entry list \<times> nat) rocksdb_api" where
  "log_store =
     \<lparr>rocksdb_open = Inr [],
      rocksdb_get = (\<lambda>db k. Inr (map_of (log_entries db) k)),
      rocksdb_put = (\<lambda>db k v. Inr ((k, Some v) # db)),
      rocksdb_delete = (\<lambda>db k. Inr ((k, None) # db)),
      rocksdb_create_iterator = (\<lambda>db. Some (log_entries db, 0)),
      rocksdb_iter_seek = (\<lambda>it k. (fst it, seek_pos (fst it) k)),
      rocksdb_iter_seek_for_prev = (\<lambda>it k. (fst it, seek_prev_pos (fst it) k)),
      rocksdb_iter_valid = (\<lambda>it. snd it < length (fst it)),
      rocksdb_iter_next = (\<lambda>it. (fst it, Suc (snd it))),
      rocksdb_iter_prev = (\<lambda>it. (fst it, if snd it = 0 then length (fst it) else snd it - 1)),
      rocksdb_iter_key = (\<lambda>it. fst (fst it ! snd it)),
      rocksdb_iter_value = (\<lambda>it. snd (fst it ! snd it))\<rparr>"

lemma map_of_insert_entry [simp]: "map_of (insert_entry k v es) = (map_of es)(k \<mapsto> v)"
  by (induction es) (auto simp: fun_eq_iff)

lemma map_of_filter_key [simp]: "map_of (filter (\<lambda>e. fst e \<noteq> k) es) = (map_of es)(k := None)"
  by (induction es) (auto simp: fun_eq_iff)

lemma keys_insert_entry: "fst ` set (insert_entry k v es) = insert k (fst ` set es)"
  by (induction es) auto

lemma sorted_insert_entry:
  "sorted_wrt (<) (map fst es) \<Longrightarrow> sorted_wrt (<) (map fst (insert_entry k v es))"
proof (induction es)
  case (Cons e es)
  have "\<forall>x \<in> fst ` set (insert_entry k v es). fst e < x" if "fst e < k"
    using Cons.prems that by (auto simp: keys_insert_entry)
  with Cons show ?case by auto
qed simp

lemma sorted_log_entries: "sorted_wrt (<) (map fst (log_entries l))"
proof (induction l rule: log_entries.induct)
  case (2 k ov l)
  then show ?case
    using sorted_insert_entry [of "log_entries l" k]
    by (cases ov) (simp_all add: sorted_wrt_map sorted_wrt_filter)
qed simp

lemma log_store_ok: "rocksdb_ok log_store log_entries id"
  by (auto simp: rocksdb_ok_def store_ok_def iter_ok_def log_store_def sorted_log_entries)

section \<open>Key order\<close>

text \<open>
  RocksDB compares keys byte by byte, but the table identifier is written with its low
  byte first. \<open>table_range\<close> is the range \<open>[(oid, 0), (oid + 1, 0))\<close> of a table scan.
\<close>

definition table_range :: "u32 \<Rightarrow> nram_key \<Rightarrow> bool" where
  "table_range oid k =
     (tkey_serialize \<lparr>tableOid = oid, tid = 0\<rparr> \<le> tkey_serialize k \<and>
      tkey_serialize k < tkey_serialize \<lparr>tableOid = oid + 1, tid = 0\<rparr>)"

lemma nat_bytes_numeral: "nat_bytes (numeral n) x = of_nat x # nat_bytes (pred_numeral n) (x div 256)"
  by (subst numeral_eq_Suc) simp

lemma nat_bytes_0: "nat_bytes n 0 = replicate n 0"
  by (induction n) simp_all

lemma le_bytes_32:
  "le_bytes (w :: u32) = [of_nat (unat w), of_nat (unat w div 256), of_nat (unat w div 256 div 256), of_nat (unat w div 256 div 256 div 256)]"
  by (simp add: le_bytes_def nat_bytes_numeral)

lemma byte_less_iff: "(of_nat a :: byte) < of_nat b \<longleftrightarrow> a mod 256 < b mod 256"
  by (simp add: word_less_nat_alt unsigned_of_nat take_bit_eq_mod)

lemma byte_eq_iff: "(of_nat a :: byte) = of_nat b \<longleftrightarrow> a mod 256 = b mod 256"
  by (simp add: word_unat_eq_iff unsigned_of_nat take_bit_eq_mod)

lemma zeros_least: "length bs = n \<Longrightarrow> replicate n (0 :: byte) \<le> bs"
proof (induction bs arbitrary: n)
  case (Cons b bs)
  then show ?case by (cases "b = 0") (auto simp: word_gt_0)
qed simp

lemma append_same_le: "(xs @ ys \<le> xs @ zs) \<longleftrightarrow> ys \<le> (zs :: byte list)"
  by (induction xs) auto

lemma unat_plus_one_mod: "unat (w + 1 :: u32) mod 256 = (unat w + 1) mod 256"
  by (simp add: unat_word_ariths mod_mod_cancel)

lemma low_byte_less: "unat v mod 256 < unat w mod 256 \<Longrightarrow> le_bytes (v :: u32) @ xs < le_bytes (w :: u32) @ ys"
  by (simp only: le_bytes_32 append_Cons Cons_less_Cons byte_less_iff) simp

lemma table_range_own:
  "table_range oid \<lparr>tableOid = oid, tid = t\<rparr> \<longleftrightarrow> unat oid mod 256 \<noteq> 255"
proof -
  have "le_bytes (0 :: u64) = replicate 8 0"
    by (simp add: le_bytes_def nat_bytes_0)
  then have "le_bytes (0 :: u64) \<le> le_bytes t" using zeros_least [of "le_bytes t" 8] by simp
  moreover have "(unat oid + 1) mod 256 = (if unat oid mod 256 = 255 then 0 else unat oid mod 256 + 1)"
    by (simp add: mod_Suc)
  ultimately show ?thesis
    using low_byte_less [of oid "oid + 1" "le_bytes t" "le_bytes (0 :: u64)"]
      low_byte_less [of "oid + 1" oid "le_bytes (0 :: u64)" "le_bytes t"]
    by (auto simp: table_range_def tkey_serialize_def append_same_le unat_plus_one_mod split: if_splits)
qed

lemma add_2_24:
  fixes a :: nat
  shows "(a + 2 ^ 24) mod 256 = a mod 256" "(a + 2 ^ 24) div 256 = a div 256 + 65536"
    "(a + 65536) mod 256 = a mod 256" "(a + 65536) div 256 = a div 256 + 256"
    "(a + 256) mod 256 = a mod 256" "(a + 256) div 256 = a div 256 + 1"
proof -
  have step: "(a + 256 * b) div 256 = a div 256 + b" "(a + 256 * b) mod 256 = a mod 256" for b by simp_all
  show "(a + 2 ^ 24) mod 256 = a mod 256" using step(2) [of 65536] by simp
  show "(a + 2 ^ 24) div 256 = a div 256 + 65536" using step(1) [of 65536] by simp
  show "(a + 65536) mod 256 = a mod 256" using step(2) [of 256] by simp
  show "(a + 65536) div 256 = a div 256 + 256" using step(1) [of 256] by simp
qed simp_all

lemma table_range_other:
  assumes low: "unat oid mod 256 \<noteq> 255" and small: "unat oid < 255 * 2 ^ 24"
  shows "table_range oid \<lparr>tableOid = oid + 2 ^ 24, tid = t\<rparr>"
proof -
  let ?o = "unat oid"
  have u: "unat (oid + 2 ^ 24) = ?o + 2 ^ 24"
    using small by (simp add: unat_word_ariths)
  have "?o div 256 div 256 div 256 < 255"
    using small by (simp add: less_mult_imp_div_less flip: div_mult2_eq)
  then have "?o div 256 div 256 div 256 mod 256 < (?o div 256 div 256 div 256 + 1) mod 256"
    by simp
  then have less: "le_bytes oid @ xs < le_bytes (oid + 2 ^ 24) @ ys" for xs ys
    by (simp only: le_bytes_32 u add_2_24 append_Cons Cons_less_Cons byte_less_iff byte_eq_iff simp_thms)
  have "(?o + 2 ^ 24) mod 256 < (?o + 1) mod 256"
    using low by (simp only: add_2_24) (simp add: mod_Suc)
  then have "le_bytes (oid + 2 ^ 24) @ xs < le_bytes (oid + 1) @ ys" for xs ys
    by (intro low_byte_less) (simp only: u unat_plus_one_mod)
  with less show ?thesis
    by (simp only: table_range_def tkey_serialize_def nram_key.select_convs less_imp_le simp_thms)
qed

section \<open>Properties\<close>

text \<open>The store holds the rows \<open>kvs\<close>; what a reader gets for a row.\<close>

definition holds_rows :: "('db \<Rightarrow> entry list) \<Rightarrow> 'db \<Rightarrow> (nram_key \<times> nram_value) list \<Rightarrow> bool" where
  "holds_rows ents db kvs =
     (ents db = map (\<lambda>(k, v). (tkey_serialize k, encoded v)) kvs \<and> list_all (\<lambda>(k, v). storable v) kvs \<and>
      length kvs \<le> 2 ^ 26)"

definition read_row :: "byte list \<Rightarrow> nram_value \<Rightarrow> nram_value" where
  "read_row slack v = v\<lparr>v_data := v_data v @ take 2 slack\<rparr>"

lemma decode_row:
  "storable v \<Longrightarrow> 2 \<le> length slack \<Longrightarrow> decode_entry slack (tkey_serialize k, encoded v) = Inr (k, read_row slack v)"
  using deserialize_storable [of v slack] by (simp add: decode_entry_def read_row_def)

lemma range_scan_rows:
  assumes "rocksdb_ok api ents view" "holds_rows ents db kvs" "2 \<le> length slack"
  shows "rocksengine_range_scan api slack db lo hi =
     Some (Inr (map (\<lambda>(k, v). (k, read_row slack v))
       (filter (\<lambda>(k, v). tkey_serialize lo \<le> tkey_serialize k \<and> tkey_serialize k < tkey_serialize hi) kvs)))"
proof -
  have ents: "ents db = map (\<lambda>(k, v). (tkey_serialize k, encoded v)) kvs"
    and st: "(k, v) \<in> set kvs \<Longrightarrow> storable v" for k v
    using assms(2) by (auto simp: holds_rows_def list_all_iff)
  have "decodable slack (ents db)"
    using st decode_row [OF _ assms(3)] by (auto simp: decodable_def list_all_iff ents)
  then have "rocksengine_range_scan api slack db lo hi =
      Some (Inr (map (\<lambda>e. projr (decode_entry slack e))
        (filter (\<lambda>e. tkey_serialize lo \<le> fst e \<and> fst e < tkey_serialize hi) (ents db))))"
    using assms by (intro rocksengine_range_scan_eq) (auto simp: holds_rows_def)
  also have "map (\<lambda>e. projr (decode_entry slack e))
        (filter (\<lambda>e. tkey_serialize lo \<le> fst e \<and> fst e < tkey_serialize hi) (ents db)) =
      map (\<lambda>(k, v). (k, read_row slack v))
       (filter (\<lambda>(k, v). tkey_serialize lo \<le> tkey_serialize k \<and> tkey_serialize k < tkey_serialize hi) kvs)"
    using st decode_row [OF _ assms(3)] by (auto simp: ents filter_map comp_def case_prod_unfold intro!: map_cong)
  finally show ?thesis .
qed

text \<open>Two rows of different tables, for the witnesses.\<close>

definition sample_value :: "u32 \<Rightarrow> nram_value" where
  "sample_value x = \<lparr>v_xact_id = x, v_flags = 0, v_nfields = 0, v_data = []\<rparr>"

definition sample_rows :: "(nram_key \<times> nram_value) list" where
  "sample_rows = [(\<lparr>tableOid = 1, tid = 5\<rparr>, sample_value 7), (\<lparr>tableOid = 16777217, tid = 9\<rparr>, sample_value 8)]"

definition sample_db :: write_log where
  "sample_db = map (\<lambda>(k, v). (tkey_serialize k, Some (encoded v))) sample_rows"

lemma sample_storable: "storable (sample_value x)"
  by (simp add: storable_def sample_value_def value_wf_def MaxAllocSize_def)

lemma sample_holds_rows: "holds_rows log_entries sample_db sample_rows"
proof -
  have "tkey_serialize \<lparr>tableOid = 1, tid = 5\<rparr> < tkey_serialize \<lparr>tableOid = 16777217, tid = 9\<rparr>"
    by (simp add: tkey_serialize_def le_bytes_32)
  then show ?thesis
    by (simp add: holds_rows_def sample_db_def sample_rows_def sample_storable)
qed

text \<open>
  A value written with \<^verbatim>\<open>rocksengine_put\<close> is what \<^verbatim>\<open>rocksengine_get\<close> reads for its key
  (with two bytes behind it), and every other key reads as before. After
  \<^verbatim>\<open>rocksengine_delete\<close>, a read of the key dereferences a null pointer.
\<close>

theorem engine_put_get_delete:
  assumes "rocksdb_ok api ents view" "storable v" "2 \<le> length slack"
  shows "\<exists>db'. rocksengine_put api db k v = Inr db' \<and>
           (\<forall>j. rocksengine_get api slack db' j =
                  (if j = k then Inr (read_row slack v) else rocksengine_get api slack db j)) \<and>
           (\<exists>db''. rocksengine_delete api db' k = Inr db'' \<and> rocksengine_get api slack db'' k = Inl Bad_memory)"
proof -
  have st: "store_ok api ents" using assms by (simp add: rocksdb_ok_def)
  obtain db' where put: "rocksengine_put api db k v = Inr db'"
      "map_of (ents db') = (map_of (ents db))(tkey_serialize k \<mapsto> encoded v)"
    using rocksengine_put_ok [OF st assms(2)] by blast
  obtain db'' where del: "rocksengine_delete api db' k = Inr db''"
      "map_of (ents db'') = (map_of (ents db'))(tkey_serialize k := None)"
    using rocksengine_delete_ok [OF st] by blast
  show ?thesis
    using put del deserialize_storable [OF assms(2,3)]
    by (simp add: rocksengine_get_eq [OF st] read_row_def)
qed

theorem engine_put_get_delete_witness:
  "\<exists>db'. rocksengine_put log_store sample_db \<lparr>tableOid = 1, tid = 6\<rparr> (sample_value 3) = Inr db' \<and>
     rocksengine_get log_store [0, 0] db' \<lparr>tableOid = 1, tid = 6\<rparr> = Inr (read_row [0, 0] (sample_value 3))"
  using engine_put_get_delete [OF log_store_ok sample_storable, of "[0, 0]" sample_db "\<lparr>tableOid = 1, tid = 6\<rparr>" 3]
  by auto

text \<open>
  C22: a range scan terminates and returns exactly the rows whose encoded key lies in the
  range, in the byte order of the encoded keys.
\<close>

theorem engine_range_scan_exact:
  assumes "rocksdb_ok api ents view" "holds_rows ents db kvs" "2 \<le> length slack"
  shows "\<exists>rows. rocksengine_range_scan api slack db lo hi = Some (Inr rows) \<and>
     set rows = {(k, read_row slack v) | k v. (k, v) \<in> set kvs \<and>
                   tkey_serialize lo \<le> tkey_serialize k \<and> tkey_serialize k < tkey_serialize hi} \<and>
     sorted_wrt (<) (map (\<lambda>(k, _). tkey_serialize k) rows)"
proof -
  have "sorted_wrt (<) (map fst (ents db))"
    using assms(1) by (simp add: rocksdb_ok_def store_ok_def)
  then have "sorted_wrt (\<lambda>x y. tkey_serialize (fst x) < tkey_serialize (fst y)) kvs"
    using assms(2) by (simp add: holds_rows_def sorted_wrt_map case_prod_beta)
  then have "sorted_wrt (\<lambda>x y. tkey_serialize (fst x) < tkey_serialize (fst y))
      (filter (\<lambda>(k, v). tkey_serialize lo \<le> tkey_serialize k \<and> tkey_serialize k < tkey_serialize hi) kvs)"
    by (rule sorted_wrt_filter)
  then show ?thesis
    using range_scan_rows [OF assms, of lo hi]
    by (simp add: sorted_wrt_map case_prod_beta) (auto intro!: image_eqI)
qed

theorem engine_range_scan_exact_witness:
  "\<exists>rows. rocksengine_range_scan log_store [0, 0] sample_db \<lparr>tableOid = 1, tid = 0\<rparr> \<lparr>tableOid = 1, tid = 7\<rparr> = Some (Inr rows) \<and>
     sorted_wrt (<) (map (\<lambda>(k, _). tkey_serialize k) rows)"
  using engine_range_scan_exact [OF log_store_ok sample_holds_rows, of "[0, 0]"] by simp blast

text \<open>
  C37: the range \<open>[(oid, 0), (oid + 1, 0))\<close> of a table scan is not the table. The rows of
  the table are in the result exactly if the low byte of its identifier is not 255, and
  then the rows of the table with identifier \<open>oid + 2 ^ 24\<close> are in the result as well.
\<close>

theorem table_scan_range_mismatch:
  assumes "rocksdb_ok api ents view" "holds_rows ents db kvs" "2 \<le> length slack"
  shows "\<exists>rows. rocksengine_range_scan api slack db \<lparr>tableOid = oid, tid = 0\<rparr> \<lparr>tableOid = oid + 1, tid = 0\<rparr> = Some (Inr rows) \<and>
     (\<forall>(k, v) \<in> set kvs. tableOid k = oid \<longrightarrow> ((k, read_row slack v) \<in> set rows \<longleftrightarrow> unat oid mod 256 \<noteq> 255)) \<and>
     (\<forall>(k, v) \<in> set kvs. tableOid k = oid + 2 ^ 24 \<and> unat oid < 255 * 2 ^ 24 \<and> unat oid mod 256 \<noteq> 255 \<longrightarrow>
        (k, read_row slack v) \<in> set rows)"
proof -
  have own: "tableOid k = oid \<Longrightarrow> table_range oid k \<longleftrightarrow> unat oid mod 256 \<noteq> 255" for k :: nram_key
    using table_range_own [of oid "tid k"] by (cases k) simp
  have other: "tableOid k = oid + 2 ^ 24 \<Longrightarrow> unat oid < 255 * 2 ^ 24 \<Longrightarrow> unat oid mod 256 \<noteq> 255 \<Longrightarrow> table_range oid k"
    for k :: nram_key
    using table_range_other [of oid "tid k"] by (cases k) simp
  show ?thesis
    using own other range_scan_rows [OF assms, of "\<lparr>tableOid = oid, tid = 0\<rparr>" "\<lparr>tableOid = oid + 1, tid = 0\<rparr>"]
    by (auto simp: table_range_def image_iff)
qed

theorem table_scan_range_mismatch_witness:
  "\<exists>rows. rocksengine_range_scan log_store [0, 0] sample_db \<lparr>tableOid = 1, tid = 0\<rparr> \<lparr>tableOid = 2, tid = 0\<rparr> = Some (Inr rows) \<and>
     (\<lparr>tableOid = 16777217, tid = 9\<rparr>, read_row [0, 0] (sample_value 8)) \<in> set rows"
  using table_scan_range_mismatch [OF log_store_ok sample_holds_rows, of "[0, 0]" 1]
  by (auto simp: sample_rows_def)

end
