(* ===== verification/NR_Ring.thy ===== *)
theory NR_Ring
  imports NR_Prelude
begin

text \<open>
  The wrap-around copies of a byte ring of \<open>N\<close> bytes, shared by the shared-memory channels,
  and the contract of a bounded byte queue. A ring with read position \<open>h\<close> and \<open>n\<close> used bytes
  holds \<open>ring_bytes N buf h n\<close>; the copies are the two-part \<^verbatim>\<open>memcpy\<close>s of the source.
\<close>

section \<open>Copies into and out of a ring\<close>

text \<open>\<^verbatim>\<open>memcpy(buf + off, data, length)\<close> inside the buffer.\<close>

definition buf_write :: "byte list \<Rightarrow> nat \<Rightarrow> byte list \<Rightarrow> byte list" where
  "buf_write buf off data = take off buf @ data @ drop (off + length data) buf"

definition ring_used :: "nat \<Rightarrow> nat \<Rightarrow> nat \<Rightarrow> nat" where
  "ring_used N h t = (t + N - h) mod N"

definition ring_put :: "nat \<Rightarrow> byte list \<Rightarrow> nat \<Rightarrow> byte list \<Rightarrow> byte list" where
  "ring_put N buf pos data =
     (if pos + length data \<le> N then buf_write buf pos data
      else (let part = N - pos in buf_write (buf_write buf pos (take part data)) 0 (drop part data)))"

definition ring_get :: "nat \<Rightarrow> byte list \<Rightarrow> nat \<Rightarrow> nat \<Rightarrow> byte list" where
  "ring_get N buf pos len =
     (if pos + len \<le> N then take len (drop pos buf)
      else (let part = N - pos in take part (drop pos buf) @ take (len - part) buf))"

definition ring_bytes :: "nat \<Rightarrow> byte list \<Rightarrow> nat \<Rightarrow> nat \<Rightarrow> byte list" where
  "ring_bytes N buf h n = map (\<lambda>i. buf ! ((h + i) mod N)) [0..<n]"

lemma ring_used_less: "0 < N \<Longrightarrow> ring_used N h t < N"
  by (simp add: ring_used_def)

lemma ring_used_end:
  assumes "h < N" "t < N"
  shows "(h + ring_used N h t) mod N = t"
proof -
  have "(h + (t + N - h) mod N) mod N = (h + (t + N - h)) mod N" by (simp add: mod_add_right_eq)
  with assms show ?thesis by (simp add: ring_used_def)
qed

lemma ring_used_unique:
  assumes "h < N" "n < N" "(h + n) mod N = t"
  shows "ring_used N h t = n"
proof -
  from assms have "t < N" by (metis mod_less_divisor gr_zeroI not_less_zero)
  show ?thesis
  proof (cases "h + n < N")
    case True
    then have "t = h + n" using assms by simp
    then show ?thesis using assms by (simp add: ring_used_def)
  next
    case False
    then have "t = h + n - N" using assms by (simp add: le_mod_geq)
    then show ?thesis using assms False by (simp add: ring_used_def)
  qed
qed

lemma length_buf_write: "off + length data \<le> length buf \<Longrightarrow> length (buf_write buf off data) = length buf"
  by (simp add: buf_write_def)

lemma nth_buf_write:
  "off + length data \<le> length buf \<Longrightarrow> j < length buf \<Longrightarrow>
     buf_write buf off data ! j = (if off \<le> j \<and> j < off + length data then data ! (j - off) else buf ! j)"
  by (auto simp: buf_write_def nth_append min_def)

lemma length_ring_put [simp]:
  "length buf = N \<Longrightarrow> pos < N \<Longrightarrow> length data \<le> N \<Longrightarrow> length (ring_put N buf pos data) = N"
  by (auto simp: ring_put_def Let_def length_buf_write)

lemma length_ring_bytes [simp]: "length (ring_bytes N buf h n) = n"
  by (simp add: ring_bytes_def)

lemma ring_index:
  "pos < N \<Longrightarrow> i < N \<Longrightarrow> (pos + i) mod N = (if pos + i < N then pos + i else pos + i - (N :: nat))"
  using le_mod_geq [of N "pos + i"] by auto

lemma ring_get_eq:
  assumes "length buf = N" "pos < N" "len \<le> N"
  shows "ring_get N buf pos len = ring_bytes N buf pos len"
proof (rule nth_equalityI)
  show "length (ring_get N buf pos len) = length (ring_bytes N buf pos len)"
    using assms by (simp add: ring_get_def Let_def)
next
  fix i assume "i < length (ring_get N buf pos len)"
  then have i: "i < len" using assms by (auto simp: ring_get_def Let_def split: if_splits)
  with assms have "(pos + i) mod N = (if pos + i < N then pos + i else i - (N - pos))"
    by (simp add: ring_index add.commute)
  with assms i show "ring_get N buf pos len ! i = ring_bytes N buf pos len ! i"
    by (auto simp: ring_get_def ring_bytes_def Let_def nth_append)
qed

lemma nth_ring_put:
  assumes "length buf = N" "pos < N" "length data \<le> N" "i < N"
  shows "ring_put N buf pos data ! ((pos + i) mod N) = (if i < length data then data ! i else buf ! ((pos + i) mod N))"
proof (cases "pos + length data \<le> N")
  case True
  have "ring_put N buf pos data ! j = (if pos \<le> j \<and> j < pos + length data then data ! (j - pos) else buf ! j)"
    if "j < N" for j
    using True assms that by (simp add: ring_put_def nth_buf_write)
  from this [of "(pos + i) mod N"] show ?thesis
    using True assms ring_index [of pos N i] by (cases "pos + i < N") auto
next
  case False
  let ?b1 = "buf_write buf pos (take (N - pos) data)"
  have len: "length ?b1 = N"
    using assms False by (simp add: length_buf_write)
  have put: "ring_put N buf pos data ! j =
      (if j < length data - (N - pos) then data ! (N - pos + j)
       else if pos \<le> j then data ! (j - pos) else buf ! j)" if "j < N" for j
    using False assms that by (auto simp: ring_put_def Let_def nth_buf_write len)
  show ?thesis
  proof (cases "pos + i < N")
    case True
    then have "\<not> pos + i < length data - (N - pos)" using assms by simp
    with put [of "pos + i"] True False assms show ?thesis by simp
  next
    case wrap: False
    let ?j = "pos + i - N"
    from wrap assms False have j: "N - pos + ?j = i" "?j < pos" "?j < N" by simp_all
    have "i < length data \<longleftrightarrow> ?j < length data - (N - pos)" using wrap False assms by arith
    with put [of ?j] j have "ring_put N buf pos data ! ?j = (if i < length data then data ! i else buf ! ?j)" by simp
    then show ?thesis using wrap assms ring_index [of pos N i] by simp
  qed
qed

lemma ring_bytes_split:
  assumes "m \<le> n" "0 < N"
  shows "ring_bytes N buf h n = ring_bytes N buf h m @ ring_bytes N buf ((h + m) mod N) (n - m)"
proof (rule nth_equalityI)
  fix i assume "i < length (ring_bytes N buf h n)"
  with assms show "ring_bytes N buf h n ! i = (ring_bytes N buf h m @ ring_bytes N buf ((h + m) mod N) (n - m)) ! i"
    by (auto simp: ring_bytes_def nth_append mod_add_left_eq add.assoc)
qed (use assms in simp)

lemma ring_bytes_put:
  assumes "length buf = N" "h < N" "n + length data \<le> N"
  shows "ring_bytes N (ring_put N buf ((h + n) mod N) data) h (n + length data) = ring_bytes N buf h n @ data"
proof (rule nth_equalityI)
  let ?p = "(h + n) mod N"
  fix i assume "i < length (ring_bytes N (ring_put N buf ?p data) h (n + length data))"
  then have i: "i < n + length data" by simp
  have p: "?p < N" using assms by simp
  have put: "ring_put N buf ?p data ! ((?p + k) mod N) =
      (if k < length data then data ! k else buf ! ((?p + k) mod N))" if "k < N" for k
    using assms p that by (intro nth_ring_put) simp_all
  have "ring_put N buf ?p data ! ((h + i) mod N) = (if i < n then buf ! ((h + i) mod N) else data ! (i - n))"
  proof (cases "i < n")
    case True
    then have "h + n + (i + N - n) = h + i + N" using assms by simp
    then have "(?p + (i + N - n)) mod N = (h + i) mod N" by (metis mod_add_left_eq mod_add_self2)
    with put [of "i + N - n"] True assms show ?thesis by auto
  next
    case False
    then have "(?p + (i - n)) mod N = (h + i) mod N" by (metis mod_add_left_eq add.assoc le_add_diff_inverse not_less)
    with put [of "i - n"] False assms i show ?thesis by auto
  qed
  then show "ring_bytes N (ring_put N buf ?p data) h (n + length data) ! i = (ring_bytes N buf h n @ data) ! i"
    using i by (simp add: ring_bytes_def nth_append)
qed simp

section \<open>The contract of a bounded byte queue\<close>

text \<open>
  What the message layer relies on: an attempt to push either appends all bytes or changes
  nothing, an attempt to pop either removes exactly the requested bytes from the front or
  changes nothing, and both succeed exactly when there is room, respectively data.
\<close>

locale byte_fifo =
  fixes inv :: "'s \<Rightarrow> bool"
    and contents :: "'s \<Rightarrow> byte list"
    and capacity :: nat
    and try_push :: "'s \<Rightarrow> byte list \<Rightarrow> 's option"
    and try_pop :: "'s \<Rightarrow> nat \<Rightarrow> (byte list \<times> 's) option"
  assumes push_iff: "inv s \<Longrightarrow> (\<exists>s'. try_push s d = Some s') \<longleftrightarrow> length (contents s) + length d \<le> capacity"
    and push_law: "inv s \<Longrightarrow> try_push s d = Some s' \<Longrightarrow> inv s' \<and> contents s' = contents s @ d"
    and pop_iff: "inv s \<Longrightarrow> (\<exists>r. try_pop s n = Some r) \<longleftrightarrow> n \<le> length (contents s)"
    and pop_law: "inv s \<Longrightarrow> try_pop s n = Some (d, s') \<Longrightarrow>
                    inv s' \<and> length d = n \<and> contents s = d @ contents s'"

text \<open>
  Any interleaving of the lock-protected attempts of several processes is a sequence of
  operations. The run collects the bytes accepted and the bytes delivered.
\<close>

datatype fifo_op = Op_push "byte list" | Op_pop nat

fun fifo_run ::
  "('s \<Rightarrow> byte list \<Rightarrow> 's option) \<Rightarrow> ('s \<Rightarrow> nat \<Rightarrow> (byte list \<times> 's) option) \<Rightarrow> 's \<Rightarrow> fifo_op list \<Rightarrow>
   's \<times> byte list \<times> byte list" where
  "fifo_run psh pp s [] = (s, [], [])"
| "fifo_run psh pp s (Op_push d # ops) =
     (case psh s d of
        None \<Rightarrow> fifo_run psh pp s ops
      | Some s' \<Rightarrow> (let (s2, ins, outs) = fifo_run psh pp s' ops in (s2, d @ ins, outs)))"
| "fifo_run psh pp s (Op_pop n # ops) =
     (case pp s n of
        None \<Rightarrow> fifo_run psh pp s ops
      | Some (d, s') \<Rightarrow> (let (s2, ins, outs) = fifo_run psh pp s' ops in (s2, ins, d @ outs)))"

context byte_fifo
begin

lemma push_then_pop:
  assumes "inv s" "contents s = []" "length d \<le> capacity"
  shows "\<exists>s1 s2. try_push s d = Some s1 \<and> try_pop s1 (length d) = Some (d, s2) \<and> contents s2 = []"
proof -
  have "\<exists>s1. try_push s d = Some s1" using assms push_iff [of s d] by simp
  then obtain s1 where s1: "try_push s d = Some s1" ..
  from push_law [OF assms(1) s1] assms have c: "inv s1" "contents s1 = d" by auto
  have "\<exists>r. try_pop s1 (length d) = Some r" using pop_iff [of s1 "length d"] c by simp
  then obtain e s2 where e: "try_pop s1 (length d) = Some (e, s2)" by (metis surj_pair)
  with pop_law [OF c(1) e] c s1 show ?thesis by (metis append_eq_append_conv append_Nil2)
qed

lemma run_fifo:
  "inv s \<Longrightarrow> fifo_run try_push try_pop s ops = (s', ins, outs) \<Longrightarrow>
     inv s' \<and> contents s @ ins = outs @ contents s'"
proof (induction ops arbitrary: s ins outs)
  case Nil
  then show ?case by simp
next
  case (Cons op ops)
  show ?case
  proof (cases op)
    case (Op_push d)
    show ?thesis
    proof (cases "try_push s d")
      case None
      with Cons Op_push show ?thesis by simp
    next
      case (Some s1)
      with Cons.prems Op_push obtain ins' where
        "fifo_run try_push try_pop s1 ops = (s', ins', outs)" "ins = d @ ins'"
        by (auto split: prod.splits)
      with Cons.IH [of s1 ins' outs] push_law [OF Cons.prems(1) Some] show ?thesis by auto
    qed
  next
    case (Op_pop n)
    show ?thesis
    proof (cases "try_pop s n")
      case None
      with Cons Op_pop show ?thesis by simp
    next
      case (Some r)
      obtain d s1 where r: "r = (d, s1)" by force
      with Some Cons.prems Op_pop obtain outs' where
        "fifo_run try_push try_pop s1 ops = (s', ins, outs')" "outs = d @ outs'"
        by (auto split: prod.splits)
      with Cons.IH [of s1 ins outs'] pop_law [OF Cons.prems(1)] Some r show ?thesis by auto
    qed
  qed
qed

lemma run_bounded:
  assumes "inv s" "length (contents s) \<le> capacity" "fifo_run try_push try_pop s ops = (s', ins, outs)"
  shows "length (contents s') \<le> capacity"
  using assms
proof (induction ops arbitrary: s ins outs)
  case Nil
  then show ?case by simp
next
  case (Cons op ops)
  show ?case
  proof (cases op)
    case (Op_push d)
    show ?thesis
    proof (cases "try_push s d")
      case None
      with Cons Op_push show ?thesis by simp
    next
      case (Some s1)
      with push_iff [OF Cons.prems(1), of d] push_law [OF Cons.prems(1) Some]
      have "inv s1" "length (contents s1) \<le> capacity" by auto
      with Cons Op_push Some show ?thesis by (auto split: prod.splits)
    qed
  next
    case (Op_pop n)
    show ?thesis
    proof (cases "try_pop s n")
      case None
      with Cons Op_pop show ?thesis by simp
    next
      case (Some r)
      obtain d s1 where r: "r = (d, s1)" by force
      with pop_law [OF Cons.prems(1), of n d s1] Some Cons.prems(2)
      have "inv s1" "length (contents s1) \<le> capacity" by auto
      with Cons Op_pop Some r show ?thesis by (auto split: prod.splits)
    qed
  qed
qed

end

end
