(* ===== verification/NR_Channel.thy ===== *)
theory NR_Channel
  imports NR_Ring
begin

text \<open>
  The shared-memory channels and messages between the backends and the storage process:
  \<^verbatim>\<open>dbengine/nr_kernel/nr_am/src/ipc/msg.c\<close> and \<^verbatim>\<open>msg.h\<close>.

  Everything between \<^verbatim>\<open>LWLockAcquire\<close> and \<^verbatim>\<open>LWLockRelease\<close> is one step on the shared state.
  A blocking call gets its schedule as an argument: one \<open>wakeup\<close> per sleep, with the
  milliseconds since the call started as the timeout check before that sleep sees them,
  whether the postmaster is alive, and what the other processes do to the channel during
  the sleep. A call whose schedule ends while it still has to sleep is \<open>Would_block\<close>.
\<close>

section \<open>State\<close>

definition KV_CHANNEL_BUFSIZE :: nat where
  "KV_CHANNEL_BUFSIZE = 32768"

record kv_channel =
  is_running :: bool
  head :: nat
  tail :: nat
  broadcasts :: nat
  buffer :: "byte list"

text \<open>
  \<open>broadcasts\<close> counts the calls of \<^verbatim>\<open>ConditionVariableBroadcast\<close> on \<^verbatim>\<open>cv\<close>. The segment
  found by \<^verbatim>\<open>ShmemInitStruct\<close> is the argument \<open>found\<close>.
\<close>

definition fresh_channel :: kv_channel where
  "fresh_channel =
     \<lparr>is_running = True, head = 0, tail = 0, broadcasts = 0, buffer = replicate KV_CHANNEL_BUFSIZE 0\<rparr>"

definition KVChannelInit :: "bool \<Rightarrow> kv_channel option \<Rightarrow> nr_error + kv_channel" where
  "KVChannelInit create found =
     (if create then Inr fresh_channel
      else case found of
        None \<Rightarrow> Inl (Elog ''[NRAM] shared memory segment not found'')
      | Some shared \<Rightarrow> Inr shared)"

definition ConditionVariableBroadcast :: "kv_channel \<Rightarrow> kv_channel" where
  "ConditionVariableBroadcast ch = ch\<lparr>broadcasts := broadcasts ch + 1\<rparr>"

definition TerminateChannel :: "kv_channel \<Rightarrow> kv_channel" where
  "TerminateChannel ch = ConditionVariableBroadcast (ch\<lparr>is_running := False\<rparr>)"

definition KVChannelDestroy :: "kv_channel option \<Rightarrow> kv_channel option" where
  "KVChannelDestroy chan = map_option TerminateChannel chan"

definition chan_used :: "kv_channel \<Rightarrow> nat" where
  "chan_used ch = (tail ch + KV_CHANNEL_BUFSIZE - head ch) mod KV_CHANNEL_BUFSIZE"

definition printable :: "byte \<Rightarrow> char" where
  "printable c = (if 32 \<le> c \<and> c \<le> 126 then char_of (unat c) else CHR ''#'')"

definition PrintChannelContent :: "kv_channel \<Rightarrow> nat \<times> string" where
  "PrintChannelContent ch =
     (chan_used ch,
      map (\<lambda>i. printable (buffer ch ! ((head ch + i) mod KV_CHANNEL_BUFSIZE))) [0..<chan_used ch])"

section \<open>Push and pop of bytes\<close>

record wakeup =
  elapsed :: int
  postmaster_alive :: bool
  interference :: "kv_channel \<Rightarrow> kv_channel"

text \<open>One attempt to push, under the lock.\<close>

definition try_push :: "kv_channel \<Rightarrow> byte list \<Rightarrow> kv_channel option" where
  "try_push ch data =
     (let used = chan_used ch; space = KV_CHANNEL_BUFSIZE - used - 1; len = length data in
      if len \<le> space then
        (let pos = tail ch; end_pos = (pos + len) mod KV_CHANNEL_BUFSIZE in
         Some (ConditionVariableBroadcast
           (ch\<lparr>buffer := ring_put KV_CHANNEL_BUFSIZE (buffer ch) pos data, tail := end_pos\<rparr>)))
      else None)"

fun push_loop :: "kv_channel \<Rightarrow> byte list \<Rightarrow> int \<Rightarrow> wakeup list \<Rightarrow> (nr_error + bool) \<times> kv_channel" where
  "push_loop ch data timeout_ms ws =
     (if \<not> is_running ch then (Inr False, ch)
      else case try_push ch data of
        Some ch' \<Rightarrow> (Inr True, ch')
      | None \<Rightarrow>
          if timeout_ms = 0 then (Inr False, ch)
          else (case ws of
              [] \<Rightarrow> (Inl Would_block, ch)
            | w # ws' \<Rightarrow>
                if timeout_ms > 0 \<and> timeout_ms - elapsed w \<le> 0
                then (Inl (Elog ''KVChannelPush encounters timeout''), ch)
                else if \<not> postmaster_alive w then (Inl Proc_exit, ch)
                else push_loop (interference w ch) data timeout_ms ws'))"

definition KVChannelPush ::
  "kv_channel \<Rightarrow> byte list \<Rightarrow> int \<Rightarrow> wakeup list \<Rightarrow> (nr_error + bool) \<times> kv_channel" where
  "KVChannelPush ch data timeout_ms ws =
     (if length data > KV_CHANNEL_BUFSIZE then (Inl (Elog ''KVChannel: message too large''), ch)
      else push_loop ch data timeout_ms ws)"

definition UnsafeKVChannelPop :: "kv_channel \<Rightarrow> nat \<Rightarrow> (byte list \<times> kv_channel) option" where
  "UnsafeKVChannelPop ch len =
     (if len \<le> chan_used ch then
        (let pos = head ch; end_pos = (pos + len) mod KV_CHANNEL_BUFSIZE in
         Some (ring_get KV_CHANNEL_BUFSIZE (buffer ch) pos len, ch\<lparr>head := end_pos\<rparr>))
      else None)"

fun pop_loop :: "kv_channel \<Rightarrow> nat \<Rightarrow> int \<Rightarrow> wakeup list \<Rightarrow> (nr_error + byte list option) \<times> kv_channel" where
  "pop_loop ch len timeout_ms ws =
     (if \<not> is_running ch then (Inr None, ch)
      else case UnsafeKVChannelPop ch len of
        Some (out, ch') \<Rightarrow> (Inr (Some out), ConditionVariableBroadcast ch')
      | None \<Rightarrow>
          if timeout_ms = 0 then (Inr None, ch)
          else (case ws of
              [] \<Rightarrow> (Inl Would_block, ch)
            | w # ws' \<Rightarrow>
                if timeout_ms > 0 \<and> timeout_ms - elapsed w \<le> 0
                then (Inl (Elog ''KVChannelPop encounters timeout''), ch)
                else if \<not> postmaster_alive w then (Inl Proc_exit, ch)
                else pop_loop (interference w ch) len timeout_ms ws'))"

definition KVChannelPop ::
  "kv_channel \<Rightarrow> nat \<Rightarrow> int \<Rightarrow> wakeup list \<Rightarrow> (nr_error + byte list option) \<times> kv_channel" where
  "KVChannelPop ch len timeout_ms ws =
     (if len > KV_CHANNEL_BUFSIZE then (Inl (Elog ''KVChannel: pop too much''), ch)
      else pop_loop ch len timeout_ms ws)"

declare push_loop.simps [simp del] pop_loop.simps [simp del]

section \<open>Messages\<close>

definition MSG_SIZE :: nat where
  "MSG_SIZE = 1024"

datatype KVOp = kv_none | kv_open | kv_close | kv_count | kv_put | kv_get | kv_delete | kv_load
  | kv_batch_read | kv_cursor_delete | kv_start | kv_stop | kv_range

datatype KVMsgStatus = kv_status_none | kv_status_ok | kv_status_error | kv_status_failed

fun KVOp_code :: "KVOp \<Rightarrow> u32" where
  "KVOp_code kv_none = 0"
| "KVOp_code kv_open = 1"
| "KVOp_code kv_close = 2"
| "KVOp_code kv_count = 3"
| "KVOp_code kv_put = 4"
| "KVOp_code kv_get = 5"
| "KVOp_code kv_delete = 6"
| "KVOp_code kv_load = 7"
| "KVOp_code kv_batch_read = 8"
| "KVOp_code kv_cursor_delete = 9"
| "KVOp_code kv_start = 10"
| "KVOp_code kv_stop = 11"
| "KVOp_code kv_range = 12"

fun KVMsgStatus_code :: "KVMsgStatus \<Rightarrow> u32" where
  "KVMsgStatus_code kv_status_none = 0"
| "KVMsgStatus_code kv_status_ok = 1"
| "KVMsgStatus_code kv_status_error = 2"
| "KVMsgStatus_code kv_status_failed = 3"

text \<open>A \<^verbatim>\<open>switch\<close> on an enum field: the field holds any 32-bit value, \<open>None\<close> is \<^verbatim>\<open>default\<close>.\<close>

definition KVOp_of :: "u32 \<Rightarrow> KVOp option" where
  "KVOp_of w = find (\<lambda>c. KVOp_code c = w)
     [kv_none, kv_open, kv_close, kv_count, kv_put, kv_get, kv_delete, kv_load, kv_batch_read,
      kv_cursor_delete, kv_start, kv_stop, kv_range]"

definition KVMsgStatus_of :: "u32 \<Rightarrow> KVMsgStatus option" where
  "KVMsgStatus_of w = find (\<lambda>c. KVMsgStatus_code c = w)
     [kv_status_none, kv_status_ok, kv_status_error, kv_status_failed]"

record kv_msg =
  op :: u32
  relId :: u32
  status :: u32
  respChannel :: u32
  entitySize :: u64
  entity :: "byte list option"

text \<open>\<open>entity = None\<close> is the null pointer.\<close>

definition NewMsg :: "KVOp \<Rightarrow> u32 \<Rightarrow> KVMsgStatus \<Rightarrow> u32 \<Rightarrow> kv_msg" where
  "NewMsg c rel_id st channel_id =
     \<lparr>op = KVOp_code c, relId = rel_id, status = KVMsgStatus_code st, respChannel = channel_id,
      entitySize = 0, entity = None\<rparr>"

definition NewEmptyMsg :: kv_msg where
  "NewEmptyMsg = \<lparr>op = 0, relId = 0, status = 0, respChannel = 0, entitySize = 0, entity = None\<rparr>"

text \<open>The entity writers work on the ring at an offset.\<close>

definition DefaultWriteEntity :: "kv_channel \<Rightarrow> nat \<Rightarrow> byte list \<Rightarrow> kv_channel \<times> nat" where
  "DefaultWriteEntity ch offset data =
     (let buf_size = KV_CHANNEL_BUFSIZE; pos = offset; remaining = buf_size - pos; n = length data in
      if n = 0 then (ch, offset)
      else ((if n \<le> remaining then ch\<lparr>buffer := buf_write (buffer ch) pos data\<rparr>
             else ch\<lparr>buffer := buf_write (buf_write (buffer ch) pos (take remaining data)) 0 (drop remaining data)\<rparr>),
            (pos + n) mod buf_size))"

definition DefaultReadEntity :: "kv_channel \<Rightarrow> nat \<Rightarrow> nat \<Rightarrow> byte list \<times> nat" where
  "DefaultReadEntity ch offset n =
     (let buf_size = KV_CHANNEL_BUFSIZE; pos = offset; remaining = buf_size - pos in
      if n = 0 then ([], offset)
      else if n \<le> remaining then (take n (drop pos (buffer ch)), (pos + n) mod buf_size)
      else (take remaining (drop pos (buffer ch)) @ take (n - remaining) (buffer ch), n - remaining))"

fun op_name :: "KVOp \<Rightarrow> string" where
  "op_name kv_none = ''NONE''"
| "op_name kv_open = ''OPEN''"
| "op_name kv_close = ''CLOSE''"
| "op_name kv_count = ''COUNT''"
| "op_name kv_put = ''PUT''"
| "op_name kv_get = ''GET''"
| "op_name kv_delete = ''DELETE''"
| "op_name kv_load = ''LOAD''"
| "op_name kv_batch_read = ''BATCH_READ''"
| "op_name kv_cursor_delete = ''CURSOR_DELETE''"
| "op_name kv_start = ''START''"
| "op_name kv_stop = ''STOP''"
| "op_name kv_range = ''RANGE''"

fun status_name :: "KVMsgStatus \<Rightarrow> string" where
  "status_name kv_status_none = ''NONE''"
| "status_name kv_status_ok = ''OK''"
| "status_name kv_status_error = ''ERROR''"
| "status_name kv_status_failed = ''FAILED''"

text \<open>What \<^verbatim>\<open>PrintKVMsg\<close> prints: the names of operation and status, and the entity preview.\<close>

definition PrintKVMsg :: "kv_msg option \<Rightarrow> nr_error + (string \<times> string \<times> string option) option" where
  "PrintKVMsg msg =
     (case msg of
        None \<Rightarrow> Inr None
      | Some m \<Rightarrow>
          (case KVOp_of (op m) of
             None \<Rightarrow> Inl (Elog ''PrintKVMsg: unknown op'')
           | Some c \<Rightarrow>
               (let status_str = (case KVMsgStatus_of (status m) of Some s \<Rightarrow> status_name s | None \<Rightarrow> ''UNKNOWN_STATUS'')
                in case entity m of
                     Some e \<Rightarrow>
                       (if entitySize m > 0 then
                          (let max_print = (if unat (entitySize m) \<ge> 256 then 256 - 1 else unat (entitySize m))
                           in ebind (mem_read e 0 max_print) (\<lambda>bs. Inr (Some (op_name c, status_str, Some (map printable bs)))))
                        else Inr (Some (op_name c, status_str, None)))
                   | None \<Rightarrow> Inr (Some (op_name c, status_str, None)))))"

definition msg_header :: "kv_msg \<Rightarrow> byte list" where
  "msg_header m = le_bytes (op m) @ le_bytes (relId m) @ le_bytes (status m) @ le_bytes (respChannel m) @ le_bytes (entitySize m)"

text \<open>The bytes \<^verbatim>\<open>KVChannelPushMsg\<close> assembles in its zeroed buffer of \<^verbatim>\<open>MSG_SIZE\<close> bytes.\<close>

definition assemble_msg :: "kv_msg \<Rightarrow> nr_error + byte list" where
  "assemble_msg m =
     (let header_size = 24; entity_size = unat (entitySize m);
          total_size = (header_size + entity_size) mod 2 ^ 64
      in if total_size > MSG_SIZE then Inl (Elog ''KVChannelPushMsg: total message too large'')
         else case entity m of
           Some e \<Rightarrow>
             (if entity_size > 0 then
                (if header_size + entity_size > MSG_SIZE then Inl Bad_memory
                 else ebind (mem_read e 0 entity_size) (\<lambda>bs. Inr (msg_header m @ bs)))
              else Inr (msg_header m))
         | None \<Rightarrow> Inr (take total_size (msg_header m @ replicate (MSG_SIZE - header_size) 0)))"

definition KVChannelPushMsg ::
  "kv_channel \<Rightarrow> kv_msg \<Rightarrow> int \<Rightarrow> wakeup list \<Rightarrow> (nr_error + bool) \<times> kv_channel" where
  "KVChannelPushMsg ch m timeout_ms ws =
     (case assemble_msg m of
        Inl e \<Rightarrow> (Inl e, ch)
      | Inr temp \<Rightarrow> KVChannelPush ch temp timeout_ms ws)"

definition read_header :: "byte list \<Rightarrow> kv_msg" where
  "read_header bs =
     \<lparr>op = le_word (take 4 bs), relId = le_word (take 4 (drop 4 bs)), status = le_word (take 4 (drop 8 bs)),
      respChannel = le_word (take 4 (drop 12 bs)), entitySize = le_word (take 8 (drop 16 bs)), entity = None\<rparr>"

text \<open>
  One attempt of \<^verbatim>\<open>KVChannelPopMsg\<close>, under the lock. An error leaves the header consumed. There
  is no broadcast.
\<close>

definition try_pop_msg :: "kv_channel \<Rightarrow> (nr_error + kv_msg) option \<times> kv_channel" where
  "try_pop_msg ch =
     (case UnsafeKVChannelPop ch 24 of
        None \<Rightarrow> (None, ch)
      | Some (hd_bytes, ch1) \<Rightarrow>
          (let m = read_header hd_bytes in
           case palloc (unat (entitySize m)) of
             Inl e \<Rightarrow> (Some (Inl e), ch1)
           | Inr _ \<Rightarrow>
               (case UnsafeKVChannelPop ch1 (unat (entitySize m)) of
                  None \<Rightarrow> (Some (Inl (Elog ''Corrupted message: the remaining message is smaller than entitySize'')), ch1)
                | Some (e, ch2) \<Rightarrow> (Some (Inr (m\<lparr>entity := Some e\<rparr>)), ch2))))"

fun KVChannelPopMsg :: "kv_channel \<Rightarrow> int \<Rightarrow> wakeup list \<Rightarrow> (nr_error + kv_msg option) \<times> kv_channel" where
  "KVChannelPopMsg ch timeout_ms ws =
     (if \<not> is_running ch then (Inr None, ch)
      else case try_pop_msg ch of
        (Some (Inr m), ch') \<Rightarrow> (Inr (Some m), ch')
      | (Some (Inl e), ch') \<Rightarrow> (Inl e, ch')
      | (None, ch') \<Rightarrow>
          if timeout_ms = 0 then (Inr None, ch)
          else (case ws of
              [] \<Rightarrow> (Inl Would_block, ch)
            | w # ws' \<Rightarrow>
                if timeout_ms > 0 \<and> timeout_ms - elapsed w \<le> 0 then (Inr None, ch)
                else if \<not> postmaster_alive w then (Inl Proc_exit, ch)
                else KVChannelPopMsg (interference w ch) timeout_ms ws'))"

declare KVChannelPopMsg.simps [simp del]

section \<open>The channel is a bounded byte queue\<close>

definition chan_inv :: "kv_channel \<Rightarrow> bool" where
  "chan_inv ch = (length (buffer ch) = KV_CHANNEL_BUFSIZE \<and> head ch < KV_CHANNEL_BUFSIZE \<and> tail ch < KV_CHANNEL_BUFSIZE)"

definition chan_bytes :: "kv_channel \<Rightarrow> byte list" where
  "chan_bytes ch = ring_bytes KV_CHANNEL_BUFSIZE (buffer ch) (head ch) (chan_used ch)"

lemma bufsize_pos [simp]: "0 < KV_CHANNEL_BUFSIZE"
  by (simp add: KV_CHANNEL_BUFSIZE_def)

lemma chan_used_ring: "chan_used ch = ring_used KV_CHANNEL_BUFSIZE (head ch) (tail ch)"
  by (simp add: chan_used_def ring_used_def)

lemma length_chan_bytes [simp]: "length (chan_bytes ch) = chan_used ch"
  by (simp add: chan_bytes_def)

lemma chan_used_less: "chan_used ch < KV_CHANNEL_BUFSIZE"
  by (simp add: chan_used_def)

lemma broadcast_simps [simp]:
  "is_running (ConditionVariableBroadcast ch) = is_running ch"
  "head (ConditionVariableBroadcast ch) = head ch"
  "tail (ConditionVariableBroadcast ch) = tail ch"
  "buffer (ConditionVariableBroadcast ch) = buffer ch"
  "broadcasts (ConditionVariableBroadcast ch) = broadcasts ch + 1"
  "chan_used (ConditionVariableBroadcast ch) = chan_used ch"
  "chan_bytes (ConditionVariableBroadcast ch) = chan_bytes ch"
  "chan_inv (ConditionVariableBroadcast ch) = chan_inv ch"
  by (simp_all add: ConditionVariableBroadcast_def chan_used_def chan_bytes_def chan_inv_def)

lemma try_push_law:
  assumes inv: "chan_inv ch" and push: "try_push ch data = Some ch'"
  shows "chan_inv ch' \<and> chan_bytes ch' = chan_bytes ch @ data \<and> is_running ch' = is_running ch \<and>
         broadcasts ch' = broadcasts ch + 1"
proof -
  let ?N = KV_CHANNEL_BUFSIZE
  from push have fit: "chan_used ch + length data < ?N"
    using chan_used_less [of ch] by (auto simp: try_push_def Let_def split: if_splits)
  let ?c = "ch\<lparr>buffer := ring_put ?N (buffer ch) (tail ch) data, tail := (tail ch + length data) mod ?N\<rparr>"
  from push have ch': "ch' = ConditionVariableBroadcast ?c"
    by (auto simp: try_push_def Let_def split: if_splits)
  have t: "(head ch + chan_used ch) mod ?N = tail ch"
    using inv by (simp add: chan_used_ring ring_used_end chan_inv_def)
  have "(head ch + (chan_used ch + length data)) mod ?N = (tail ch + length data) mod ?N"
    using t by (metis add.assoc mod_add_left_eq)
  then have used: "chan_used ?c = chan_used ch + length data"
    using inv fit by (auto simp: chan_used_ring chan_inv_def intro: ring_used_unique)
  have "chan_bytes ?c = chan_bytes ch @ data"
    using ring_bytes_put [of "buffer ch" ?N "head ch" "chan_used ch" data] inv fit t
    by (simp add: chan_bytes_def used chan_inv_def)
  moreover have "chan_inv ?c"
    using inv fit by (simp add: chan_inv_def)
  ultimately show ?thesis by (simp add: ch')
qed

lemma try_push_iff:
  "(\<exists>ch'. try_push ch data = Some ch') \<longleftrightarrow> length (chan_bytes ch) + length data \<le> KV_CHANNEL_BUFSIZE - 1"
  using chan_used_less [of ch] by (auto simp: try_push_def Let_def)

lemma unsafe_pop_law:
  assumes inv: "chan_inv ch" and pop: "UnsafeKVChannelPop ch n = Some (out, ch')"
  shows "chan_inv ch' \<and> length out = n \<and> chan_bytes ch = out @ chan_bytes ch' \<and> is_running ch' = is_running ch \<and>
         broadcasts ch' = broadcasts ch"
proof -
  let ?N = KV_CHANNEL_BUFSIZE
  let ?c = "ch\<lparr>head := (head ch + n) mod ?N\<rparr>"
  from pop have n: "n \<le> chan_used ch" and ch': "ch' = ?c"
    and out: "out = ring_get ?N (buffer ch) (head ch) n"
    by (auto simp: UnsafeKVChannelPop_def Let_def split: if_splits)
  from n chan_used_less [of ch] have nN: "n < ?N" by simp
  have out': "out = ring_bytes ?N (buffer ch) (head ch) n"
    using inv nN by (simp add: out ring_get_eq chan_inv_def)
  have "(head ch + n) mod ?N < ?N" by simp
  moreover have "(head ch + chan_used ch) mod ?N = tail ch"
    using inv by (simp add: chan_used_ring ring_used_end chan_inv_def)
  with n have "((head ch + n) mod ?N + (chan_used ch - n)) mod ?N = tail ch"
    by (metis add.assoc le_add_diff_inverse mod_add_left_eq)
  ultimately have used: "chan_used ?c = chan_used ch - n"
    using chan_used_less [of ch] ring_used_unique [of "(head ch + n) mod ?N" ?N "chan_used ch - n" "tail ch"]
    by (simp add: chan_used_ring)
  have "chan_bytes ch = out @ chan_bytes ?c"
    using ring_bytes_split [OF n bufsize_pos, of "buffer ch" "head ch"] used out' by (simp add: chan_bytes_def)
  with inv out' show ?thesis by (simp add: ch' chan_inv_def)
qed

lemma unsafe_pop_iff: "(\<exists>r. UnsafeKVChannelPop ch n = Some r) \<longleftrightarrow> n \<le> length (chan_bytes ch)"
  by (auto simp: UnsafeKVChannelPop_def Let_def)

interpretation kvc: byte_fifo chan_inv chan_bytes "KV_CHANNEL_BUFSIZE - 1" try_push UnsafeKVChannelPop
proof
  show "(\<exists>s'. try_push s d = Some s') \<longleftrightarrow> length (chan_bytes s) + length d \<le> KV_CHANNEL_BUFSIZE - 1" for s d
    by (rule try_push_iff)
  show "(\<exists>r. UnsafeKVChannelPop s n = Some r) \<longleftrightarrow> n \<le> length (chan_bytes s)" for s n
    by (rule unsafe_pop_iff)
qed (use try_push_law unsafe_pop_law in blast)+

lemma fresh_channel_ok [simp]:
  "chan_inv fresh_channel" "chan_bytes fresh_channel = []" "is_running fresh_channel" "chan_used fresh_channel = 0"
  by (simp_all add: fresh_channel_def chan_inv_def chan_bytes_def chan_used_def ring_bytes_def)

lemma chan_init: "KVChannelInit True found = Inr ch \<longleftrightarrow> ch = fresh_channel"
  by (auto simp: KVChannelInit_def)

section \<open>Blocking calls are one atomic step\<close>

text \<open>The channel after the first \<open>k\<close> sleeps.\<close>

definition chan_at :: "kv_channel \<Rightarrow> wakeup list \<Rightarrow> nat \<Rightarrow> kv_channel" where
  "chan_at ch ws k = fold interference (take k ws) ch"

lemma chan_at_simps [simp]:
  "chan_at ch ws 0 = ch"
  "chan_at ch (w # ws) (Suc k) = chan_at (interference w ch) ws k"
  by (simp_all add: chan_at_def)

text \<open>
  What a call may have done to the channel \<open>c\<close> it found at its last attempt: the whole
  operation, or nothing and then the channel was not running or had no room (no data).
\<close>

definition push_outcome :: "kv_channel \<Rightarrow> byte list \<Rightarrow> (nr_error + bool) \<times> kv_channel \<Rightarrow> bool" where
  "push_outcome c data r =
     (case fst r of
        Inr True \<Rightarrow> is_running c \<and> try_push c data = Some (snd r)
      | Inr False \<Rightarrow> snd r = c \<and> (\<not> is_running c \<or> try_push c data = None)
      | Inl _ \<Rightarrow> snd r = c \<and> is_running c \<and> try_push c data = None)"

definition pop_outcome :: "kv_channel \<Rightarrow> nat \<Rightarrow> (nr_error + byte list option) \<times> kv_channel \<Rightarrow> bool" where
  "pop_outcome c n r =
     (case fst r of
        Inr (Some out) \<Rightarrow> is_running c \<and>
          (\<exists>c'. UnsafeKVChannelPop c n = Some (out, c') \<and> snd r = ConditionVariableBroadcast c')
      | Inr None \<Rightarrow> snd r = c \<and> (\<not> is_running c \<or> UnsafeKVChannelPop c n = None)
      | Inl _ \<Rightarrow> snd r = c \<and> is_running c \<and> UnsafeKVChannelPop c n = None)"

definition pop_msg_outcome :: "kv_channel \<Rightarrow> (nr_error + kv_msg option) \<times> kv_channel \<Rightarrow> bool" where
  "pop_msg_outcome c r =
     (case fst r of
        Inr (Some m) \<Rightarrow> is_running c \<and> try_pop_msg c = (Some (Inr m), snd r)
      | Inr None \<Rightarrow> snd r = c \<and> (\<not> is_running c \<or> fst (try_pop_msg c) = None)
      | Inl e \<Rightarrow> is_running c \<and> (try_pop_msg c = (Some (Inl e), snd r) \<or> snd r = c \<and> fst (try_pop_msg c) = None))"

lemma outcome_later:
  assumes "\<exists>k\<le>length ws. P (chan_at (interference w ch) ws k)"
  shows "\<exists>k\<le>length (w # ws). P (chan_at ch (w # ws) k)"
proof -
  from assms obtain k where "k \<le> length ws" "P (chan_at (interference w ch) ws k)" by blast
  then show ?thesis by (intro exI [of _ "Suc k"]) simp
qed

lemma outcome_now: "P ch \<Longrightarrow> \<exists>k\<le>length ws. P (chan_at ch ws k)"
  by (rule exI [of _ 0]) simp

lemma push_loop_atomic:
  "\<exists>k\<le>length ws. push_outcome (chan_at ch ws k) data (push_loop ch data timeout ws)"
proof (induction ws arbitrary: ch)
  case Nil
  then show ?case
    by (subst push_loop.simps) (simp add: push_outcome_def split: option.split)
next
  case (Cons w ws)
  show ?case
  proof (cases "is_running ch \<and> try_push ch data = None \<and> timeout \<noteq> 0 \<and>
      \<not> (timeout > 0 \<and> timeout - elapsed w \<le> 0) \<and> postmaster_alive w")
    case True
    then have "push_loop ch data timeout (w # ws) = push_loop (interference w ch) data timeout ws"
      by (subst push_loop.simps) auto
    then show ?thesis
      using outcome_later [OF Cons.IH [of "interference w ch"]] by simp
  next
    case False
    then have "push_outcome ch data (push_loop ch data timeout (w # ws))"
      by (subst push_loop.simps) (auto simp: push_outcome_def split: option.split)
    then show ?thesis by (rule outcome_now)
  qed
qed

lemma pop_loop_atomic:
  "\<exists>k\<le>length ws. pop_outcome (chan_at ch ws k) n (pop_loop ch n timeout ws)"
proof (induction ws arbitrary: ch)
  case Nil
  then show ?case
    by (subst pop_loop.simps) (simp add: pop_outcome_def split: option.split)
next
  case (Cons w ws)
  show ?case
  proof (cases "is_running ch \<and> UnsafeKVChannelPop ch n = None \<and> timeout \<noteq> 0 \<and>
      \<not> (timeout > 0 \<and> timeout - elapsed w \<le> 0) \<and> postmaster_alive w")
    case True
    then have "pop_loop ch n timeout (w # ws) = pop_loop (interference w ch) n timeout ws"
      by (subst pop_loop.simps) auto
    then show ?thesis
      using outcome_later [OF Cons.IH [of "interference w ch"]] by simp
  next
    case False
    then have "pop_outcome ch n (pop_loop ch n timeout (w # ws))"
      by (subst pop_loop.simps) (auto simp: pop_outcome_def split: option.split)
    then show ?thesis by (rule outcome_now)
  qed
qed

lemma try_pop_msg_None: "fst (try_pop_msg ch) = None \<longleftrightarrow> UnsafeKVChannelPop ch 24 = None"
  by (auto simp: try_pop_msg_def Let_def split: option.split sum.split)

lemma try_pop_msg_idle: "fst (try_pop_msg ch) = None \<Longrightarrow> try_pop_msg ch = (None, ch)"
  by (simp add: try_pop_msg_None) (simp add: try_pop_msg_def)

lemma pop_msg_atomic:
  "\<exists>k\<le>length ws. pop_msg_outcome (chan_at ch ws k) (KVChannelPopMsg ch timeout ws)"
proof (induction ws arbitrary: ch)
  case Nil
  show ?case
    using try_pop_msg_idle [of ch]
    by (subst KVChannelPopMsg.simps) (auto simp: pop_msg_outcome_def split: option.split sum.split prod.split)
next
  case (Cons w ws)
  show ?case
  proof (cases "is_running ch \<and> fst (try_pop_msg ch) = None \<and> timeout \<noteq> 0 \<and>
      \<not> (timeout > 0 \<and> timeout - elapsed w \<le> 0) \<and> postmaster_alive w")
    case True
    then have "KVChannelPopMsg ch timeout (w # ws) = KVChannelPopMsg (interference w ch) timeout ws"
      using try_pop_msg_idle [of ch] by (subst KVChannelPopMsg.simps) auto
    then show ?thesis
      using outcome_later [OF Cons.IH [of "interference w ch"]] by simp
  next
    case False
    then have "pop_msg_outcome ch (KVChannelPopMsg ch timeout (w # ws))"
      using try_pop_msg_idle [of ch]
      by (subst KVChannelPopMsg.simps) (auto simp: pop_msg_outcome_def split: option.split sum.split prod.split)
    then show ?thesis by (rule outcome_now)
  qed
qed

section \<open>Messages on the channel\<close>

text \<open>
  A message that can be sent, the message the receiver gets, and its bytes. A null entity
  with a nonzero size is received as zeros.
\<close>

definition sendable :: "kv_msg \<Rightarrow> bool" where
  "sendable m = (24 + unat (entitySize m) \<le> MSG_SIZE \<and>
     (case entity m of None \<Rightarrow> True | Some e \<Rightarrow> unat (entitySize m) \<le> length e))"

definition received :: "kv_msg \<Rightarrow> kv_msg" where
  "received m = m\<lparr>entity := Some (case entity m of None \<Rightarrow> replicate (unat (entitySize m)) 0
                                            | Some e \<Rightarrow> take (unat (entitySize m)) e)\<rparr>"

definition wire :: "kv_msg \<Rightarrow> byte list" where
  "wire m = msg_header m @ the (entity (received m))"

lemma length_msg_header [simp]: "length (msg_header m) = 24"
  by (simp add: msg_header_def)

lemma msg_header_entity [simp]: "msg_header (m\<lparr>entity := e\<rparr>) = msg_header m"
  by (simp add: msg_header_def)

lemma received_idem [simp]: "received (received m) = received m"
  by (auto simp: received_def split: option.split)

lemma wire_received [simp]: "wire (received m) = wire m"
  by (simp add: wire_def) (simp add: received_def)

lemma sendable_received: "sendable m \<Longrightarrow> sendable (received m)"
  by (auto simp: sendable_def received_def split: option.splits)

lemma length_wire: "sendable m \<Longrightarrow> length (wire m) = 24 + unat (entitySize m)"
  by (auto simp: wire_def sendable_def received_def split: option.splits)

lemma assemble_msg_wire:
  assumes "sendable m"
  shows "assemble_msg m = Inr (wire m)"
proof -
  have n: "24 + unat (entitySize m) \<le> 1024" using assms by (simp add: sendable_def MSG_SIZE_def)
  show ?thesis
  proof (cases "entity m")
    case None
    with n assms show ?thesis
      by (simp add: assemble_msg_def wire_def received_def MSG_SIZE_def min_def)
  next
    case (Some e)
    with n assms show ?thesis
      by (simp add: assemble_msg_def wire_def received_def MSG_SIZE_def sendable_def mem_read_def Let_def)
  qed
qed

lemma read_msg_header: "read_header (msg_header m) = m\<lparr>entity := None\<rparr>"
  by (simp add: read_header_def msg_header_def)

lemma wire_fits: "sendable m \<Longrightarrow> length (wire m) \<le> 1024"
  by (simp add: length_wire) (simp add: sendable_def MSG_SIZE_def)

lemma push_msg_nonblocking:
  assumes "sendable m" "is_running ch"
  shows "KVChannelPushMsg ch m 0 [] = (case try_push ch (wire m) of Some ch' \<Rightarrow> (Inr True, ch') | None \<Rightarrow> (Inr False, ch))"
proof -
  have "\<not> KV_CHANNEL_BUFSIZE < length (wire m)"
    using wire_fits [OF assms(1)] by (simp add: KV_CHANNEL_BUFSIZE_def)
  then show ?thesis
    using assms
    by (simp add: KVChannelPushMsg_def KVChannelPush_def assemble_msg_wire push_loop.simps split: option.split)
qed

text \<open>A whole message at the front of the channel is received.\<close>

lemma pop_exact:
  assumes "chan_inv ch" "chan_bytes ch = d @ rest"
  shows "\<exists>ch'. UnsafeKVChannelPop ch (length d) = Some (d, ch') \<and> chan_inv ch' \<and> chan_bytes ch' = rest \<and>
           is_running ch' = is_running ch \<and> broadcasts ch' = broadcasts ch"
proof -
  have "length d \<le> length (chan_bytes ch)" by (simp only: assms(2) length_append le_add1)
  then have "\<exists>r. UnsafeKVChannelPop ch (length d) = Some r" by (simp only: unsafe_pop_iff)
  then obtain out ch' where pop: "UnsafeKVChannelPop ch (length d) = Some (out, ch')" by (metis surj_pair)
  note law = unsafe_pop_law [OF assms(1) pop]
  with assms(2) have "out = d \<and> chan_bytes ch' = rest" by (metis append_eq_append_conv)
  with law pop show ?thesis by blast
qed

lemma try_pop_msg_wire:
  assumes inv: "chan_inv ch" and ok: "sendable m" and front: "chan_bytes ch = wire m @ rest"
  shows "\<exists>ch'. try_pop_msg ch = (Some (Inr (received m)), ch') \<and> chan_inv ch' \<and> chan_bytes ch' = rest \<and>
           is_running ch' = is_running ch \<and> broadcasts ch' = broadcasts ch"
proof -
  let ?e = "the (entity (received m))"
  from front have "chan_bytes ch = msg_header m @ ?e @ rest" by (simp add: wire_def)
  from pop_exact [OF inv this] obtain ch1 where
    p1: "UnsafeKVChannelPop ch 24 = Some (msg_header m, ch1)" "chan_inv ch1" "chan_bytes ch1 = ?e @ rest"
        "is_running ch1 = is_running ch" "broadcasts ch1 = broadcasts ch" by auto
  from pop_exact [OF p1(2,3)] obtain ch2 where
    p2: "UnsafeKVChannelPop ch1 (length ?e) = Some (?e, ch2)" "chan_inv ch2" "chan_bytes ch2 = rest"
        "is_running ch2 = is_running ch1" "broadcasts ch2 = broadcasts ch1" by auto
  have len: "length ?e = unat (entitySize m)" and small: "unat (entitySize m) \<le> MaxAllocSize"
    using length_wire [OF ok] ok by (simp_all add: wire_def sendable_def MSG_SIZE_def MaxAllocSize_def)
  have "m\<lparr>entity := Some ?e\<rparr> = received m" by (simp add: received_def)
  with p1 p2 len small show ?thesis
    by (simp add: try_pop_msg_def read_msg_header Let_def)
qed

text \<open>The messages a channel holds, and runs of non-blocking message operations.\<close>

definition holds_msgs :: "kv_channel \<Rightarrow> kv_msg list \<Rightarrow> bool" where
  "holds_msgs ch ms = (chan_inv ch \<and> is_running ch \<and> list_all sendable ms \<and> chan_bytes ch = concat (map wire ms))"

datatype msg_op = Op_send kv_msg | Op_recv

fun msg_run :: "kv_channel \<Rightarrow> msg_op list \<Rightarrow> kv_channel \<times> kv_msg list \<times> kv_msg list" where
  "msg_run ch [] = (ch, [], [])"
| "msg_run ch (Op_send m # ops) =
     (case KVChannelPushMsg ch m 0 [] of
        (Inr True, ch') \<Rightarrow> (let (ch2, sent, got) = msg_run ch' ops in (ch2, m # sent, got))
      | (_, ch') \<Rightarrow> msg_run ch' ops)"
| "msg_run ch (Op_recv # ops) =
     (case KVChannelPopMsg ch 0 [] of
        (Inr (Some m), ch') \<Rightarrow> (let (ch2, sent, got) = msg_run ch' ops in (ch2, sent, m # got))
      | (_, ch') \<Rightarrow> msg_run ch' ops)"

lemma send_step:
  assumes "holds_msgs ch ms" "sendable m"
  shows "(\<exists>ch'. KVChannelPushMsg ch m 0 [] = (Inr True, ch') \<and> holds_msgs ch' (ms @ [m])) \<or>
         KVChannelPushMsg ch m 0 [] = (Inr False, ch)"
proof (cases "try_push ch (wire m)")
  case None
  with assms show ?thesis by (simp add: push_msg_nonblocking holds_msgs_def)
next
  case (Some ch')
  with assms try_push_law [OF _ Some] show ?thesis by (simp add: push_msg_nonblocking holds_msgs_def)
qed

lemma recv_step_empty: "holds_msgs ch [] \<Longrightarrow> KVChannelPopMsg ch 0 [] = (Inr None, ch)"
proof -
  assume h: "holds_msgs ch []"
  then have "length (chan_bytes ch) = 0" by (simp add: holds_msgs_def)
  then have "UnsafeKVChannelPop ch 24 = None" by (simp add: UnsafeKVChannelPop_def)
  then have "try_pop_msg ch = (None, ch)" by (simp add: try_pop_msg_def)
  with h show ?thesis by (simp add: KVChannelPopMsg.simps holds_msgs_def)
qed

lemma recv_step:
  assumes "holds_msgs ch (m # ms)"
  shows "\<exists>ch'. KVChannelPopMsg ch 0 [] = (Inr (Some (received m)), ch') \<and> holds_msgs ch' ms"
proof -
  from assms have "chan_inv ch" "sendable m" "chan_bytes ch = wire m @ concat (map wire ms)" "is_running ch"
    "list_all sendable ms" by (auto simp: holds_msgs_def)
  from try_pop_msg_wire [OF this(1-3)] this show ?thesis
    by (auto simp: KVChannelPopMsg.simps holds_msgs_def)
qed

lemma msg_run_fifo:
  assumes "holds_msgs ch ms" "\<forall>m. Op_send m \<in> set ops \<longrightarrow> sendable m" "msg_run ch ops = (ch', sent, got)"
  shows "\<exists>rest. holds_msgs ch' rest \<and> map received (ms @ sent) = got @ map received rest"
  using assms
proof (induction ops arbitrary: ch ms sent got)
  case Nil
  then show ?case by auto
next
  case step: (Cons x ops)
  have oks: "\<forall>m. Op_send m \<in> set ops \<longrightarrow> sendable m" using step.prems(2) by simp
  show ?case
  proof (cases x)
    case (Op_send m)
    with step.prems(2) have ok: "sendable m" by simp
    from send_step [OF step.prems(1) ok] show ?thesis
    proof (elim disjE exE conjE)
      fix c assume c: "KVChannelPushMsg ch m 0 [] = (Inr True, c)" "holds_msgs c (ms @ [m])"
      obtain sent' where "msg_run c ops = (ch', sent', got)" "sent = m # sent'"
        using step.prems(3) Op_send c by (auto split: prod.splits)
      with step.IH [OF c(2) oks] show ?thesis by auto
    next
      assume "KVChannelPushMsg ch m 0 [] = (Inr False, ch)"
      with step.IH [OF step.prems(1) oks] step.prems(3) Op_send show ?thesis by simp
    qed
  next
    case Op_recv
    show ?thesis
    proof (cases ms)
      case Nil
      with step.IH [OF step.prems(1) oks] step.prems recv_step_empty [of ch] Op_recv show ?thesis by simp
    next
      case (Cons m ms')
      with recv_step [of ch m ms'] step.prems(1) obtain c where
        c: "KVChannelPopMsg ch 0 [] = (Inr (Some (received m)), c)" "holds_msgs c ms'" by auto
      obtain got' where "msg_run c ops = (ch', sent, got')" "got = received m # got'"
        using step.prems(3) Op_recv c by (auto split: prod.splits)
      with step.IH [OF c(2) oks] Cons show ?thesis by auto
    qed
  qed
qed

section \<open>Properties\<close>

text \<open>
  C24: a fresh channel is a byte queue under every interleaving of lock-protected push and
  pop attempts: what was delivered followed by what is still buffered is what was accepted,
  in order and without loss or duplication, and at most 32767 bytes are buffered.
\<close>

theorem channel_fifo:
  assumes "KVChannelInit True found = Inr ch"
    and "fifo_run try_push UnsafeKVChannelPop ch ops = (ch', accepted, delivered)"
  shows "accepted = delivered @ chan_bytes ch' \<and> chan_inv ch' \<and> length (chan_bytes ch') < KV_CHANNEL_BUFSIZE"
  using kvc.run_fifo [OF _ assms(2)] assms(1) chan_used_less [of ch'] by (simp add: chan_init)

theorem channel_fifo_witness:
  "\<exists>ch' delivered. fifo_run try_push UnsafeKVChannelPop fresh_channel [Op_push [1, 2, 3], Op_pop 5, Op_pop 2] =
       (ch', [1, 2, 3], delivered) \<and>
     [1, 2, 3] = delivered @ chan_bytes ch' \<and> chan_inv ch' \<and> length (chan_bytes ch') < KV_CHANNEL_BUFSIZE"
proof -
  have "fst (snd (fifo_run try_push UnsafeKVChannelPop fresh_channel [Op_push [1, 2, 3], Op_pop 5, Op_pop 2])) = [1, 2, 3]"
    by (simp add: try_push_def UnsafeKVChannelPop_def KV_CHANNEL_BUFSIZE_def Let_def split: option.split prod.split)
  then obtain ch' delivered where
    run: "fifo_run try_push UnsafeKVChannelPop fresh_channel [Op_push [1, 2, 3], Op_pop 5, Op_pop 2] = (ch', [1, 2, 3], delivered)"
    by (metis prod.collapse)
  from channel_fifo [OF _ run, of None] run show ?thesis by (simp add: chan_init)
qed

text \<open>
  C32: under every schedule a blocking push, pop or message receive is one atomic step at
  one of its wakeups: it performs the whole operation on the channel it finds there, or
  leaves that channel as it is, which happens only if the channel is not running or has no
  room (no data) for it.
\<close>

theorem blocking_calls_atomic:
  "(length data \<le> KV_CHANNEL_BUFSIZE \<longrightarrow>
      (\<exists>k\<le>length ws. push_outcome (chan_at ch ws k) data (KVChannelPush ch data timeout ws))) \<and>
   (n \<le> KV_CHANNEL_BUFSIZE \<longrightarrow>
      (\<exists>k\<le>length ws. pop_outcome (chan_at ch ws k) n (KVChannelPop ch n timeout ws))) \<and>
   (\<exists>k\<le>length ws. pop_msg_outcome (chan_at ch ws k) (KVChannelPopMsg ch timeout ws))"
  by (simp add: KVChannelPush_def KVChannelPop_def push_loop_atomic pop_loop_atomic pop_msg_atomic not_less)

theorem blocking_calls_atomic_witness:
  "push_outcome fresh_channel [1, 2] (KVChannelPush fresh_channel [1, 2] 10 []) \<and>
   pop_outcome fresh_channel 3 (KVChannelPop fresh_channel 3 10 [])"
  using blocking_calls_atomic [of "[1, 2]" "[]" fresh_channel 10 3] by (simp add: KV_CHANNEL_BUFSIZE_def)

text \<open>
  C4: messages pass a channel intact and in order: under every interleaving of sends and
  receives on a fresh channel, the messages received followed by those still in the
  channel are the messages accepted.
\<close>

theorem message_fifo:
  assumes "KVChannelInit True found = Inr ch"
    and "\<forall>m. Op_send m \<in> set ops \<longrightarrow> sendable m" "msg_run ch ops = (ch', sent, got)"
  shows "\<exists>rest. holds_msgs ch' rest \<and> map received sent = got @ map received rest"
  using assms msg_run_fifo [of ch "[]" ops ch' sent got] by (simp add: chan_init holds_msgs_def)

theorem message_fifo_witness:
  "\<exists>ch' sent got rest. msg_run fresh_channel [Op_recv, Op_send (NewMsg kv_get 7 kv_status_none 3), Op_recv] = (ch', sent, got) \<and>
     holds_msgs ch' rest \<and> map received sent = got @ map received rest"
proof -
  let ?ops = "[Op_recv, Op_send (NewMsg kv_get 7 kv_status_none 3), Op_recv]"
  have 1: "KVChannelInit True None = Inr fresh_channel" by (simp add: chan_init)
  have 2: "\<forall>m. Op_send m \<in> set ?ops \<longrightarrow> sendable m" by (simp add: NewMsg_def sendable_def MSG_SIZE_def)
  obtain ch' sent got where 3: "msg_run fresh_channel ?ops = (ch', sent, got)" by (metis prod.collapse)
  from message_fifo [OF 1 2 3] 3 show ?thesis by blast
qed

text \<open>
  A push of 32768 bytes passes the size check but can never fit, since one byte of
  the ring stays free: a blocking push without timeout never returns while the channel is
  running and the postmaster alive, whatever the other processes do.
\<close>

theorem full_size_push_blocks_forever:
  assumes "length data = KV_CHANNEL_BUFSIZE" "timeout < 0"
    and "\<forall>k\<le>length ws. is_running (chan_at ch ws k)" "\<forall>w\<in>set ws. postmaster_alive w"
  shows "KVChannelPush ch data timeout ws = (Inl Would_block, chan_at ch ws (length ws))"
proof -
  have none: "try_push c data = None" for c
    using assms(1) chan_used_less [of c] by (simp add: try_push_def Let_def)
  have "push_loop ch data timeout ws = (Inl Would_block, chan_at ch ws (length ws))"
    using assms(2-)
  proof (induction ws arbitrary: ch)
    case Nil
    then show ?case by (subst push_loop.simps) (simp add: none)
  next
    case (Cons w ws)
    have "is_running ch" using Cons.prems(2) by (metis chan_at_simps(1) le0)
    moreover have "\<forall>k\<le>length ws. is_running (chan_at (interference w ch) ws k)"
      using Cons.prems(2) by (metis Suc_le_mono chan_at_simps(2) length_Cons)
    ultimately show ?case
      using Cons by (subst push_loop.simps) (simp add: none)
  qed
  then show ?thesis by (simp add: KVChannelPush_def assms(1))
qed

theorem full_size_push_blocks_forever_witness:
  "KVChannelPush fresh_channel (replicate KV_CHANNEL_BUFSIZE 1) (-1)
     [\<lparr>elapsed = 5, postmaster_alive = True, interference = id\<rparr>] = (Inl Would_block, fresh_channel)"
  using full_size_push_blocks_forever [of "replicate KV_CHANNEL_BUFSIZE 1" "-1"
      "[\<lparr>elapsed = 5, postmaster_alive = True, interference = id\<rparr>]" fresh_channel]
  by (simp add: chan_at_def le_Suc_eq)

end
