(* ===== verification/NR_Queue.thy ===== *)
theory NR_Queue
  imports NR_Channel
begin

text \<open>
  The linked queues of the storage process: the result queue of
  \<^verbatim>\<open>nr_am/src/nram_storage/rocks_service.c\<close> and the task queue of the thread pool
  \<^verbatim>\<open>nr_am/src/nram_storage/thread.c\<close>. Both are singly linked lists with a head and a tail
  pointer. The nodes live in an explicit store: \<open>q_next\<close> and \<open>q_val\<close> are the fields of the
  node at an address, \<open>malloc\<close> gives the next fresh address.
\<close>

section \<open>The contract of a queue\<close>

locale fifo_queue =
  fixes rep :: "'q \<Rightarrow> 'a list \<Rightarrow> bool"
    and new :: 'q
    and push :: "'q \<Rightarrow> 'a \<Rightarrow> 'q"
    and pop :: "'q \<Rightarrow> ('a \<times> 'q) option"
  assumes rep_new: "rep new []"
    and rep_push: "rep q xs \<Longrightarrow> rep (push q x) (xs @ [x])"
    and rep_pop_empty: "rep q [] \<Longrightarrow> pop q = None"
    and rep_pop: "rep q (x # xs) \<Longrightarrow> \<exists>q'. pop q = Some (x, q') \<and> rep q' xs"

text \<open>Runs of producers and consumers, and the removal of everything.\<close>

datatype 'a queue_op = Enq 'a | Deq

fun queue_run :: "('q \<Rightarrow> 'a \<Rightarrow> 'q) \<Rightarrow> ('q \<Rightarrow> ('a \<times> 'q) option) \<Rightarrow> 'q \<Rightarrow> 'a queue_op list \<Rightarrow> 'q \<times> 'a list" where
  "queue_run psh pp q [] = (q, [])"
| "queue_run psh pp q (Enq x # ops) = queue_run psh pp (psh q x) ops"
| "queue_run psh pp q (Deq # ops) =
     (case pp q of
        None \<Rightarrow> queue_run psh pp q ops
      | Some (x, q') \<Rightarrow> (let (q2, out) = queue_run psh pp q' ops in (q2, x # out)))"

fun enqueued :: "'a queue_op list \<Rightarrow> 'a list" where
  "enqueued [] = []"
| "enqueued (Enq x # ops) = x # enqueued ops"
| "enqueued (Deq # ops) = enqueued ops"

context fifo_queue
begin

lemma run_fifo_order:
  "rep q xs \<Longrightarrow> queue_run push pop q ops = (q', out) \<Longrightarrow> \<exists>rest. rep q' rest \<and> xs @ enqueued ops = out @ rest"
proof (induction ops arbitrary: q xs out rule: enqueued.induct)
  case 1
  then show ?case by auto
next
  case (2 x ops)
  from "2.IH" [OF rep_push [OF "2.prems"(1)], of x] "2.prems"(2) show ?case by simp
next
  case (3 ops)
  show ?case
  proof (cases xs)
    case Nil
    with "3.IH" [OF "3.prems"(1)] "3.prems" rep_pop_empty [of q] show ?thesis by simp
  next
    case (Cons x xs')
    with "3.prems"(1) rep_pop [of q x xs'] obtain q1 where q1: "pop q = Some (x, q1)" "rep q1 xs'" by blast
    with "3.prems"(2) obtain out' where "queue_run push pop q1 ops = (q', out')" "out = x # out'"
      by (auto split: prod.splits)
    with "3.IH" [OF q1(2)] Cons show ?thesis by auto
  qed
qed

lemma run_drains:
  "rep q xs \<Longrightarrow> \<exists>q'. queue_run push pop q (replicate (length xs) Deq) = (q', xs) \<and> rep q' []"
proof (induction xs arbitrary: q)
  case Nil
  then show ?case by simp
next
  case (Cons x xs)
  from rep_pop [OF Cons.prems] obtain q1 where q1: "pop q = Some (x, q1)" "rep q1 xs" by blast
  from Cons.IH [OF q1(2)] q1(1) show ?case by (auto split: prod.splits)
qed

end

section \<open>Linked lists with head and tail\<close>

record 'a lqueue =
  q_head :: "nat option"
  q_tail :: "nat option"
  q_next :: "nat \<Rightarrow> nat option"
  q_val :: "nat \<Rightarrow> 'a"
  q_fresh :: nat

definition lq_new :: "'a lqueue" where
  "lq_new = \<lparr>q_head = None, q_tail = None, q_next = (\<lambda>_. None), q_val = (\<lambda>_. undefined), q_fresh = 0\<rparr>"

text \<open>A new node behind the tail.\<close>

definition lq_append :: "'a lqueue \<Rightarrow> 'a \<Rightarrow> 'a lqueue" where
  "lq_append q x =
     (let node = q_fresh q;
          q1 = q\<lparr>q_fresh := node + 1, q_val := (q_val q)(node := x), q_next := (q_next q)(node := None)\<rparr>;
          q2 = (case q_tail q1 of
                  Some t \<Rightarrow> q1\<lparr>q_next := (q_next q1)(t := Some node)\<rparr>
                | None \<Rightarrow> q1\<lparr>q_head := Some node\<rparr>)
      in q2\<lparr>q_tail := Some node\<rparr>)"

text \<open>Unlink the head; an empty list has no tail.\<close>

definition lq_take :: "'a lqueue \<Rightarrow> ('a \<times> 'a lqueue) option" where
  "lq_take q =
     (case q_head q of
        None \<Rightarrow> None
      | Some node \<Rightarrow>
          (let q1 = q\<lparr>q_head := q_next q node\<rparr>;
               q2 = (if q_head q1 = None then q1\<lparr>q_tail := None\<rparr> else q1)
           in Some (q_val q node, q2)))"

text \<open>Walk from a node to the end of the list.\<close>

partial_function (option) lq_walk :: "'a lqueue \<Rightarrow> nat option \<Rightarrow> 'a list option" where
  "lq_walk q n =
     (case n of
        None \<Rightarrow> Some []
      | Some a \<Rightarrow> Option.bind (lq_walk q (q_next q a)) (\<lambda>xs. Some (q_val q a # xs)))"

text \<open>The list a queue represents: the values along the chain of its nodes.\<close>

fun linked :: "(nat \<Rightarrow> nat option) \<Rightarrow> nat list \<Rightarrow> bool" where
  "linked nx [] = True"
| "linked nx [a] = (nx a = None)"
| "linked nx (a # b # as) = (nx a = Some b \<and> linked nx (b # as))"

definition lq_rep :: "'a lqueue \<Rightarrow> 'a list \<Rightarrow> bool" where
  "lq_rep q xs \<longleftrightarrow>
     (\<exists>as. distinct as \<and> (\<forall>a\<in>set as. a < q_fresh q) \<and> linked (q_next q) as \<and> xs = map (q_val q) as \<and>
        q_head q = (if as = [] then None else Some (hd as)) \<and>
        q_tail q = (if as = [] then None else Some (last as)))"

lemma linked_cong: "(\<forall>a\<in>set as. f a = g a) \<Longrightarrow> linked f as = linked g as"
  by (induction g as rule: linked.induct) auto

lemma linked_snoc:
  "linked nx as \<Longrightarrow> as \<noteq> [] \<Longrightarrow> distinct as \<Longrightarrow> n \<notin> set as \<Longrightarrow>
     linked (nx(n := None, last as := Some n)) (as @ [n])"
proof (induction nx as rule: linked.induct)
  case (3 nx a b as)
  then have "a \<noteq> last (b # as)" "a \<noteq> n" by (auto simp: last_in_set)
  with 3 show ?case by auto
qed auto

lemma linked_tl: "linked nx (a # as) \<Longrightarrow> nx a = (if as = [] then None else Some (hd as)) \<and> linked nx as"
  by (cases as) auto

interpretation lq: fifo_queue lq_rep lq_new lq_append lq_take
proof
  show "lq_rep lq_new []"
    by (simp add: lq_rep_def lq_new_def)
next
  fix q :: "'a lqueue" and xs x
  assume "lq_rep q xs"
  then obtain as where as: "distinct as" "\<forall>a\<in>set as. a < q_fresh q" "linked (q_next q) as" "xs = map (q_val q) as"
      "q_head q = (if as = [] then None else Some (hd as))" "q_tail q = (if as = [] then None else Some (last as))"
    by (auto simp: lq_rep_def)
  let ?n = "q_fresh q"
  have fresh: "?n \<notin> set as" using as(2) by auto
  have link: "linked (q_next (lq_append q x)) (as @ [?n])"
    using linked_snoc [OF as(3) _ as(1) fresh] as(6) by (auto simp: lq_append_def Let_def fun_upd_def)
  have "lq_rep (lq_append q x) (map (q_val (lq_append q x)) (as @ [?n]))"
    unfolding lq_rep_def
    using as fresh link by (intro exI [of _ "as @ [?n]"]) (auto simp: lq_append_def Let_def less_Suc_eq)
  moreover have "map (q_val (lq_append q x)) (as @ [?n]) = xs @ [x]"
    using as fresh by (auto simp: lq_append_def Let_def)
  ultimately show "lq_rep (lq_append q x) (xs @ [x])" by simp
next
  fix q :: "'a lqueue"
  assume "lq_rep q []"
  then show "lq_take q = None" by (auto simp: lq_rep_def lq_take_def)
next
  fix q :: "'a lqueue" and x xs
  assume "lq_rep q (x # xs)"
  then obtain a as where as: "distinct (a # as)" "\<forall>b\<in>set (a # as). b < q_fresh q" "linked (q_next q) (a # as)"
      "x = q_val q a" "xs = map (q_val q) as" "q_head q = Some a" "q_tail q = Some (last (a # as))"
    by (auto simp: lq_rep_def map_eq_Cons_conv split: if_splits)
  note tl = linked_tl [OF as(3)]
  let ?q = "snd (the (lq_take q))"
  have "lq_take q = Some (x, ?q)" using as by (simp add: lq_take_def Let_def)
  moreover have "lq_rep ?q xs"
    unfolding lq_rep_def using as tl by (intro exI [of _ as]) (auto simp: lq_take_def Let_def)
  ultimately show "\<exists>q'. lq_take q = Some (x, q') \<and> lq_rep q' xs" by blast
qed

lemma lq_walk_chain: "linked (q_next q) as \<Longrightarrow>
    lq_walk q (if as = [] then None else Some (hd as)) = Some (map (q_val q) as)"
proof (induction as)
  case Nil
  then show ?case by (subst lq_walk.simps) simp
next
  case (Cons a as)
  from linked_tl [OF Cons.prems] Cons.IH show ?case by (subst lq_walk.simps) simp
qed

lemma lq_walk_rep: "lq_rep q xs \<Longrightarrow> lq_walk q (q_head q) = Some xs"
  unfolding lq_rep_def using lq_walk_chain [of q] by metis

lemma lq_rep_empty_head: "lq_rep q xs \<Longrightarrow> q_head q = None \<longleftrightarrow> xs = []"
  by (auto simp: lq_rep_def split: if_splits)

section \<open>The result queue\<close>

record result_queue =
  rq_list :: "kv_msg lqueue"
  rq_shutdown :: bool

definition ResultQueueInit :: result_queue where
  "ResultQueueInit = \<lparr>rq_list = lq_new, rq_shutdown = False\<rparr>"

text \<open>
  \<^verbatim>\<open>ResultQueueDestroy\<close> frees every node on the chain and every message in it; its value is
  the queue left behind and the messages freed.
\<close>

definition ResultQueueDestroy :: "result_queue \<Rightarrow> (kv_msg list \<times> result_queue) option" where
  "ResultQueueDestroy q =
     (let q1 = q\<lparr>rq_shutdown := True\<rparr> in
      Option.bind (lq_walk (rq_list q1) (q_head (rq_list q1))) (\<lambda>freed. Some (freed, q1)))"

definition ResultQueuePush :: "result_queue \<Rightarrow> kv_msg \<Rightarrow> result_queue" where
  "ResultQueuePush q msg =
     (if rq_shutdown q then q else q\<lparr>rq_list := lq_append (rq_list q) msg\<rparr>)"

definition ResultQueuePop :: "result_queue \<Rightarrow> (kv_msg \<times> result_queue) option" where
  "ResultQueuePop q =
     (if rq_shutdown q \<or> q_head (rq_list q) = None then None
      else map_option (\<lambda>(msg, l). (msg, q\<lparr>rq_list := l\<rparr>)) (lq_take (rq_list q)))"

definition ResultQueueIsEmpty :: "result_queue option \<Rightarrow> bool" where
  "ResultQueueIsEmpty q =
     (case q of None \<Rightarrow> True | Some q' \<Rightarrow> q_head (rq_list q') = None \<or> rq_shutdown q')"

definition PrintResultQueue :: "result_queue \<Rightarrow> (nr_error + (string \<times> string \<times> string option) option list) option" where
  "PrintResultQueue q =
     (if rq_shutdown q then Some (Inr [])
      else Option.bind (lq_walk (rq_list q) (q_head (rq_list q))) (\<lambda>msgs. Some (mapE (\<lambda>m. PrintKVMsg (Some m)) msgs)))"

definition rq_rep :: "result_queue \<Rightarrow> kv_msg list \<Rightarrow> bool" where
  "rq_rep q ms = (\<not> rq_shutdown q \<and> lq_rep (rq_list q) ms)"

interpretation rq: fifo_queue rq_rep ResultQueueInit ResultQueuePush ResultQueuePop
proof
  show "rq_rep ResultQueueInit []"
    using lq.rep_new by (simp add: rq_rep_def ResultQueueInit_def)
  show "rq_rep q xs \<Longrightarrow> rq_rep (ResultQueuePush q x) (xs @ [x])" for q xs x
    using lq.rep_push by (auto simp: rq_rep_def ResultQueuePush_def)
  show "rq_rep q [] \<Longrightarrow> ResultQueuePop q = None" for q
    using lq.rep_pop_empty [of "rq_list q"] by (simp add: rq_rep_def ResultQueuePop_def)
  show "rq_rep q (x # xs) \<Longrightarrow> \<exists>q'. ResultQueuePop q = Some (x, q') \<and> rq_rep q' xs" for q x xs
    using lq.rep_pop [of "rq_list q" x xs] lq_rep_empty_head [of "rq_list q" "x # xs"]
    by (auto simp: rq_rep_def ResultQueuePop_def)
qed

section \<open>The thread pool\<close>

text \<open>A task is a function with its argument, here one value of type \<open>'t\<close>.\<close>

record 't thread_pool =
  num_threads :: nat
  pool_shutdown :: bool
  pool_tasks :: "'t lqueue"

definition threadpool_init :: "nat \<Rightarrow> 't thread_pool" where
  "threadpool_init n = \<lparr>num_threads = n, pool_shutdown = False, pool_tasks = lq_new\<rparr>"

definition threadpool_add_task :: "'t thread_pool \<Rightarrow> 't \<Rightarrow> 't thread_pool" where
  "threadpool_add_task pool task = pool\<lparr>pool_tasks := lq_append (pool_tasks pool) task\<rparr>"

text \<open>
  One pass of the loop of \<^verbatim>\<open>worker_thread\<close> under the lock: wait for the condition, leave the
  loop, or run a task.
\<close>

datatype 't worker_action = Cond_wait | Worker_exit | Run_task 't | Spin

definition worker_step :: "'t thread_pool \<Rightarrow> 't worker_action \<times> 't thread_pool" where
  "worker_step pool =
     (if q_head (pool_tasks pool) = None \<and> \<not> pool_shutdown pool then (Cond_wait, pool)
      else if pool_shutdown pool \<and> q_head (pool_tasks pool) = None then (Worker_exit, pool)
      else case lq_take (pool_tasks pool) of
        Some (task, l) \<Rightarrow> (Run_task task, pool\<lparr>pool_tasks := l\<rparr>)
      | None \<Rightarrow> (Spin, pool))"

text \<open>\<^verbatim>\<open>threadpool_destroy\<close> before and after joining the workers: the flag, and the tasks left to free.\<close>

definition threadpool_shutdown :: "'t thread_pool \<Rightarrow> 't thread_pool" where
  "threadpool_shutdown pool = pool\<lparr>pool_shutdown := True\<rparr>"

definition threadpool_free_rest :: "'t thread_pool \<Rightarrow> 't list option" where
  "threadpool_free_rest pool = lq_walk (pool_tasks pool) (q_head (pool_tasks pool))"

text \<open>The loop passes of the workers in any order: \<open>n\<close> passes and the actions they take.\<close>

fun workers_run :: "nat \<Rightarrow> 't thread_pool \<Rightarrow> 't worker_action list \<times> 't thread_pool" where
  "workers_run 0 pool = ([], pool)"
| "workers_run (Suc n) pool =
     (let (a, pool1) = worker_step pool; (as, pool2) = workers_run n pool1 in (a # as, pool2))"

lemma worker_step_run:
  assumes "lq_rep (pool_tasks pool) (t # ts)"
  shows "\<exists>pool'. worker_step pool = (Run_task t, pool') \<and> lq_rep (pool_tasks pool') ts \<and>
           pool_shutdown pool' = pool_shutdown pool"
  using lq.rep_pop [OF assms] lq_rep_empty_head [OF assms] by (auto simp: worker_step_def)

lemma worker_step_exit:
  "lq_rep (pool_tasks pool) [] \<Longrightarrow> pool_shutdown pool \<Longrightarrow> worker_step pool = (Worker_exit, pool)"
  using lq_rep_empty_head [of "pool_tasks pool" "[]"] by (simp add: worker_step_def)

lemma workers_run_all:
  "lq_rep (pool_tasks pool) ts \<Longrightarrow>
     \<exists>pool'. workers_run (length ts) pool = (map Run_task ts, pool') \<and> lq_rep (pool_tasks pool') [] \<and>
       pool_shutdown pool' = pool_shutdown pool"
proof (induction ts arbitrary: pool)
  case (Cons t ts)
  from worker_step_run [OF Cons.prems] obtain p where
    p: "worker_step pool = (Run_task t, p)" "lq_rep (pool_tasks p) ts" "pool_shutdown p = pool_shutdown pool" by blast
  from Cons.IH [OF p(2)] p show ?case by auto
qed simp

lemma add_tasks_rep:
  "lq_rep (pool_tasks pool) xs \<Longrightarrow>
     lq_rep (pool_tasks (fold (\<lambda>t p. threadpool_add_task p t) ts pool)) (xs @ ts) \<and>
     pool_shutdown (fold (\<lambda>t p. threadpool_add_task p t) ts pool) = pool_shutdown pool"
proof (induction ts arbitrary: pool xs)
  case (Cons t ts)
  from lq.rep_push [OF Cons.prems, of t] have "lq_rep (pool_tasks (threadpool_add_task pool t)) (xs @ [t])"
    by (simp add: threadpool_add_task_def)
  from Cons.IH [OF this] show ?case by (simp add: threadpool_add_task_def)
qed simp

section \<open>Properties\<close>

text \<open>
  C25: the result queue, a linked list with head and tail pointers, is a first-in
  first-out queue: for every sequence of pushes and pops on a new queue, the messages
  popped followed by the messages left, which a walk along the nodes finds, are the
  messages pushed.
\<close>

theorem result_queue_fifo:
  assumes "queue_run ResultQueuePush ResultQueuePop ResultQueueInit ops = (q, out)"
  shows "\<exists>rest. lq_walk (rq_list q) (q_head (rq_list q)) = Some rest \<and> enqueued ops = out @ rest \<and>
           ResultQueueIsEmpty (Some q) = (rest = [])"
  using rq.run_fifo_order [OF rq.rep_new assms]
  by (auto simp: rq_rep_def lq_walk_rep ResultQueueIsEmpty_def lq_rep_empty_head)

theorem result_queue_fifo_witness:
  "\<exists>q out rest. queue_run ResultQueuePush ResultQueuePop ResultQueueInit
       [Deq, Enq (NewMsg kv_get 1 kv_status_ok 9), Enq (NewMsg kv_put 2 kv_status_ok 9), Deq] = (q, out) \<and>
     lq_walk (rq_list q) (q_head (rq_list q)) = Some rest \<and>
     [NewMsg kv_get 1 kv_status_ok 9, NewMsg kv_put 2 kv_status_ok 9] = out @ rest"
proof -
  let ?ops = "[Deq, Enq (NewMsg kv_get 1 kv_status_ok 9), Enq (NewMsg kv_put 2 kv_status_ok 9), Deq]"
  obtain q out where run: "queue_run ResultQueuePush ResultQueuePop ResultQueueInit ?ops = (q, out)"
    by (metis prod.collapse)
  from result_queue_fifo [OF run] run show ?thesis by auto
qed


end
