(* ===== verification/NR_Service.thy ===== *)
theory NR_Service
  imports NR_Engine NR_Queue
begin

text \<open>
  The storage process and its clients: \<^verbatim>\<open>nr_am/src/nram_storage/rocks_service.c\<close> (request
  handlers, result queue, main loop) and \<^verbatim>\<open>rocks_handler.c\<close> (the calls of the backends).

  The state is the shared memory and the storage process together: the request channel, the
  response channel of every backend by process id, the database and the result queue. The
  blocking calls take their schedules; \<open>slack\<close> is the memory readable behind a heap buffer.
\<close>

record 'db service =
  sv_running :: bool
  sv_chan :: "kv_channel option"
  sv_resp :: "u32 \<Rightarrow> kv_channel option"
  sv_db :: 'db
  sv_results :: result_queue

section \<open>Request handlers\<close>

text \<open>The memory a message's entity pointer gives access to.\<close>

definition entity_mem :: "byte list \<Rightarrow> kv_msg \<Rightarrow> byte list" where
  "entity_mem slack m = (case entity m of None \<Rightarrow> [] | Some e \<Rightarrow> e @ slack)"

definition handle_kv_get ::
  "('db, 'it) rocksdb_api \<Rightarrow> byte list \<Rightarrow> 'db \<Rightarrow> kv_msg \<Rightarrow> nr_error + kv_msg" where
  "handle_kv_get api slack db msg =
     (let key_len = unat (entitySize msg) in
      ebind (tkey_deserialize (entity_mem slack msg) key_len) (\<lambda>key.
      ebind (rocksengine_get api slack db key) (\<lambda>value.
        (let resp = NewMsg kv_get (tableOid key) kv_status_ok (respChannel msg) in
         ebind (tvalue_serialize value) (\<lambda>val.
           Inr (resp\<lparr>entity := Some val, entitySize := of_nat (length val), relId := tableOid key\<rparr>))))))"

definition handle_kv_put ::
  "('db, 'it) rocksdb_api \<Rightarrow> byte list \<Rightarrow> 'db \<Rightarrow> kv_msg \<Rightarrow> nr_error + (kv_msg option \<times> 'db)" where
  "handle_kv_put api slack db msg =
     (let total_len = unat (entitySize msg); buf = entity_mem slack msg in
      if total_len < 8 then Inr (None, db)
      else ebind (rd_word buf 0) (\<lambda>key_len_w :: u64.
        (let key_len = unat key_len_w in
         if total_len < (8 + key_len) mod 2 ^ 64 then Inr (None, db)
         else ebind (tkey_deserialize (drop 8 buf) key_len) (\<lambda>key.
           (let value_len = size_sub (size_sub total_len key_len) 8 in
            ebind (tvalue_deserialize (drop (8 + key_len) buf) value_len) (\<lambda>value.
              ebind (rocksengine_put api db key value) (\<lambda>db'.
                Inr (Some ((NewMsg kv_put (relId msg) kv_status_ok (respChannel msg))
                       \<lparr>op := KVOp_code kv_put, relId := tableOid key\<rparr>), db')))))))) "

text \<open>The serialized rows of a range response, each with the two lengths.\<close>

definition serialize_row :: "nram_key \<times> nram_value \<Rightarrow> nr_error + byte list" where
  "serialize_row kv =
     (let kbuf = tkey_serialize (fst kv) in
      ebind (tvalue_serialize (snd kv)) (\<lambda>vbuf.
        Inr (le_bytes (of_nat (length kbuf) :: u64) @ kbuf @ le_bytes (of_nat (length vbuf) :: u64) @ vbuf)))"

definition handle_kv_range_scan ::
  "('db, 'it) rocksdb_api \<Rightarrow> byte list \<Rightarrow> 'db \<Rightarrow> kv_msg \<Rightarrow> (nr_error + kv_msg) option" where
  "handle_kv_range_scan api slack db msg =
     (let buf = entity_mem slack msg in
      case ebind (rd_word buf 0) (\<lambda>key_len_1 :: u64.
             ebind (tkey_deserialize (drop 8 buf) (unat key_len_1)) (\<lambda>start_key.
             ebind (rd_word buf (8 + unat key_len_1)) (\<lambda>key_len_2 :: u64.
             ebind (tkey_deserialize (drop (8 + unat key_len_1 + 8) buf) (unat key_len_2)) (\<lambda>end_key.
               Inr (start_key, end_key))))) of
        Inl e \<Rightarrow> Some (Inl e)
      | Inr (start_key, end_key) \<Rightarrow>
          Option.bind (rocksengine_range_scan api slack db start_key end_key) (\<lambda>scan.
            Some (ebind scan (\<lambda>results.
              ebind (mapE serialize_row results) (\<lambda>rows.
                (let total_len = 4 + sum_list (map length rows) in
                 ebind (palloc total_len) (\<lambda>_.
                   Inr ((NewMsg kv_range (tableOid start_key) kv_status_ok (respChannel msg))
                     \<lparr>entitySize := of_nat total_len,
                      entity := Some (le_bytes (of_nat (length results) :: u32) @ concat rows)\<rparr>))))))))"

text \<open>\<^verbatim>\<open>process_request\<close>: dispatch on the operation, and queue the response.\<close>

definition process_request ::
  "('db, 'it) rocksdb_api \<Rightarrow> byte list \<Rightarrow> 'db \<times> result_queue \<Rightarrow> kv_msg \<Rightarrow>
   (nr_error + ('db \<times> result_queue)) option" where
  "process_request api slack st msg =
     (let (db, rq) = st in
      Option.bind
        (case KVOp_of (op msg) of
           Some kv_get \<Rightarrow> Some (ebind (handle_kv_get api slack db msg) (\<lambda>resp. Inr (Some resp, db)))
         | Some kv_put \<Rightarrow> Some (handle_kv_put api slack db msg)
         | Some kv_range \<Rightarrow>
             Option.bind (handle_kv_range_scan api slack db msg) (\<lambda>r. Some (ebind r (\<lambda>resp. Inr (Some resp, db))))
         | _ \<Rightarrow> Some (Inr (None, db)))
        (\<lambda>r. case r of
           Inl e \<Rightarrow> Some (Inl e)
         | Inr (None, db') \<Rightarrow> Some (Inr (db', rq))
         | Inr (Some resp, db') \<Rightarrow>
             (let rq' = ResultQueuePush rq resp in
              Option.bind (PrintResultQueue rq') (\<lambda>p. Some (ebind p (\<lambda>_. Inr (db', rq')))))))"

section \<open>The main loop\<close>

text \<open>
  \<^verbatim>\<open>ResultQueueClear\<close> sends every queued response to the channel of its backend. \<open>sched\<close> gives
  the schedule of the blocking push to each channel.
\<close>

partial_function (option) ResultQueueClear ::
  "(u32 \<Rightarrow> wakeup list) \<Rightarrow> (u32 \<Rightarrow> kv_channel option) \<Rightarrow> result_queue \<Rightarrow>
   ((nr_error + unit) \<times> (u32 \<Rightarrow> kv_channel option) \<times> result_queue) option" where
  "ResultQueueClear sched chans q =
     (if ResultQueueIsEmpty (Some q) then Some (Inr (), chans, q)
      else case ResultQueuePop q of
        None \<Rightarrow> ResultQueueClear sched chans q
      | Some (resp, q') \<Rightarrow>
          (case KVChannelInit False (chans (respChannel resp)) of
             Inl e \<Rightarrow> Some (Inl e, chans, q')
           | Inr ch \<Rightarrow>
               (case KVChannelPushMsg ch resp (-1) (sched (respChannel resp)) of
                  (Inl e, ch') \<Rightarrow> Some (Inl e, chans(respChannel resp := Some ch'), q')
                | (Inr _, ch') \<Rightarrow> ResultQueueClear sched (chans(respChannel resp := Some ch')) q')))"

definition ROCKSDB_CHANNEL_DEFAULT_TIMEOUT :: int where
  "ROCKSDB_CHANNEL_DEFAULT_TIMEOUT = 1"

text \<open>The start of \<^verbatim>\<open>run_rocks_no_thread\<close>, one pass of its loop, and the end.\<close>

definition run_rocks_start :: "'db \<Rightarrow> (u32 \<Rightarrow> kv_channel option) \<Rightarrow> 'db service" where
  "run_rocks_start db resp =
     \<lparr>sv_running = True, sv_chan = Some fresh_channel, sv_resp = resp, sv_db = db, sv_results = ResultQueueInit\<rparr>"

definition serve_once ::
  "('db, 'it) rocksdb_api \<Rightarrow> byte list \<Rightarrow> wakeup list \<Rightarrow> (u32 \<Rightarrow> wakeup list) \<Rightarrow> 'db service \<Rightarrow>
   ((nr_error + bool) \<times> 'db service) option" where
  "serve_once api slack ws sched sv =
     (if \<not> sv_running sv then Some (Inr False, sv)
      else case sv_chan sv of
        None \<Rightarrow> Some (Inl Bad_memory, sv)
      | Some ch \<Rightarrow>
          (let (r, ch') = KVChannelPopMsg ch ROCKSDB_CHANNEL_DEFAULT_TIMEOUT ws; sv1 = sv\<lparr>sv_chan := Some ch'\<rparr> in
           case r of
             Inl e \<Rightarrow> Some (Inl e, sv1)
           | Inr None \<Rightarrow> Some (Inr True, sv1)
           | Inr (Some msg) \<Rightarrow>
               if op msg = KVOp_code kv_close then Some (Inr False, sv1)
               else Option.bind (process_request api slack (sv_db sv1, sv_results sv1) msg) (\<lambda>p.
                 case p of
                   Inl e \<Rightarrow> Some (Inl e, sv1)
                 | Inr (db, rq) \<Rightarrow>
                     Option.bind (ResultQueueClear sched (sv_resp sv1) rq) (\<lambda>(c, resp, rq').
                       (let sv2 = sv1\<lparr>sv_db := db, sv_resp := resp, sv_results := rq'\<rparr> in
                        case c of Inl e \<Rightarrow> Some (Inl e, sv2) | Inr _ \<Rightarrow> Some (Inr True, sv2))))))"

text \<open>
  The loop of \<^verbatim>\<open>run_rocks\<close> hands the request to the thread pool instead, and a worker thread
  processes it later.
\<close>

definition clear_results ::
  "(u32 \<Rightarrow> wakeup list) \<Rightarrow> 'db service \<Rightarrow> ((nr_error + bool) \<times> 'db service) option" where
  "clear_results sched sv =
     Option.bind (ResultQueueClear sched (sv_resp sv) (sv_results sv)) (\<lambda>(c, resp, rq).
       (let sv' = sv\<lparr>sv_resp := resp, sv_results := rq\<rparr> in
        case c of Inl e \<Rightarrow> Some (Inl e, sv') | Inr _ \<Rightarrow> Some (Inr True, sv')))"

definition serve_once_threads ::
  "wakeup list \<Rightarrow> (u32 \<Rightarrow> wakeup list) \<Rightarrow> kv_msg thread_pool \<Rightarrow> 'db service \<Rightarrow>
   kv_msg thread_pool \<times> ((nr_error + bool) \<times> 'db service) option" where
  "serve_once_threads ws sched pool sv =
     (if \<not> sv_running sv then (pool, Some (Inr False, sv))
      else case sv_chan sv of
        None \<Rightarrow> (pool, Some (Inl Bad_memory, sv))
      | Some ch \<Rightarrow>
          (let (r, ch') = KVChannelPopMsg ch ROCKSDB_CHANNEL_DEFAULT_TIMEOUT ws; sv1 = sv\<lparr>sv_chan := Some ch'\<rparr> in
           case r of
             Inl e \<Rightarrow> (pool, Some (Inl e, sv1))
           | Inr None \<Rightarrow> (pool, clear_results sched sv1)
           | Inr (Some msg) \<Rightarrow>
               if op msg = KVOp_code kv_close then (pool, Some (Inr False, sv1))
               else (threadpool_add_task pool msg, clear_results sched sv1)))"

definition worker_turn ::
  "('db, 'it) rocksdb_api \<Rightarrow> byte list \<Rightarrow> kv_msg thread_pool \<Rightarrow> 'db service \<Rightarrow>
   kv_msg thread_pool \<times> ((nr_error + unit) \<times> 'db service) option" where
  "worker_turn api slack pool sv =
     (case worker_step pool of
        (Run_task msg, pool') \<Rightarrow>
          (pool', Option.bind (process_request api slack (sv_db sv, sv_results sv) msg) (\<lambda>p.
             case p of Inl e \<Rightarrow> Some (Inl e, sv) | Inr (db, rq) \<Rightarrow> Some (Inr (), sv\<lparr>sv_db := db, sv_results := rq\<rparr>)))
      | (_, pool') \<Rightarrow> (pool', Some (Inr (), sv)))"

definition run_rocks_finish :: "'db service \<Rightarrow> 'db service" where
  "run_rocks_finish sv = sv\<lparr>sv_running := False, sv_chan := KVChannelDestroy (sv_chan sv)\<rparr>"

definition terminate_rocks :: "'db service \<Rightarrow> 'db service" where
  "terminate_rocks sv = sv\<lparr>sv_running := False, sv_chan := map_option TerminateChannel (sv_chan sv)\<rparr>"

section \<open>Clients\<close>

text \<open>
  A backend has a process id, and its response channel is created at its first request. The
  two static pointers \<^verbatim>\<open>RespChannel\<close> and \<^verbatim>\<open>ServerChannel\<close> only cache addresses of segments that
  are never removed. \<open>env\<close> is what the other processes do between the request and the last
  attempt to receive the response.
\<close>

record client =
  MyProcPid :: u32
  resp_open :: bool

definition GetRespChannel :: "client \<Rightarrow> 'db service \<Rightarrow> client \<times> 'db service" where
  "GetRespChannel cl sv =
     (if resp_open cl then (cl, sv)
      else (cl\<lparr>resp_open := True\<rparr>, sv\<lparr>sv_resp := (sv_resp sv)(MyProcPid cl := Some fresh_channel)\<rparr>))"

definition GetServerChannel :: "'db service \<Rightarrow> nr_error + kv_channel" where
  "GetServerChannel sv = KVChannelInit False (sv_chan sv)"

definition CloseRespChannel :: "client \<Rightarrow> 'db service \<Rightarrow> client \<times> 'db service" where
  "CloseRespChannel cl sv =
     (if resp_open cl
      then (cl\<lparr>resp_open := False\<rparr>,
            sv\<lparr>sv_resp := (sv_resp sv)(MyProcPid cl := KVChannelDestroy (sv_resp sv (MyProcPid cl)))\<rparr>)
      else (cl, sv))"

text \<open>Send a request and wait for the response; \<open>None\<close> for the response is a null pointer.\<close>

definition send_request :: "kv_msg \<Rightarrow> wakeup list \<Rightarrow> 'db service \<Rightarrow> (nr_error + bool) \<times> 'db service" where
  "send_request msg ws sv =
     (case GetServerChannel sv of
        Inl e \<Rightarrow> (Inl e, sv)
      | Inr ch \<Rightarrow> (let (r, ch') = KVChannelPushMsg ch msg (-1) ws in (r, sv\<lparr>sv_chan := Some ch'\<rparr>)))"

definition await_response :: "u32 \<Rightarrow> 'db service \<Rightarrow> (nr_error + kv_msg option) \<times> 'db service" where
  "await_response pid sv =
     (case sv_resp sv pid of
        None \<Rightarrow> (Inl Bad_memory, sv)
      | Some ch \<Rightarrow> (let (r, ch') = KVChannelPopMsg ch (-1) [] in (r, sv\<lparr>sv_resp := (sv_resp sv)(pid := Some ch')\<rparr>)))"

definition response_ok :: "KVOp \<Rightarrow> kv_msg option \<Rightarrow> bool" where
  "response_ok c resp =
     (case resp of None \<Rightarrow> False | Some r \<Rightarrow> status r = KVMsgStatus_code kv_status_ok \<and> op r = KVOp_code c)"

definition put_request :: "client \<Rightarrow> nram_key \<Rightarrow> byte list \<Rightarrow> kv_msg" where
  "put_request cl key val =
     (let kb = tkey_serialize key in
      (NewMsg kv_put (tableOid key) kv_status_none (MyProcPid cl))
        \<lparr>entitySize := of_nat (length kb + length val + 8),
         entity := Some (le_bytes (of_nat (length kb) :: u64) @ kb @ val)\<rparr>)"

definition RocksClientPut ::
  "wakeup list \<Rightarrow> ('db service \<Rightarrow> 'db service) \<Rightarrow> client \<Rightarrow> nram_key \<Rightarrow> nram_value \<Rightarrow> 'db service \<Rightarrow>
   (nr_error + bool) \<times> client \<times> 'db service" where
  "RocksClientPut ws env cl key value sv =
     (case GetServerChannel sv of
        Inl e \<Rightarrow> (Inl e, cl, sv)
      | Inr _ \<Rightarrow>
          (let (cl1, sv1) = GetRespChannel cl sv in
           case ebind (tvalue_serialize value) (\<lambda>val. ebind (palloc (20 + length val)) (\<lambda>_. Inr val)) of
             Inl e \<Rightarrow> (Inl e, cl1, sv1)
           | Inr val \<Rightarrow>
               (case send_request (put_request cl1 key val) ws sv1 of
                  (Inl e, sv2) \<Rightarrow> (Inl e, cl1, sv2)
                | (Inr False, sv2) \<Rightarrow> (Inr False, cl1, sv2)
                | (Inr True, sv2) \<Rightarrow>
                    (case await_response (MyProcPid cl1) (env sv2) of
                       (Inl e, sv3) \<Rightarrow> (Inl e, cl1, sv3)
                     | (Inr resp, sv3) \<Rightarrow>
                         if response_ok kv_put resp then (Inr True, cl1, sv3)
                         else (ebind (PrintKVMsg resp) (\<lambda>_. Inr False), cl1, sv3)))))"

definition get_request :: "client \<Rightarrow> nram_key \<Rightarrow> kv_msg" where
  "get_request cl key =
     (let kb = tkey_serialize key in
      (NewMsg kv_get (tableOid key) kv_status_none (MyProcPid cl))\<lparr>entitySize := of_nat (length kb), entity := Some kb\<rparr>)"

definition RocksClientGet ::
  "byte list \<Rightarrow> wakeup list \<Rightarrow> ('db service \<Rightarrow> 'db service) \<Rightarrow> client \<Rightarrow> nram_key \<Rightarrow> 'db service \<Rightarrow>
   (nr_error + nram_value option) \<times> client \<times> 'db service" where
  "RocksClientGet slack ws env cl key sv =
     (case GetServerChannel sv of
        Inl e \<Rightarrow> (Inl e, cl, sv)
      | Inr _ \<Rightarrow>
          (let (cl1, sv1) = GetRespChannel cl sv in
           case send_request (get_request cl1 key) ws sv1 of
             (Inl e, sv2) \<Rightarrow> (Inl e, cl1, sv2)
           | (Inr False, sv2) \<Rightarrow> (Inr None, cl1, sv2)
           | (Inr True, sv2) \<Rightarrow>
               (case await_response (MyProcPid cl1) (env sv2) of
                  (Inl e, sv3) \<Rightarrow> (Inl e, cl1, sv3)
                | (Inr resp, sv3) \<Rightarrow>
                    (case resp of
                       Some r \<Rightarrow>
                         (if response_ok kv_get resp
                          then (ebind (tvalue_deserialize (entity_mem slack r) (unat (entitySize r))) (\<lambda>v. Inr (Some v)), cl1, sv3)
                          else (ebind (PrintKVMsg resp) (\<lambda>_. Inl (Elog ''[NRAM] Rocks GET failed'')), cl1, sv3))
                     | None \<Rightarrow> (ebind (PrintKVMsg resp) (\<lambda>_. Inl (Elog ''[NRAM] Rocks GET failed'')), cl1, sv3)))))"

definition range_request :: "client \<Rightarrow> nram_key \<Rightarrow> nram_key \<Rightarrow> kv_msg" where
  "range_request cl lo hi =
     (let s = tkey_serialize lo; e = tkey_serialize hi in
      (NewMsg kv_range (tableOid lo) kv_status_none (MyProcPid cl))
        \<lparr>entitySize := of_nat (8 + length s + 8 + length e),
         entity := Some (le_bytes (of_nat (length s) :: u64) @ s @ le_bytes (of_nat (length e) :: u64) @ e)\<rparr>)"

fun parse_rows :: "nat \<Rightarrow> byte list \<Rightarrow> nr_error + (nram_key \<times> nram_value) list" where
  "parse_rows 0 mem = Inr []"
| "parse_rows (Suc n) mem =
     ebind (rd_word mem 0) (\<lambda>klen :: u64.
     ebind (tkey_deserialize (drop 8 mem) (unat klen)) (\<lambda>key.
     ebind (rd_word mem (8 + unat klen)) (\<lambda>vlen :: u64.
     ebind (tvalue_deserialize (drop (8 + unat klen + 8) mem) (unat vlen)) (\<lambda>value.
     ebind (parse_rows n (drop (8 + unat klen + 8 + unat vlen) mem)) (\<lambda>rows. Inr ((key, value) # rows))))))"

text \<open>The result \<open>None\<close> is the return value \<^verbatim>\<open>false\<close>; the arrays are allocated with 8 bytes per row.\<close>

definition RocksClientRangeScan ::
  "byte list \<Rightarrow> wakeup list \<Rightarrow> ('db service \<Rightarrow> 'db service) \<Rightarrow> client \<Rightarrow> nram_key \<Rightarrow> nram_key \<Rightarrow> 'db service \<Rightarrow>
   (nr_error + (nram_key \<times> nram_value) list option) \<times> client \<times> 'db service" where
  "RocksClientRangeScan slack ws env cl lo hi sv =
     (case GetServerChannel sv of
        Inl e \<Rightarrow> (Inl e, cl, sv)
      | Inr _ \<Rightarrow>
          (let (cl1, sv1) = GetRespChannel cl sv in
           case send_request (range_request cl1 lo hi) ws sv1 of
             (Inl e, sv2) \<Rightarrow> (Inl e, cl1, sv2)
           | (Inr False, sv2) \<Rightarrow> (Inr None, cl1, sv2)
           | (Inr True, sv2) \<Rightarrow>
               (case await_response (MyProcPid cl1) (env sv2) of
                  (Inl e, sv3) \<Rightarrow> (Inl e, cl1, sv3)
                | (Inr None, sv3) \<Rightarrow> (Inr None, cl1, sv3)
                | (Inr (Some r), sv3) \<Rightarrow>
                    (if response_ok kv_range (Some r)
                     then (ebind (rd_word (entity_mem slack r) 0) (\<lambda>n :: u32.
                             ebind (palloc (8 * unat n)) (\<lambda>_.
                             ebind (parse_rows (unat n) (drop 4 (entity_mem slack r))) (\<lambda>rows. Inr (Some rows)))), cl1, sv3)
                     else (Inr None, cl1, sv3)))))"

section \<open>One request through the service\<close>

lemma push_msg_empty:
  assumes "holds_msgs ch []" "sendable m"
  shows "\<exists>ch'. KVChannelPushMsg ch m timeout ws = (Inr True, ch') \<and> holds_msgs ch' [m]"
proof -
  have fit: "length (chan_bytes ch) + length (wire m) \<le> KV_CHANNEL_BUFSIZE - 1" "length (wire m) \<le> KV_CHANNEL_BUFSIZE"
    using assms wire_fits [OF assms(2)] by (simp_all add: holds_msgs_def KV_CHANNEL_BUFSIZE_def del: length_chan_bytes)
  then obtain ch' where push: "try_push ch (wire m) = Some ch'"
    using try_push_iff [of ch "wire m"] by blast
  have "push_loop ch (wire m) timeout ws = (Inr True, ch')"
    using push assms(1) by (subst push_loop.simps) (simp add: holds_msgs_def)
  with fit(2) assms(2) have "KVChannelPushMsg ch m timeout ws = (Inr True, ch')"
    by (simp add: KVChannelPushMsg_def KVChannelPush_def assemble_msg_wire)
  with try_push_law [OF _ push] assms show ?thesis by (simp add: holds_msgs_def)
qed

lemma pop_msg_front:
  assumes "holds_msgs ch (m # ms)"
  shows "\<exists>ch'. KVChannelPopMsg ch timeout ws = (Inr (Some (received m)), ch') \<and> holds_msgs ch' ms"
proof -
  from assms have h: "chan_inv ch" "sendable m" "chan_bytes ch = wire m @ concat (map wire ms)"
    "is_running ch" "list_all sendable ms" by (auto simp: holds_msgs_def)
  from try_pop_msg_wire [OF h(1-3)] h(4,5) show ?thesis
    by (subst KVChannelPopMsg.simps) (auto simp: holds_msgs_def)
qed

text \<open>
  The service with the requests \<open>reqs\<close> in the request channel and the responses \<open>resps\<close> in the
  channel of the backend \<open>pid\<close>, and no response in the result queue.
\<close>

definition service_holds :: "u32 \<Rightarrow> kv_msg list \<Rightarrow> kv_msg list \<Rightarrow> 'db service \<Rightarrow> bool" where
  "service_holds pid reqs resps sv =
     (sv_running sv \<and> (\<exists>ch. sv_chan sv = Some ch \<and> holds_msgs ch reqs) \<and>
      (\<exists>rc. sv_resp sv pid = Some rc \<and> holds_msgs rc resps) \<and> rq_rep (sv_results sv) [])"

text \<open>A backend's calls leave the response channels of the other backends alone.\<close>

definition same_others :: "u32 \<Rightarrow> 'db service \<Rightarrow> 'db service \<Rightarrow> bool" where
  "same_others pid sv sv' = (\<forall>q. q \<noteq> pid \<longrightarrow> sv_resp sv' q = sv_resp sv q)"

lemma same_others_trans [trans]: "same_others pid a b \<Longrightarrow> same_others pid b c \<Longrightarrow> same_others pid a c"
  by (simp add: same_others_def)

lemma send_request_ok:
  assumes "service_holds pid [] [] sv" "sendable m"
  shows "\<exists>sv'. send_request m ws sv = (Inr True, sv') \<and> service_holds pid [m] [] sv' \<and> sv_db sv' = sv_db sv \<and>
           same_others pid sv sv'"
proof -
  from assms(1) obtain ch where ch: "sv_chan sv = Some ch" "holds_msgs ch []" by (auto simp: service_holds_def)
  from push_msg_empty [OF ch(2) assms(2), of "-1" ws] obtain ch' where
    "KVChannelPushMsg ch m (-1) ws = (Inr True, ch')" "holds_msgs ch' [m]" by blast
  with ch assms(1) show ?thesis
    by (simp add: send_request_def GetServerChannel_def KVChannelInit_def service_holds_def same_others_def)
qed

lemma await_response_ok:
  assumes "service_holds pid reqs (m # ms) sv"
  shows "\<exists>sv'. await_response pid sv = (Inr (Some (received m)), sv') \<and> service_holds pid reqs ms sv' \<and> sv_db sv' = sv_db sv \<and>
           same_others pid sv sv'"
proof -
  from assms obtain rc where rc: "sv_resp sv pid = Some rc" "holds_msgs rc (m # ms)" by (auto simp: service_holds_def)
  from pop_msg_front [OF rc(2), of "-1" "[]"] obtain rc' where
    "KVChannelPopMsg rc (-1) [] = (Inr (Some (received m)), rc')" "holds_msgs rc' ms" by blast
  with rc assms show ?thesis by (simp add: await_response_def service_holds_def same_others_def)
qed

lemma ResultQueueClear_empty: "rq_rep q [] \<Longrightarrow> ResultQueueClear sched chans q = Some (Inr (), chans, q)"
  using lq_rep_empty_head [of "rq_list q" "[]"]
  by (subst ResultQueueClear.simps) (simp add: ResultQueueIsEmpty_def rq_rep_def)

lemma rq_not_empty: "rq_rep q (m # ms) \<Longrightarrow> \<not> ResultQueueIsEmpty (Some q)"
  using lq_rep_empty_head [of "rq_list q" "m # ms"] by (simp add: ResultQueueIsEmpty_def rq_rep_def)

lemma ResultQueueClear_one:
  assumes "rq_rep q [resp]" "chans (respChannel resp) = Some ch" "holds_msgs ch []" "sendable resp"
  shows "\<exists>ch' q'. ResultQueueClear sched chans q = Some (Inr (), chans(respChannel resp := Some ch'), q') \<and>
           rq_rep q' [] \<and> holds_msgs ch' [resp]"
proof -
  obtain q' where q': "ResultQueuePop q = Some (resp, q')" "rq_rep q' []"
    using rq.rep_pop [OF assms(1)] by blast
  obtain ch' where ch': "KVChannelPushMsg ch resp (-1) (sched (respChannel resp)) = (Inr True, ch')" "holds_msgs ch' [resp]"
    using push_msg_empty [OF assms(3,4)] by blast
  have "ResultQueueClear sched chans q = Some (Inr (), chans(respChannel resp := Some ch'), q')"
    using q' ch' assms(2) rq_not_empty [OF assms(1)] ResultQueueClear_empty [OF q'(2)]
    by (subst ResultQueueClear.simps) (simp add: KVChannelInit_def)
  with q' ch' show ?thesis by blast
qed

text \<open>One turn of the storage process.\<close>

definition storage_turn ::
  "('db, 'it) rocksdb_api \<Rightarrow> byte list \<Rightarrow> wakeup list \<Rightarrow> (u32 \<Rightarrow> wakeup list) \<Rightarrow> 'db service \<Rightarrow> 'db service" where
  "storage_turn api slack ws sched sv =
     (case serve_once api slack ws sched sv of Some (_, sv') \<Rightarrow> sv' | None \<Rightarrow> sv)"

lemma serve_once_response:
  assumes sv: "service_holds pid [m] [] sv" and op: "op m \<noteq> KVOp_code kv_close"
    and req: "process_request api slack (sv_db sv, sv_results sv) (received m) =
                Some (Inr (db', ResultQueuePush (sv_results sv) resp))"
    and resp: "sendable resp" "respChannel resp = pid"
  shows "\<exists>sv'. serve_once api slack ws sched sv = Some (Inr True, sv') \<and> service_holds pid [] [resp] sv' \<and> sv_db sv' = db' \<and>
           same_others pid sv sv'"
proof -
  from sv obtain ch rc where ch: "sv_chan sv = Some ch" "holds_msgs ch [m]"
    and rc: "sv_resp sv pid = Some rc" "holds_msgs rc []" and rq: "rq_rep (sv_results sv) []"
    by (auto simp: service_holds_def)
  from pop_msg_front [OF ch(2), of ROCKSDB_CHANNEL_DEFAULT_TIMEOUT ws] obtain ch' where
    pop: "KVChannelPopMsg ch ROCKSDB_CHANNEL_DEFAULT_TIMEOUT ws = (Inr (Some (received m)), ch')" "holds_msgs ch' []" by blast
  have "rq_rep (ResultQueuePush (sv_results sv) resp) [resp]"
    using rq.rep_push [OF rq, of resp] by simp
  from ResultQueueClear_one [OF this _ rc(2) resp(1), of "sv_resp sv" sched] rc(1) resp(2) obtain rc' rq' where
    clear: "ResultQueueClear sched (sv_resp sv) (ResultQueuePush (sv_results sv) resp) =
        Some (Inr (), (sv_resp sv)(pid := Some rc'), rq')" "rq_rep rq' []" "holds_msgs rc' [resp]" by auto
  have "op (received m) = op m" by (simp add: received_def)
  with sv ch pop req clear op show ?thesis
    by (simp add: serve_once_def service_holds_def same_others_def)
qed

section \<open>Requests and their responses\<close>

lemma unat_of_nat_64: "n < 2 ^ 64 \<Longrightarrow> unat (of_nat n :: u64) = n"
  by (simp add: unsigned_of_nat take_bit_nat_eq_self)

lemma received_whole: "entity m = Some e \<Longrightarrow> unat (entitySize m) = length e \<Longrightarrow> received m = m"
  by (simp add: received_def)

lemma KVOp_of_code [simp]: "KVOp_of (KVOp_code c) = Some c"
  by (cases c) (simp_all add: KVOp_of_def)

lemma KVOp_of_numeral [simp]: "KVOp_of 4 = Some kv_put" "KVOp_of 5 = Some kv_get" "KVOp_of 12 = Some kv_range"
  by (simp_all add: KVOp_of_def)

definition entity_complete :: "kv_msg \<Rightarrow> bool" where
  "entity_complete m = (case entity m of None \<Rightarrow> True | Some e \<Rightarrow> unat (entitySize m) \<le> length e)"

lemma sendable_complete: "sendable m \<Longrightarrow> entity_complete m"
  by (simp add: sendable_def entity_complete_def)

lemma print_complete: "op m = KVOp_code c \<Longrightarrow> entity_complete m \<Longrightarrow> \<exists>x. PrintKVMsg (Some m) = Inr x"
  by (cases "entity m") (auto simp: PrintKVMsg_def entity_complete_def mem_read_def Let_def)

lemma queue_response:
  assumes "rq_rep rq []" "op resp = KVOp_code c" "entity_complete resp"
  shows "\<exists>p. PrintResultQueue (ResultQueuePush rq resp) = Some (Inr p)"
proof -
  have "rq_rep (ResultQueuePush rq resp) [resp]" using rq.rep_push [OF assms(1), of resp] by simp
  with print_complete [OF assms(2,3)] show ?thesis
    by (auto simp: PrintResultQueue_def rq_rep_def lq_walk_rep)
qed

definition small_value :: "nram_value \<Rightarrow> bool" where
  "small_value v = (storable v \<and> length (v_data v) \<le> 972)"

definition put_response :: "u32 \<Rightarrow> nram_key \<Rightarrow> kv_msg" where
  "put_response pid k = NewMsg kv_put (tableOid k) kv_status_ok pid"

definition get_response :: "u32 \<Rightarrow> nram_key \<Rightarrow> nram_value \<Rightarrow> kv_msg" where
  "get_response pid k v =
     (NewMsg kv_get (tableOid k) kv_status_ok pid)\<lparr>entitySize := of_nat (8 + length (v_data v)), entity := Some (encoded v)\<rparr>"

lemma put_request_wf:
  assumes "small_value v"
  shows "sendable (put_request cl k (encoded v))" "received (put_request cl k (encoded v)) = put_request cl k (encoded v)"
proof -
  have n: "unat (of_nat (28 + length (v_data v)) :: u64) = 28 + length (v_data v)"
    using assms by (intro unat_of_nat_64) (simp add: small_value_def)
  show "sendable (put_request cl k (encoded v))"
    using assms n by (simp add: put_request_def sendable_def small_value_def MSG_SIZE_def Let_def add.commute)
  show "received (put_request cl k (encoded v)) = put_request cl k (encoded v)"
    using n by (intro received_whole [of _ "le_bytes (12 :: u64) @ tkey_serialize k @ encoded v"])
      (simp_all add: put_request_def Let_def add.commute)
qed

lemma sendable_put_response: "sendable (put_response pid k)"
  by (simp add: put_response_def NewMsg_def sendable_def MSG_SIZE_def)

lemma process_put:
  assumes rq: "rq_rep rq []" and v: "small_value v" and sl: "2 \<le> length slack"
    and db': "rocksdb_put api db (tkey_serialize k) (encoded v) = Inr db'"
  shows "process_request api slack (db, rq) (put_request cl k (encoded v)) =
           Some (Inr (db', ResultQueuePush rq (put_response (MyProcPid cl) k)))"
proof -
  let ?m = "put_request cl k (encoded v)" and ?w = "read_row slack v"
  have vs: "storable v" using v by (simp add: small_value_def)
  have n: "unat (of_nat (28 + length (v_data v)) :: u64) = 28 + length (v_data v)"
    using v by (intro unat_of_nat_64) (simp add: small_value_def)
  have mem: "entity_mem slack ?m = le_bytes (12 :: u64) @ tkey_serialize k @ encoded v @ slack"
    by (simp add: entity_mem_def put_request_def Let_def)
  have klen: "rd_word (entity_mem slack ?m) 0 = Inr (12 :: u64)"
    using rd_word_append [of 0 "[]" "12 :: u64"] by (simp add: mem)
  have key: "tkey_deserialize (drop 8 (entity_mem slack ?m)) 12 = Inr k"
    by (simp add: mem)
  have val: "tvalue_deserialize (drop 20 (entity_mem slack ?m)) (8 + length (v_data v)) = Inr ?w"
    using deserialize_storable [OF vs sl] by (simp add: mem read_row_def)
  have ser: "tvalue_serialize ?w = Inr (encoded v)"
    using vs tvalue_serialize_slack [of v "take 2 slack"] by (simp add: storable_def read_row_def)
  have put: "rocksengine_put api db k ?w = Inr db'"
    using db' ser by (simp add: rocksengine_put_def)
  have size: "unat (entitySize ?m) = 28 + length (v_data v)"
    using n by (simp add: put_request_def Let_def add.commute)
  have resp: "(NewMsg kv_put (relId ?m) kv_status_ok (respChannel ?m))\<lparr>op := KVOp_code kv_put, relId := tableOid k\<rparr>
      = put_response (MyProcPid cl) k"
    by (simp add: put_response_def NewMsg_def put_request_def Let_def)
  have "handle_kv_put api slack db ?m = Inr (Some (put_response (MyProcPid cl) k), db')"
    using klen key val put by (simp add: handle_kv_put_def size resp [symmetric] Let_def)
  moreover have "op ?m = KVOp_code kv_put"
    by (simp add: put_request_def NewMsg_def Let_def)
  moreover obtain p where "PrintResultQueue (ResultQueuePush rq (put_response (MyProcPid cl) k)) = Some (Inr p)"
    using queue_response [OF rq _ sendable_complete [OF sendable_put_response], of "MyProcPid cl" k kv_put]
    by (auto simp: put_response_def NewMsg_def)
  ultimately show ?thesis
    by (simp add: process_request_def)
qed

lemma unat_entity_size: "n \<le> 1000 \<Longrightarrow> unat (of_nat n :: u64) = n"
  by (rule unat_of_nat_64) simp

lemma get_request_wf: "sendable (get_request cl k)" "received (get_request cl k) = get_request cl k"
proof -
  show "sendable (get_request cl k)"
    by (simp add: get_request_def sendable_def MSG_SIZE_def Let_def)
  show "received (get_request cl k) = get_request cl k"
    by (rule received_whole [of _ "tkey_serialize k"]) (simp_all add: get_request_def Let_def)
qed

lemma get_response_wf:
  assumes "small_value v"
  shows "sendable (get_response pid k v)" "received (get_response pid k v) = get_response pid k v"
proof -
  have n: "unat (of_nat (8 + length (v_data v)) :: u64) = 8 + length (v_data v)"
    using assms by (intro unat_entity_size) (simp add: small_value_def)
  show "sendable (get_response pid k v)"
    using assms n by (simp add: get_response_def sendable_def small_value_def MSG_SIZE_def)
  show "received (get_response pid k v) = get_response pid k v"
    using n by (intro received_whole [of _ "encoded v"]) (simp_all add: get_response_def)
qed

lemma process_get:
  assumes st: "store_ok api ents" and rq: "rq_rep rq []" and v: "small_value v" and sl: "2 \<le> length slack"
    and stored: "map_of (ents db) (tkey_serialize k) = Some (encoded v)"
  shows "process_request api slack (db, rq) (get_request cl k) =
             Some (Inr (db, ResultQueuePush rq (get_response (MyProcPid cl) k v)))"
proof -
  have vs: "storable v" using v by (simp add: small_value_def)
  have key: "tkey_deserialize (entity_mem slack (get_request cl k)) 12 = Inr k"
    by (simp add: entity_mem_def get_request_def Let_def)
  have get: "rocksengine_get api slack db k = Inr (read_row slack v)"
    using deserialize_storable [OF vs sl] stored by (simp add: rocksengine_get_eq [OF st] read_row_def)
  have ser: "tvalue_serialize (read_row slack v) = Inr (encoded v)"
    using vs tvalue_serialize_slack [of v "take 2 slack"] by (simp add: storable_def read_row_def)
  have size: "unat (entitySize (get_request cl k)) = 12" by (simp add: get_request_def Let_def)
  have "handle_kv_get api slack db (get_request cl k) = Inr (get_response (MyProcPid cl) k v)"
    using key get ser
    by (simp add: handle_kv_get_def size Let_def) (simp add: get_response_def get_request_def NewMsg_def Let_def)
  moreover have "op (get_request cl k) = 5" by (simp add: get_request_def NewMsg_def Let_def)
  moreover obtain p where "PrintResultQueue (ResultQueuePush rq (get_response (MyProcPid cl) k v)) = Some (Inr p)"
    using queue_response [OF rq _ sendable_complete [OF get_response_wf(1) [OF v, of "MyProcPid cl" k]], where c = kv_get]
    by (auto simp: get_response_def NewMsg_def)
  ultimately show ?thesis by (simp add: process_request_def)
qed

text \<open>The response channel of a client is created empty at the first request.\<close>

definition client_ready :: "client \<Rightarrow> 'db service \<Rightarrow> bool" where
  "client_ready cl sv =
     (sv_running sv \<and> (\<exists>ch. sv_chan sv = Some ch \<and> holds_msgs ch []) \<and> rq_rep (sv_results sv) [] \<and>
      (resp_open cl \<longrightarrow> (\<exists>rc. sv_resp sv (MyProcPid cl) = Some rc \<and> holds_msgs rc [])))"

abbreviation opened :: "client \<Rightarrow> client" where
  "opened cl \<equiv> cl\<lparr>resp_open := True\<rparr>"

lemma open_client:
  assumes "client_ready cl sv"
  shows "\<exists>ch sv1. GetServerChannel sv = Inr ch \<and> GetRespChannel cl sv = (opened cl, sv1) \<and>
           service_holds (MyProcPid cl) [] [] sv1 \<and> sv_db sv1 = sv_db sv \<and> same_others (MyProcPid cl) sv sv1"
  using assms
  by (auto simp: client_ready_def GetServerChannel_def KVChannelInit_def GetRespChannel_def service_holds_def holds_msgs_def
      same_others_def)

lemma holds_ready: "service_holds (MyProcPid cl) [] [] sv \<Longrightarrow> client_ready (opened cl) sv"
  by (auto simp: service_holds_def client_ready_def)

lemma others_ready:
  "client_ready c sv \<Longrightarrow> MyProcPid c \<noteq> pid \<Longrightarrow> service_holds pid [] [] sv' \<Longrightarrow> same_others pid sv sv' \<Longrightarrow> client_ready c sv'"
  by (auto simp: service_holds_def client_ready_def same_others_def)

text \<open>A request, the turn of the storage process, and the response.\<close>

lemma request_response:
  assumes sv: "service_holds pid [] [] sv" and m: "sendable m" "received m = m" "op m \<noteq> KVOp_code kv_close"
    and req: "\<And>rq. rq_rep rq [] \<Longrightarrow> process_request api slack (sv_db sv, rq) m = Some (Inr (db', ResultQueuePush rq resp))"
    and resp: "sendable resp" "respChannel resp = pid"
  shows "\<exists>sv2 sv3. send_request m ws sv = (Inr True, sv2) \<and>
           await_response pid (storage_turn api slack ws' sched sv2) = (Inr (Some (received resp)), sv3) \<and>
           service_holds pid [] [] sv3 \<and> sv_db sv3 = db' \<and> same_others pid sv sv3"
proof -
  obtain sv2 where sv2: "send_request m ws sv = (Inr True, sv2)" "service_holds pid [m] [] sv2" "sv_db sv2 = sv_db sv"
      "same_others pid sv sv2"
    using send_request_ok [OF sv m(1)] by blast
  then have "process_request api slack (sv_db sv2, sv_results sv2) (received m) =
      Some (Inr (db', ResultQueuePush (sv_results sv2) resp))"
    using req m(2) by (simp add: service_holds_def)
  from serve_once_response [OF sv2(2) m(3) this resp, of ws' sched] obtain sv' where
    turn: "storage_turn api slack ws' sched sv2 = sv'" "service_holds pid [] [resp] sv'" "sv_db sv' = db'"
      "same_others pid sv2 sv'"
    by (auto simp: storage_turn_def)
  from await_response_ok [OF turn(2)] turn sv2(1,4) show ?thesis by (auto intro: same_others_trans)
qed

section \<open>Range scans\<close>

lemma serialize_row_ok:
  "storable v \<Longrightarrow> serialize_row (k, read_row slack v) =
     Inr (le_bytes (12 :: u64) @ tkey_serialize k @ le_bytes (of_nat (8 + length (v_data v)) :: u64) @ encoded v)"
  using tvalue_serialize_slack [of v "take 2 slack"]
  by (simp add: serialize_row_def storable_def read_row_def)

definition row_bytes :: "nram_key \<times> nram_value \<Rightarrow> byte list" where
  "row_bytes kv =
     le_bytes (12 :: u64) @ tkey_serialize (fst kv) @ le_bytes (of_nat (8 + length (v_data (snd kv))) :: u64) @ encoded (snd kv)"

lemma length_row_bytes [simp]: "length (row_bytes kv) = 36 + length (v_data (snd kv))"
  by (simp add: row_bytes_def)

lemma serialize_rows:
  "\<forall>kv \<in> set kvs. storable (snd kv) \<Longrightarrow>
     mapE serialize_row (map (\<lambda>(k, v). (k, read_row slack v)) kvs) = Inr (map row_bytes kvs)"
  by (induction kvs) (auto simp: serialize_row_ok row_bytes_def)

text \<open>
  The client reads a value together with the two bytes behind it, which in a range response
  are the first bytes of the next row.
\<close>

fun client_rows :: "byte list \<Rightarrow> (nram_key \<times> nram_value) list \<Rightarrow> (nram_key \<times> nram_value) list" where
  "client_rows slack [] = []"
| "client_rows slack ((k, v) # kvs) = (k, read_row (concat (map row_bytes kvs) @ slack) v) # client_rows slack kvs"

lemma parse_row_bytes:
  assumes "\<forall>kv \<in> set kvs. storable (snd kv)" "2 \<le> length slack"
  shows "parse_rows (length kvs) (concat (map row_bytes kvs) @ slack) = Inr (client_rows slack kvs)"
  using assms(1)
proof (induction kvs)
  case Nil
  then show ?case by simp
next
  case (Cons kv kvs)
  obtain k v where kv: "kv = (k, v)" by force
  let ?rest = "concat (map row_bytes kvs) @ slack" and ?n = "8 + length (v_data v)"
  let ?mem = "row_bytes kv @ ?rest"
  have vs: "storable v" using Cons.prems kv by simp
  have n: "unat (of_nat ?n :: u64) = ?n"
    using vs by (intro unat_of_nat_64) (simp add: storable_def MaxAllocSize_def)
  have klen: "rd_word ?mem 0 = Inr (12 :: u64)"
    using rd_word_append [of 0 "[]" "12 :: u64"] by (simp add: row_bytes_def)
  have key: "tkey_deserialize (drop 8 ?mem) 12 = Inr k"
    by (simp add: row_bytes_def kv)
  have vlen: "rd_word ?mem 20 = Inr (of_nat ?n :: u64)"
    using rd_word_append [of 20 "le_bytes (12 :: u64) @ tkey_serialize k" "of_nat ?n :: u64" "encoded v @ ?rest"]
    by (simp add: row_bytes_def kv)
  have two: "2 \<le> length ?rest" using assms(2) by simp
  have val: "tvalue_deserialize (drop 28 ?mem) ?n = Inr (read_row ?rest v)"
    using deserialize_storable [OF vs two] by (simp add: row_bytes_def kv read_row_def)
  have rest: "drop (28 + ?n) ?mem = ?rest"
    by (simp add: row_bytes_def kv)
  have "parse_rows (length kvs) ?rest = Inr (client_rows slack kvs)"
    using Cons by simp
  then have "parse_rows (Suc (length kvs)) ?mem = Inr ((k, read_row ?rest v) # client_rows slack kvs)"
    using klen key vlen val rest n by simp
  then show ?case using kv by simp
qed

definition rows_in :: "nram_key \<Rightarrow> nram_key \<Rightarrow> (nram_key \<times> nram_value) list \<Rightarrow> (nram_key \<times> nram_value) list" where
  "rows_in lo hi kvs =
     filter (\<lambda>(k, v). tkey_serialize lo \<le> tkey_serialize k \<and> tkey_serialize k < tkey_serialize hi) kvs"

definition range_size :: "(nram_key \<times> nram_value) list \<Rightarrow> nat" where
  "range_size kvs = 4 + sum_list (map (\<lambda>kv. 36 + length (v_data (snd kv))) kvs)"

definition range_response :: "u32 \<Rightarrow> nram_key \<Rightarrow> (nram_key \<times> nram_value) list \<Rightarrow> kv_msg" where
  "range_response pid lo kvs =
     (NewMsg kv_range (tableOid lo) kv_status_ok pid)
       \<lparr>entitySize := of_nat (range_size kvs),
        entity := Some (le_bytes (of_nat (length kvs) :: u32) @ concat (map row_bytes kvs))\<rparr>"

lemma length_rows: "length (concat (map row_bytes kvs)) = range_size kvs - 4"
  by (induction kvs) (simp_all add: range_size_def)

lemma range_request_wf: "sendable (range_request cl lo hi)" "received (range_request cl lo hi) = range_request cl lo hi"
proof -
  show "sendable (range_request cl lo hi)"
    by (simp add: range_request_def sendable_def MSG_SIZE_def Let_def)
  show "received (range_request cl lo hi) = range_request cl lo hi"
    by (rule received_whole [of _ "le_bytes (12 :: u64) @ tkey_serialize lo @ le_bytes (12 :: u64) @ tkey_serialize hi"])
      (simp_all add: range_request_def Let_def)
qed

lemma handle_range:
  assumes db: "rocksdb_ok api ents view" "holds_rows ents db kvs" and sl: "2 \<le> length slack"
    and size: "range_size (rows_in lo hi kvs) \<le> MaxAllocSize"
  shows "handle_kv_range_scan api slack db (range_request cl lo hi) =
           Some (Inr (range_response (MyProcPid cl) lo (rows_in lo hi kvs)))"
proof -
  let ?m = "range_request cl lo hi" and ?kvs = "rows_in lo hi kvs"
  have mem: "entity_mem slack ?m = le_bytes (12 :: u64) @ tkey_serialize lo @ le_bytes (12 :: u64) @ tkey_serialize hi @ slack"
    by (simp add: entity_mem_def range_request_def Let_def)
  have l1: "rd_word (entity_mem slack ?m) 0 = Inr (12 :: u64)"
    using rd_word_append [of 0 "[]" "12 :: u64"] by (simp add: mem)
  have l2: "rd_word (entity_mem slack ?m) 20 = Inr (12 :: u64)"
    using rd_word_append [of 20 "le_bytes (12 :: u64) @ tkey_serialize lo" "12 :: u64" "tkey_serialize hi @ slack"]
    by (simp add: mem)
  have k1: "tkey_deserialize (drop 8 (entity_mem slack ?m)) 12 = Inr lo"
    and k2: "tkey_deserialize (drop 28 (entity_mem slack ?m)) 12 = Inr hi"
    by (simp_all add: mem)
  have scan: "rocksengine_range_scan api slack db lo hi = Some (Inr (map (\<lambda>(k, v). (k, read_row slack v)) ?kvs))"
    using range_scan_rows [OF db sl] by (simp add: rows_in_def)
  have "\<forall>kv \<in> set ?kvs. storable (snd kv)"
    using db(2) by (auto simp: rows_in_def holds_rows_def list_all_iff)
  note rows = serialize_rows [OF this, of slack]
  have total: "4 + sum_list (map length (map row_bytes ?kvs)) = range_size ?kvs"
    by (simp add: range_size_def comp_def)
  have resp: "respChannel ?m = MyProcPid cl"
    by (simp add: range_request_def NewMsg_def Let_def)
  show ?thesis
    using l1 l2 k1 k2 scan rows size
    by (simp add: handle_kv_range_scan_def total [symmetric] Let_def)
      (simp add: range_response_def resp total [symmetric] NewMsg_def)
qed

lemma range_response_wf:
  assumes "range_size kvs \<le> 1000"
  shows "sendable (range_response pid lo kvs)" "received (range_response pid lo kvs) = range_response pid lo kvs"
proof -
  have n: "unat (of_nat (range_size kvs) :: u64) = range_size kvs"
    using assms by (rule unat_entity_size)
  have len: "length (le_bytes (of_nat (length kvs) :: u32) @ concat (map row_bytes kvs)) = range_size kvs"
    using length_rows [of kvs] by (simp add: range_size_def)
  show "sendable (range_response pid lo kvs)"
    using assms n len by (simp add: range_response_def sendable_def MSG_SIZE_def)
  show "received (range_response pid lo kvs) = range_response pid lo kvs"
    using n len by (intro received_whole [of _ "le_bytes (of_nat (length kvs) :: u32) @ concat (map row_bytes kvs)"])
      (simp_all add: range_response_def)
qed

lemma process_range:
  assumes "handle_kv_range_scan api slack db (range_request cl lo hi) = Some (Inr (range_response (MyProcPid cl) lo kvs))"
    and "entity_complete (range_response (MyProcPid cl) lo kvs)" "rq_rep rq []"
  shows "process_request api slack (db, rq) (range_request cl lo hi) =
             Some (Inr (db, ResultQueuePush rq (range_response (MyProcPid cl) lo kvs)))"
proof -
  have "op (range_request cl lo hi) = 12" by (simp add: range_request_def NewMsg_def Let_def)
  moreover obtain p where "PrintResultQueue (ResultQueuePush rq (range_response (MyProcPid cl) lo kvs)) = Some (Inr p)"
    using queue_response [OF assms(3) _ assms(2), where c = kv_range]
    by (auto simp: range_response_def NewMsg_def)
  ultimately show ?thesis
    using assms(1) by (simp add: process_request_def)
qed

lemma parse_range_response:
  assumes "\<forall>kv \<in> set kvs. storable (snd kv)" "2 \<le> length slack" "range_size kvs \<le> 1000"
  shows "ebind (rd_word (entity_mem slack (range_response pid lo kvs)) 0) (\<lambda>n :: u32.
           ebind (palloc (8 * unat n)) (\<lambda>_.
           ebind (parse_rows (unat n) (drop 4 (entity_mem slack (range_response pid lo kvs)))) (\<lambda>rows. Inr (Some rows)))) =
         Inr (Some (client_rows slack kvs))"
proof -
  let ?mem = "entity_mem slack (range_response pid lo kvs)"
  have few: "length kvs \<le> 1000"
    using assms(3) sum_list_mono [of kvs "\<lambda>_. 1" "\<lambda>kv. 36 + length (v_data (snd kv))"]
    by (simp add: range_size_def sum_list_triv)
  have n: "unat (of_nat (length kvs) :: u32) = length kvs"
    using few by (intro unat_of_nat_alloc) (simp add: MaxAllocSize_def)
  have "rd_word ?mem 0 = Inr (of_nat (length kvs) :: u32)"
    using rd_word_append [of 0 "[]" "of_nat (length kvs) :: u32"] by (simp add: entity_mem_def range_response_def)
  moreover have "parse_rows (length kvs) (drop 4 ?mem) = Inr (client_rows slack kvs)"
    using parse_row_bytes [OF assms(1,2)] by (simp add: entity_mem_def range_response_def)
  moreover have "palloc (8 * length kvs) = Inr ()"
    using few by (simp add: MaxAllocSize_def)
  ultimately show ?thesis by (simp add: n)
qed

section \<open>Properties\<close>

lemma client_get_stored:
  assumes "store_ok api ents" "client_ready cl sv" "small_value v" "2 \<le> length slack"
    and "map_of (ents (sv_db sv)) (tkey_serialize k) = Some (encoded v)"
  shows "\<exists>sv'. RocksClientGet slack ws (storage_turn api slack ws' sched) cl k sv =
             (Inr (Some (read_row slack v)), opened cl, sv') \<and> sv_db sv' = sv_db sv \<and>
           service_holds (MyProcPid cl) [] [] sv' \<and> same_others (MyProcPid cl) sv sv'"
proof -
  obtain ch sv1 where op: "GetServerChannel sv = Inr ch" "GetRespChannel cl sv = (opened cl, sv1)"
      "service_holds (MyProcPid cl) [] [] sv1" "sv_db sv1 = sv_db sv"
      "same_others (MyProcPid cl) sv sv1"
    using open_client [OF assms(2)] by blast
  have "\<exists>sv2 sv3. send_request (get_request (opened cl) k) ws sv1 = (Inr True, sv2) \<and>
      await_response (MyProcPid cl) (storage_turn api slack ws' sched sv2) =
        (Inr (Some (received (get_response (MyProcPid cl) k v))), sv3) \<and>
      service_holds (MyProcPid cl) [] [] sv3 \<and> sv_db sv3 = sv_db sv1 \<and> same_others (MyProcPid cl) sv1 sv3"
    using process_get [OF assms(1) _ assms(3,4), where db = "sv_db sv1" and k = k and cl = "opened cl"] assms(5) op(4)
    by (intro request_response op get_request_wf get_response_wf assms)
      (simp_all add: get_request_def get_response_def NewMsg_def Let_def)
  moreover have "response_ok kv_get (Some (get_response (MyProcPid cl) k v))"
    by (simp add: response_ok_def get_response_def NewMsg_def)
  moreover have "tvalue_deserialize (entity_mem slack (get_response (MyProcPid cl) k v))
      (unat (entitySize (get_response (MyProcPid cl) k v))) = Inr (read_row slack v)"
    using deserialize_storable [of v slack] assms(3,4) unat_entity_size [of "8 + length (v_data v)"]
    by (simp add: entity_mem_def get_response_def read_row_def small_value_def)
  ultimately show ?thesis
    using op get_response_wf(2) [OF assms(3)] by (auto simp: RocksClientGet_def intro: same_others_trans)
qed

lemma client_put_ok:
  assumes "store_ok api ents" "client_ready cl sv" "small_value v" "2 \<le> length slack"
  shows "\<exists>sv'. RocksClientPut ws (storage_turn api slack ws' sched) cl k v sv = (Inr True, opened cl, sv') \<and>
           service_holds (MyProcPid cl) [] [] sv' \<and> same_others (MyProcPid cl) sv sv' \<and>
           map_of (ents (sv_db sv')) = (map_of (ents (sv_db sv)))(tkey_serialize k \<mapsto> encoded v)"
proof -
  obtain ch sv1 where op: "GetServerChannel sv = Inr ch" "GetRespChannel cl sv = (opened cl, sv1)"
      "service_holds (MyProcPid cl) [] [] sv1" "sv_db sv1 = sv_db sv"
      "same_others (MyProcPid cl) sv sv1"
    using open_client [OF assms(2)] by blast
  have vs: "tvalue_serialize v = Inr (encoded v)" "palloc (20 + length (encoded v)) = Inr ()"
    using assms(3) by (simp_all add: serialize_storable small_value_def MaxAllocSize_def)
  obtain db' where db': "map_of (ents db') = (map_of (ents (sv_db sv1)))(tkey_serialize k \<mapsto> encoded v)"
      "rocksdb_put api (sv_db sv1) (tkey_serialize k) (encoded v) = Inr db'"
    using store_okD(2) [OF assms(1)] by blast
  have "\<exists>sv2 sv3. send_request (put_request (opened cl) k (encoded v)) ws sv1 = (Inr True, sv2) \<and>
      await_response (MyProcPid cl) (storage_turn api slack ws' sched sv2) =
        (Inr (Some (received (put_response (MyProcPid cl) k))), sv3) \<and>
      service_holds (MyProcPid cl) [] [] sv3 \<and> sv_db sv3 = db' \<and> same_others (MyProcPid cl) sv1 sv3"
    using process_put [OF _ assms(3,4) db'(2), of _ "opened cl"]
    by (intro request_response op put_request_wf sendable_put_response assms)
      (simp_all add: put_request_def put_response_def NewMsg_def Let_def)
  moreover have "response_ok kv_put (Some (received (put_response (MyProcPid cl) k)))"
    by (simp add: response_ok_def put_response_def NewMsg_def received_def)
  ultimately show ?thesis
    using op vs db'(1) by (auto simp: RocksClientPut_def intro: same_others_trans)
qed

text \<open>
  C7: a backend's put followed by its get of the same key, each served by one turn of the
  storage process, goes through request channel, handler, database, result queue and
  response channel and returns the value that was put (with two bytes behind it). The
  database is the old one with that key updated.
\<close>

theorem client_put_then_get:
  assumes "rocksdb_ok api ents view" "client_ready cl sv" "small_value v" "2 \<le> length slack"
  shows "\<exists>sv' sv''. RocksClientPut ws (storage_turn api slack ws' sched) cl k v sv = (Inr True, opened cl, sv') \<and>
           map_of (ents (sv_db sv')) = (map_of (ents (sv_db sv)))(tkey_serialize k \<mapsto> encoded v) \<and>
           RocksClientGet slack ws (storage_turn api slack ws' sched) (opened cl) k sv' =
             (Inr (Some (read_row slack v)), opened cl, sv'') \<and> sv_db sv'' = sv_db sv'"
proof -
  have st: "store_ok api ents" using assms(1) by (simp add: rocksdb_ok_def)
  obtain sv' where put: "RocksClientPut ws (storage_turn api slack ws' sched) cl k v sv = (Inr True, opened cl, sv')"
      "client_ready (opened cl) sv'"
      "map_of (ents (sv_db sv')) = (map_of (ents (sv_db sv)))(tkey_serialize k \<mapsto> encoded v)"
    using client_put_ok [OF st assms(2-4)] holds_ready by blast
  obtain sv'' where "RocksClientGet slack ws (storage_turn api slack ws' sched) (opened cl) k sv' =
      (Inr (Some (read_row slack v)), opened cl, sv'')" "sv_db sv'' = sv_db sv'"
    using client_get_stored [OF st put(2) assms(3,4), of k ws ws' sched] put(3) by auto
  with put show ?thesis by blast
qed

lemma sample_small: "small_value (sample_value x)"
  using sample_storable [of x] by (simp add: small_value_def sample_value_def)

lemma start_ready: "client_ready \<lparr>MyProcPid = pid, resp_open = False\<rparr> (run_rocks_start db (\<lambda>_. None))"
  using rq.rep_new by (simp add: client_ready_def run_rocks_start_def holds_msgs_def)

theorem client_put_then_get_witness:
  "\<exists>sv' sv''. RocksClientPut [] (storage_turn log_store [0, 0] [] (\<lambda>_. [])) \<lparr>MyProcPid = 42, resp_open = False\<rparr>
        \<lparr>tableOid = 3, tid = 1\<rparr> (sample_value 5) (run_rocks_start sample_db (\<lambda>_. None)) =
      (Inr True, \<lparr>MyProcPid = 42, resp_open = True\<rparr>, sv') \<and>
    RocksClientGet [0, 0] [] (storage_turn log_store [0, 0] [] (\<lambda>_. [])) \<lparr>MyProcPid = 42, resp_open = True\<rparr>
        \<lparr>tableOid = 3, tid = 1\<rparr> sv' =
      (Inr (Some (read_row [0, 0] (sample_value 5))), \<lparr>MyProcPid = 42, resp_open = True\<rparr>, sv'')"
  using client_put_then_get [OF log_store_ok start_ready [of 42 sample_db] sample_small, of "[0, 0]" "[]" "[]" "\<lambda>_. []"
      "\<lparr>tableOid = 3, tid = 1\<rparr>" 5]
  by auto

lemma client_range_ok:
  assumes "rocksdb_ok api ents view" "client_ready cl sv" "2 \<le> length slack"
    and "holds_rows ents (sv_db sv) kvs" "range_size (rows_in lo hi kvs) \<le> 1000"
  shows "\<exists>sv'. RocksClientRangeScan slack ws (storage_turn api slack ws' sched) cl lo hi sv =
             (Inr (Some (client_rows slack (rows_in lo hi kvs))), opened cl, sv') \<and>
           service_holds (MyProcPid cl) [] [] sv' \<and> same_others (MyProcPid cl) sv sv' \<and> sv_db sv' = sv_db sv"
proof -
  let ?kvs = "rows_in lo hi kvs" and ?pid = "MyProcPid cl"
  obtain ch sv1 where op: "GetServerChannel sv = Inr ch" "GetRespChannel cl sv = (opened cl, sv1)"
      "service_holds ?pid [] [] sv1" "sv_db sv1 = sv_db sv"
      "same_others (MyProcPid cl) sv sv1"
    using open_client [OF assms(2)] by blast
  have "range_size ?kvs \<le> MaxAllocSize" using assms(5) by (simp add: MaxAllocSize_def)
  from handle_range [OF assms(1,4,3) this, of "opened cl"] op(4)
  have handle: "handle_kv_range_scan api slack (sv_db sv1) (range_request (opened cl) lo hi) =
      Some (Inr (range_response (MyProcPid (opened cl)) lo ?kvs))" by simp
  have "\<exists>sv2 sv3. send_request (range_request (opened cl) lo hi) ws sv1 = (Inr True, sv2) \<and>
      await_response ?pid (storage_turn api slack ws' sched sv2) = (Inr (Some (received (range_response ?pid lo ?kvs))), sv3) \<and>
      service_holds ?pid [] [] sv3 \<and> sv_db sv3 = sv_db sv1 \<and> same_others ?pid sv1 sv3"
    using process_range [OF handle] sendable_complete [OF range_response_wf(1) [OF assms(5)]]
    by (intro request_response op range_request_wf range_response_wf assms)
      (simp_all add: range_request_def range_response_def NewMsg_def Let_def)
  then obtain sv2 sv3 where req: "send_request (range_request (opened cl) lo hi) ws sv1 = (Inr True, sv2)"
      "await_response ?pid (storage_turn api slack ws' sched sv2) = (Inr (Some (range_response ?pid lo ?kvs)), sv3)"
      "service_holds ?pid [] [] sv3" "sv_db sv3 = sv_db sv1" "same_others ?pid sv1 sv3"
    using range_response_wf(2) [OF assms(5)] by auto
  have "\<forall>kv \<in> set ?kvs. storable (snd kv)"
    using assms(4) by (auto simp: rows_in_def holds_rows_def list_all_iff)
  from parse_range_response [OF this assms(3,5), of ?pid lo] show ?thesis
    using op req same_others_trans [OF op(5) req(5)]
    by (simp add: RocksClientRangeScan_def response_ok_def range_response_def NewMsg_def)
qed

text \<open>
  C23: a range scan of a backend whose response fits a message returns exactly the keys of
  the rows in the range, in key order, each with its value; the database does not change.
\<close>

theorem client_range_scan:
  assumes "rocksdb_ok api ents view" "client_ready cl sv" "2 \<le> length slack"
    and "holds_rows ents (sv_db sv) kvs" "range_size (rows_in lo hi kvs) \<le> 1000"
  shows "\<exists>sv'. RocksClientRangeScan slack ws (storage_turn api slack ws' sched) cl lo hi sv =
             (Inr (Some (client_rows slack (rows_in lo hi kvs))), opened cl, sv') \<and>
           client_ready (opened cl) sv' \<and> sv_db sv' = sv_db sv"
  using client_range_ok [OF assms] holds_ready by blast

theorem client_range_scan_witness:
  "\<exists>sv'. RocksClientRangeScan [0, 0] [] (storage_turn log_store [0, 0] [] (\<lambda>_. [])) \<lparr>MyProcPid = 42, resp_open = False\<rparr>
        \<lparr>tableOid = 1, tid = 0\<rparr> \<lparr>tableOid = 1, tid = 7\<rparr> (run_rocks_start sample_db (\<lambda>_. None)) =
      (Inr (Some (client_rows [0, 0] (rows_in \<lparr>tableOid = 1, tid = 0\<rparr> \<lparr>tableOid = 1, tid = 7\<rparr> sample_rows))),
       \<lparr>MyProcPid = 42, resp_open = True\<rparr>, sv')"
proof -
  have "holds_rows log_entries (sv_db (run_rocks_start sample_db (\<lambda>_. None))) sample_rows"
    using sample_holds_rows by (simp add: run_rocks_start_def)
  moreover have "range_size (rows_in lo hi sample_rows) \<le> 1000" for lo hi
    by (simp add: rows_in_def sample_rows_def range_size_def sample_value_def)
  ultimately show ?thesis
    using client_range_scan [OF log_store_ok start_ready [of 42 sample_db], of "[0, 0]" sample_rows
        "\<lparr>tableOid = 1, tid = 0\<rparr>" "\<lparr>tableOid = 1, tid = 7\<rparr>" "[]" "[]" "\<lambda>_. []"]
    by auto
qed

text \<open>Responses above the message size.\<close>

lemma range_response_too_large:
  assumes "1000 < range_size kvs" "range_size kvs \<le> MaxAllocSize"
  shows "assemble_msg (range_response pid lo kvs) = Inl (Elog ''KVChannelPushMsg: total message too large'')"
    and "entity_complete (range_response pid lo kvs)"
proof -
  have n: "unat (of_nat (range_size kvs) :: u64) = range_size kvs"
    using assms by (intro unat_of_nat_64) (simp add: MaxAllocSize_def)
  show "assemble_msg (range_response pid lo kvs) = Inl (Elog ''KVChannelPushMsg: total message too large'')"
    using assms n by (simp add: assemble_msg_def range_response_def MSG_SIZE_def MaxAllocSize_def Let_def)
  show "entity_complete (range_response pid lo kvs)"
    using n length_rows [of kvs] by (simp add: entity_complete_def range_response_def range_size_def)
qed

lemma ResultQueueClear_fails:
  assumes "rq_rep q [resp]" "chans (respChannel resp) = Some ch" "assemble_msg resp = Inl e"
  shows "\<exists>q'. ResultQueueClear sched chans q = Some (Inl e, chans, q')"
proof -
  obtain q' where q': "ResultQueuePop q = Some (resp, q')"
    using rq.rep_pop [OF assms(1)] by blast
  have "chans(respChannel resp := Some ch) = chans" using assms(2) by auto
  with q' assms rq_not_empty [OF assms(1)] show ?thesis
    by (subst ResultQueueClear.simps) (simp add: KVChannelInit_def KVChannelPushMsg_def)
qed

lemma await_nothing:
  assumes "sv_resp sv pid = Some rc" "holds_msgs rc []"
  shows "fst (await_response pid sv) = Inl Would_block"
proof -
  have "UnsafeKVChannelPop rc 24 = None"
    using assms(2) length_chan_bytes [of rc] by (simp add: holds_msgs_def UnsafeKVChannelPop_def)
  then have "try_pop_msg rc = (None, rc)" by (simp add: try_pop_msg_def)
  then have "KVChannelPopMsg rc (-1) [] = (Inl Would_block, rc)"
    using assms(2) by (subst KVChannelPopMsg.simps) (simp add: holds_msgs_def)
  then show ?thesis using assms(1) by (simp add: await_response_def)
qed

lemma serve_once_fails:
  assumes sv: "service_holds pid [m] [] sv" and m: "received m = m" "op m \<noteq> KVOp_code kv_close"
    and req: "process_request api slack (sv_db sv, sv_results sv) m =
                Some (Inr (db', ResultQueuePush (sv_results sv) resp))"
    and resp: "assemble_msg resp = Inl e" "respChannel resp = pid"
  shows "\<exists>sv'. serve_once api slack ws sched sv = Some (Inl e, sv') \<and> sv_resp sv' = sv_resp sv"
proof -
  from sv obtain ch rc where ch: "sv_chan sv = Some ch" "holds_msgs ch [m]"
    and rc: "sv_resp sv pid = Some rc" and rq: "rq_rep (sv_results sv) []"
    by (auto simp: service_holds_def)
  obtain ch' where pop: "KVChannelPopMsg ch ROCKSDB_CHANNEL_DEFAULT_TIMEOUT ws = (Inr (Some m), ch')"
    using pop_msg_front [OF ch(2)] m(1) by metis
  have "rq_rep (ResultQueuePush (sv_results sv) resp) [resp]"
    using rq.rep_push [OF rq, of resp] by simp
  from ResultQueueClear_fails [OF this _ resp(1), of "sv_resp sv" rc sched] rc resp(2)
  obtain rq' where "ResultQueueClear sched (sv_resp sv) (ResultQueuePush (sv_results sv) resp) = Some (Inl e, sv_resp sv, rq')"
    by auto
  with sv ch(1) pop req m(2) show ?thesis
    by (auto simp: serve_once_def service_holds_def)
qed


text \<open>The request for a key that is not stored: the handler fails and no response is sent.\<close>

lemma get_missing_served:
  assumes "rocksdb_ok api ents view" "client_ready cl sv" "map_of (ents (sv_db sv)) (tkey_serialize k) = None"
  shows "\<exists>sv2 sv3 rc. send_request (get_request (opened cl) k) ws (snd (GetRespChannel cl sv)) = (Inr True, sv2) \<and>
           serve_once api slack ws' sched sv2 = Some (Inl Bad_memory, sv3) \<and> sv_resp sv3 (MyProcPid cl) = Some rc \<and> holds_msgs rc []"
proof -
  let ?pid = "MyProcPid cl" and ?m = "get_request (opened cl) k"
  have st: "store_ok api ents" using assms(1) by (simp add: rocksdb_ok_def)
  obtain sv1 where op: "GetRespChannel cl sv = (opened cl, sv1)" "service_holds ?pid [] [] sv1" "sv_db sv1 = sv_db sv"
    using open_client [OF assms(2)] by blast
  obtain sv2 where sv2: "send_request ?m ws sv1 = (Inr True, sv2)" "service_holds ?pid [?m] [] sv2" "sv_db sv2 = sv_db sv1"
    using send_request_ok [OF op(2) get_request_wf(1)] by blast
  from sv2(2) obtain rch rc where ch: "sv_running sv2" "sv_chan sv2 = Some rch" "holds_msgs rch [?m]"
      "sv_resp sv2 ?pid = Some rc" "holds_msgs rc []" by (auto simp: service_holds_def)
  obtain ch' where pop: "KVChannelPopMsg rch ROCKSDB_CHANNEL_DEFAULT_TIMEOUT ws' = (Inr (Some ?m), ch')"
    using pop_msg_front [OF ch(3)] get_request_wf(2) by metis
  have key: "tkey_deserialize (entity_mem slack ?m) (unat (entitySize ?m)) = Inr k"
    by (simp add: entity_mem_def get_request_def Let_def)
  have "rocksengine_get api slack (sv_db sv2) k = Inl Bad_memory"
    using assms(3) op(3) sv2(3) by (simp add: rocksengine_get_eq [OF st])
  then have "handle_kv_get api slack (sv_db sv2) ?m = Inl Bad_memory" using key by (simp add: handle_kv_get_def)
  moreover have "op ?m = 5" by (simp add: get_request_def NewMsg_def Let_def)
  ultimately have "process_request api slack (sv_db sv2, sv_results sv2) ?m = Some (Inl Bad_memory)"
    by (simp add: process_request_def)
  with ch pop \<open>op ?m = 5\<close> have "serve_once api slack ws' sched sv2 = Some (Inl Bad_memory, sv2\<lparr>sv_chan := Some ch'\<rparr>)"
    by (simp add: serve_once_def)
  with op(1) sv2(1) ch(4,5) show ?thesis by auto
qed

lemma get_missing_blocks:
  assumes "rocksdb_ok api ents view" "client_ready cl sv" "map_of (ents (sv_db sv)) (tkey_serialize k) = None"
  shows "fst (RocksClientGet slack ws (storage_turn api slack ws' sched) cl k sv) = Inl Would_block"
proof -
  obtain ch sv1 where op: "GetServerChannel sv = Inr ch" "GetRespChannel cl sv = (opened cl, sv1)"
    using open_client [OF assms(2)] by blast
  obtain sv2 sv3 rc where serve: "send_request (get_request (opened cl) k) ws sv1 = (Inr True, sv2)"
      "serve_once api slack ws' sched sv2 = Some (Inl Bad_memory, sv3)" "sv_resp sv3 (MyProcPid cl) = Some rc" "holds_msgs rc []"
    using get_missing_served [OF assms, of ws slack ws' sched] op(2) by auto
  have "fst (await_response (MyProcPid cl) (storage_turn api slack ws' sched sv2)) = Inl Would_block"
    using await_nothing [OF serve(3,4)] serve(2) by (simp add: storage_turn_def)
  with op serve(1) show ?thesis by (auto simp: RocksClientGet_def split: prod.split)
qed

text \<open>
  C39: a get of a key that is not stored ends the storage process: the handler reads the
  value through the null pointer RocksDB returned. The backend waits for the response forever.
\<close>

theorem client_get_missing:
  assumes "rocksdb_ok api ents view" "client_ready cl sv" "map_of (ents (sv_db sv)) (tkey_serialize k) = None"
  shows "fst (RocksClientGet slack ws (storage_turn api slack ws' sched) cl k sv) = Inl Would_block \<and>
         (\<exists>sv2 sv'. send_request (get_request (opened cl) k) ws (snd (GetRespChannel cl sv)) = (Inr True, sv2) \<and>
            serve_once api slack ws' sched sv2 = Some (Inl Bad_memory, sv'))"
  using get_missing_blocks [OF assms] get_missing_served [OF assms, of ws slack ws' sched] by blast

theorem client_get_missing_witness:
  "fst (RocksClientGet [0, 0] [] (storage_turn log_store [0, 0] [] (\<lambda>_. [])) \<lparr>MyProcPid = 42, resp_open = False\<rparr>
      \<lparr>tableOid = 3, tid = 1\<rparr> (run_rocks_start [] (\<lambda>_. None))) = Inl Would_block"
  using client_get_missing [OF log_store_ok start_ready [of 42 "[]"], of "\<lparr>tableOid = 3, tid = 1\<rparr>" "[0, 0]" "[]" "[]" "\<lambda>_. []"]
  by (simp add: run_rocks_start_def)

definition big_data :: "byte list" where
  "big_data = replicate 992 0"

definition big_value :: nram_value where
  "big_value = \<lparr>v_xact_id = 7, v_flags = 0, v_nfields = 1,
     v_data = field_header 0 \<lparr>attbyval = False, attlen = -1, atttypid = 25\<rparr> 992 @ big_data\<rparr>"

lemma length_big_data: "length big_data = 992"
  by (simp only: big_data_def length_replicate)

lemma big_storable: "storable big_value"
proof -
  have "rd_word (v_data big_value) 8 = Inr (992 :: u32)"
    using rd_field_len [of 992 0 "[]" 0 _ big_data] by (simp add: big_value_def MaxAllocSize_def)
  then show ?thesis
    by (simp add: storable_def value_wf_def MaxAllocSize_def) (simp add: big_value_def length_big_data)
qed


end
