(* ===== verification/NR_Xact.thy ===== *)
theory NR_Xact
  imports NR_Lock NR_Policy NR_Service "HOL-Library.Multiset"
begin

text \<open>
  NRAM transactions: \<^verbatim>\<open>dbengine/nr_kernel/nr_am/src/nram_xact/xact.c\<close> and \<^verbatim>\<open>xact.h\<close>. Read and
  write sets, the locks an access takes, the validation at commit and the transaction hook.

  The storage calls \<^verbatim>\<open>RocksClientGet\<close>, \<^verbatim>\<open>RocksClientPut\<close> and \<^verbatim>\<open>RocksClientRangeScan\<close> are reached
  through a record of functions over the state of the storage, with the process id of the
  caller; its instance is the client of the storage process. \<^verbatim>\<open>Assert\<close> is not compiled in
  production builds and is not modelled.
\<close>

section \<open>State\<close>

datatype XactOpType = XACT_OP_READ | XACT_OP_WRITE | XACT_OP_DELETE | XACT_OP_INSERT | XACT_OP_SCAN

record nram_opt =
  opt_type :: XactOpType
  opt_xact_id :: u32
  opt_key :: nram_key
  opt_value :: nram_value

datatype CmdType =
    CMD_UNKNOWN | CMD_SELECT | CMD_UPDATE | CMD_INSERT | CMD_DELETE | CMD_MERGE | CMD_UTILITY | CMD_NOTHING | CMD_PREDICT

definition NRAM_CMD_STACK_MAX :: nat where
  "NRAM_CMD_STACK_MAX = 8"

text \<open>
  The action of a transaction is a pointer into the cached policy, here the index of the
  entry: a policy that is loaded later takes effect at once.
\<close>

record nram_xact =
  xact_id :: u32
  validated :: bool
  feature :: "xact_feature option"
  action :: "nat option"
  cur_cmdtype :: CmdType
  cmdtype_depth :: nat
  cmdtype_stack :: "CmdType list"
  read_set :: "nram_opt list"
  write_set :: "nram_opt list"

definition nram_for_modify :: "nram_xact option \<Rightarrow> bool" where
  "nram_for_modify x =
     (case x of None \<Rightarrow> False
      | Some s \<Rightarrow> cur_cmdtype s = CMD_UPDATE \<or> cur_cmdtype s = CMD_DELETE \<or> cur_cmdtype s = CMD_INSERT)"

definition nram_for_read :: "nram_xact option \<Rightarrow> bool" where
  "nram_for_read x = (case x of None \<Rightarrow> False | Some s \<Rightarrow> cur_cmdtype s = CMD_SELECT)"

text \<open>
  The variables of a backend process, and with them the shared memory: the lock table, the
  cached policy and the storage. \<open>be_xid\<close> is the result of \<^verbatim>\<open>GetTopTransactionId\<close>, \<open>be_seq\<close> the
  counter of the tuple identifiers, \<open>xact_callbacks\<close> the number of times the transaction hook
  is registered.
\<close>

record nram_backend =
  be_pid :: u32
  be_xid :: u32
  be_serializable :: bool
  be_rank :: rat
  LockTimeout :: u32
  be_seq :: u64
  current_nram_xact :: "nram_xact option"
  xact_hook_registered :: bool
  xact_callbacks :: nat

record 's nram_env = nram_backend +
  env_locks :: lock_table
  env_policy :: "agent_func option"
  env_store :: 's

record 's kv_client =
  cl_get :: "u32 \<Rightarrow> nram_key \<Rightarrow> 's \<Rightarrow> (nr_error + nram_value option) \<times> 's"
  cl_put :: "u32 \<Rightarrow> nram_key \<Rightarrow> nram_value \<Rightarrow> 's \<Rightarrow> (nr_error + bool) \<times> 's"
  cl_range :: "u32 \<Rightarrow> nram_key \<Rightarrow> nram_key \<Rightarrow> 's \<Rightarrow> (nr_error + (nram_key \<times> nram_value) list option) \<times> 's"

section \<open>Transaction state\<close>

definition NewNRAMXactState :: "u32 \<Rightarrow> nram_xact option" where
  "NewNRAMXactState xid =
     (if xid = 0 then None
      else Some \<lparr>xact_id = xid, validated = False, feature = None, action = None, cur_cmdtype = CMD_UNKNOWN,
             cmdtype_depth = 0, cmdtype_stack = replicate NRAM_CMD_STACK_MAX CMD_UNKNOWN, read_set = [], write_set = []\<rparr>)"

definition refresh_nram_xact :: "('s, 'a) nram_env_scheme \<Rightarrow> ('s, 'a) nram_env_scheme" where
  "refresh_nram_xact env =
     (case current_nram_xact env of
        Some x \<Rightarrow> if xact_id x \<noteq> be_xid env then env\<lparr>current_nram_xact := NewNRAMXactState (be_xid env)\<rparr> else env
      | None \<Rightarrow> env\<lparr>current_nram_xact := NewNRAMXactState (be_xid env)\<rparr>)"

definition GetCurrentNRAMXact :: "('s, 'a) nram_env_scheme \<Rightarrow> nram_xact option \<times> ('s, 'a) nram_env_scheme" where
  "GetCurrentNRAMXact env = (let env' = refresh_nram_xact env in (current_nram_xact env', env'))"

definition clear_nram_xact :: "('s, 'a) nram_env_scheme \<Rightarrow> ('s, 'a) nram_env_scheme" where
  "clear_nram_xact env = env\<lparr>current_nram_xact := None\<rparr>"

definition nram_lockmode_name :: "nat \<Rightarrow> string" where
  "nram_lockmode_name mode =
     (if mode = AccessShareLock then ''AccessShareLock''
      else if mode = RowShareLock then ''RowShareLock''
      else if mode = RowExclusiveLock then ''RowExclusiveLock''
      else if mode = ShareUpdateExclusiveLock then ''ShareUpdateExclusiveLock''
      else if mode = ShareLock then ''ShareLock''
      else if mode = ShareRowExclusiveLock then ''ShareRowExclusiveLock''
      else if mode = ExclusiveLock then ''ExclusiveLock''
      else if mode = AccessExclusiveLock then ''AccessExclusiveLock''
      else if mode = 0 then ''NoLock''
      else ''UnknownLock'')"

section \<open>Locks\<close>

text \<open>The relation lock ids of a relation: the database and the relation.\<close>

definition nram_lock_for_scan :: "u32 \<Rightarrow> rat \<Rightarrow> u32 \<Rightarrow> u32 \<Rightarrow> lock_table \<Rightarrow> (nr_error + unit) \<times> lock_table" where
  "nram_lock_for_scan pid rank db rel lt = LockRelation pid rank db rel AccessShareLock lt"

definition nram_lock_for_write ::
  "u32 \<Rightarrow> rat \<Rightarrow> u32 \<Rightarrow> u32 \<Rightarrow> ItemPointerData \<Rightarrow> lock_table \<Rightarrow> (nr_error + unit) \<times> lock_table" where
  "nram_lock_for_write pid rank db rel ip lt =
     (case LockRelation pid rank db rel RowExclusiveLock lt of
        (Inl e, lt') \<Rightarrow> (Inl e, lt')
      | (Inr _, lt') \<Rightarrow> LockTuple pid rank db rel ip ExclusiveLock lt')"

definition nram_lock_for_read ::
  "u32 \<Rightarrow> rat \<Rightarrow> u32 \<Rightarrow> u32 \<Rightarrow> ItemPointerData \<Rightarrow> lock_table \<Rightarrow> (nr_error + unit) \<times> lock_table" where
  "nram_lock_for_read pid rank db rel ip lt =
     (case LockRelation pid rank db rel AccessShareLock lt of
        (Inl e, lt') \<Rightarrow> (Inl e, lt')
      | (Inr _, lt') \<Rightarrow> LockTuple pid rank db rel ip ShareLock lt')"

text \<open>
  The tag of a validation lock: the tuple identifier of 64 bits is stored in a field of 32.
  An error leaves \<^verbatim>\<open>LockTimeout\<close> at zero.
\<close>

definition validation_tag :: "nram_key \<Rightarrow> locktag" where
  "validation_tag key = Tag_advisory (tableOid key) (ucast (tid key)) 0 0"

definition nram_validation_lock ::
  "u32 \<Rightarrow> rat \<Rightarrow> nram_key \<Rightarrow> nat \<Rightarrow> u32 \<times> lock_table \<Rightarrow> (nr_error + unit) \<times> u32 \<times> lock_table" where
  "nram_validation_lock pid rank key mode st =
     (let (prevLockTimeout, lt) = st in
      case LockAcquire pid rank (validation_tag key) mode False lt of
        (Inl e, lt') \<Rightarrow> (Inl e, 0, lt')
      | (Inr LOCKACQUIRE_NOT_AVAIL, lt') \<Rightarrow> (Inl (Elog ''Failed to acquire advisory lock''), 0, lt')
      | (Inr _, lt') \<Rightarrow> (Inr (), prevLockTimeout, lt'))"

definition nram_validation_release :: "u32 \<Rightarrow> nram_key \<Rightarrow> nat \<Rightarrow> lock_table \<Rightarrow> (nr_error + bool) \<times> lock_table" where
  "nram_validation_release pid key mode lt = LockRelease pid (validation_tag key) mode lt"

definition nram_try_validation_lock ::
  "u32 \<Rightarrow> rat \<Rightarrow> nram_key \<Rightarrow> nat \<Rightarrow> lock_table \<Rightarrow> (nr_error + LockAcquireResult) \<times> lock_table" where
  "nram_try_validation_lock pid rank key mode lt = LockAcquire pid rank (validation_tag key) mode True lt"

section \<open>Read and write sets\<close>

definition nram_opt_cmp :: "nram_opt \<Rightarrow> nram_opt \<Rightarrow> int" where
  "nram_opt_cmp opt1 opt2 =
     (if tableOid (opt_key opt1) \<noteq> tableOid (opt_key opt2)
      then (if tableOid (opt_key opt1) < tableOid (opt_key opt2) then -1 else 1)
      else if tid (opt_key opt1) < tid (opt_key opt2) then -1
      else if tid (opt_key opt1) > tid (opt_key opt2) then 1
      else 0)"

definition nram_key_equal :: "nram_key \<Rightarrow> nram_key \<Rightarrow> bool" where
  "nram_key_equal k1 k2 = (tableOid k1 = tableOid k2 \<and> tid k1 = tid k2)"

definition find_opt :: "nram_opt list \<Rightarrow> nram_key \<Rightarrow> nram_opt option" where
  "find_opt opts key = find (\<lambda>opt. nram_key_equal (opt_key opt) key) opts"

definition find_write_set :: "nram_xact \<Rightarrow> nram_key \<Rightarrow> nram_opt option" where
  "find_write_set state key = find_opt (write_set state) key"

definition find_read_set :: "nram_xact \<Rightarrow> nram_key \<Rightarrow> nram_opt option" where
  "find_read_set state key = find_opt (read_set state) key"

definition add_read_set :: "nram_xact \<Rightarrow> nram_key \<Rightarrow> nram_value \<Rightarrow> nr_error + nram_xact" where
  "add_read_set state key value =
     ebind (copy_nram_value value) (\<lambda>v.
       Inr (state\<lparr>read_set := read_set state @
              [\<lparr>opt_type = XACT_OP_READ, opt_xact_id = v_xact_id value, opt_key = copy_nram_key key, opt_value = v\<rparr>]\<rparr>))"

text \<open>The value of the first entry with the key is replaced; the entry keeps its other fields.\<close>

fun replace_value :: "nram_opt list \<Rightarrow> nram_key \<Rightarrow> nram_value \<Rightarrow> nram_opt list" where
  "replace_value [] key v = []"
| "replace_value (opt # opts) key v =
     (if nram_key_equal (opt_key opt) key then opt\<lparr>opt_value := v\<rparr> # opts else opt # replace_value opts key v)"

definition add_write_set :: "nram_xact \<Rightarrow> nram_key \<Rightarrow> nram_value \<Rightarrow> nr_error + nram_xact" where
  "add_write_set state key value =
     ebind (copy_nram_value value) (\<lambda>v.
       Inr (case find_write_set state key of
              None \<Rightarrow> state\<lparr>write_set := write_set state @
                [\<lparr>opt_type = XACT_OP_WRITE, opt_xact_id = xact_id state, opt_key = copy_nram_key key, opt_value = v\<rparr>]\<rparr>
            | Some _ \<Rightarrow> state\<lparr>write_set := replace_value (write_set state) key v\<rparr>))"

text \<open>\<open>None\<close> is the result \<^verbatim>\<open>false\<close>.\<close>

definition read_own_write :: "nram_xact \<Rightarrow> nram_key \<Rightarrow> nr_error + nram_value option" where
  "read_own_write state key =
     (case find_write_set state key of
        None \<Rightarrow> Inr None
      | Some opt \<Rightarrow> ebind (copy_nram_value (opt_value opt)) (\<lambda>v. Inr (Some v)))"

definition read_own_read :: "nram_xact \<Rightarrow> nram_key \<Rightarrow> nr_error + nram_value option" where
  "read_own_read state key =
     (case find_read_set state key of
        None \<Rightarrow> Inr None
      | Some opt \<Rightarrow> ebind (copy_nram_value (opt_value opt)) (\<lambda>v. Inr (Some v)))"

section \<open>Validation and commit\<close>

text \<open>\<^verbatim>\<open>list_sort\<close> with \<^verbatim>\<open>nram_opt_cmp\<close>; the keys of a write set are distinct, so the order is determined.\<close>

fun opt_insert :: "nram_opt \<Rightarrow> nram_opt list \<Rightarrow> nram_opt list" where
  "opt_insert x [] = [x]"
| "opt_insert x (y # ys) = (if nram_opt_cmp x y \<le> 0 then x # y # ys else y # opt_insert x ys)"

definition list_sort :: "nram_opt list \<Rightarrow> nram_opt list" where
  "list_sort opts = foldr opt_insert opts []"

fun lock_write_set ::
  "u32 \<Rightarrow> rat \<Rightarrow> nram_opt list \<Rightarrow> u32 \<times> lock_table \<Rightarrow> (nr_error + unit) \<times> u32 \<times> lock_table" where
  "lock_write_set pid rank [] st = (Inr (), st)"
| "lock_write_set pid rank (opt # opts) st =
     (case nram_validation_lock pid rank (opt_key opt) ExclusiveLock st of
        (Inl e, st') \<Rightarrow> (Inl e, st')
      | (Inr _, st') \<Rightarrow> lock_write_set pid rank opts st')"

text \<open>One read: try the share lock, read the current version, compare, release the lock.\<close>

definition check_read ::
  "'s kv_client \<Rightarrow> u32 \<Rightarrow> nram_opt \<Rightarrow> LockAcquireResult \<Rightarrow> lock_table \<times> 's \<Rightarrow> (nr_error + unit) \<times> lock_table \<times> 's" where
  "check_read io pid opt r st =
     (let (lt, s) = st in
      case cl_get io pid (opt_key opt) s of
        (Inl e, s') \<Rightarrow> (Inl e, lt, s')
      | (Inr None, s') \<Rightarrow> (Inl (Elog ''validation failed: invisible key''), lt, s')
      | (Inr (Some cur_val), s') \<Rightarrow>
          (if v_xact_id cur_val \<noteq> opt_xact_id opt
           then (Inl (Elog ''Transaction aborted during read set validation.''), lt, s')
           else if r = LOCKACQUIRE_OK then (Inr (), snd (nram_validation_release pid (opt_key opt) ShareLock lt), s')
           else (Inr (), lt, s')))"

fun validate_reads ::
  "'s kv_client \<Rightarrow> u32 \<Rightarrow> rat \<Rightarrow> nram_opt list \<Rightarrow> lock_table \<times> 's \<Rightarrow> (nr_error + unit) \<times> lock_table \<times> 's" where
  "validate_reads io pid rank [] st = (Inr (), st)"
| "validate_reads io pid rank (opt # opts) (lt, s) =
     (case nram_try_validation_lock pid rank (opt_key opt) ShareLock lt of
        (Inl e, lt') \<Rightarrow> (Inl e, lt', s)
      | (Inr LOCKACQUIRE_NOT_AVAIL, lt') \<Rightarrow> (Inl (Elog ''Transaction aborted during read set validation.''), lt', s)
      | (Inr r, lt') \<Rightarrow>
          (case check_read io pid opt r (lt', s) of
             (Inl e, st') \<Rightarrow> (Inl e, st')
           | (Inr _, st') \<Rightarrow> validate_reads io pid rank opts st'))"

text \<open>The result of the put is ignored; only an error raised in it ends the loop.\<close>

fun install_writes ::
  "'s kv_client \<Rightarrow> u32 \<Rightarrow> nram_opt list \<Rightarrow> lock_table \<times> 's \<Rightarrow> (nr_error + unit) \<times> lock_table \<times> 's" where
  "install_writes io pid [] st = (Inr (), st)"
| "install_writes io pid (opt # opts) (lt, s) =
     (case cl_put io pid (opt_key opt) (opt_value opt) s of
        (Inl e, s') \<Rightarrow> (Inl e, lt, s')
      | (Inr _, s') \<Rightarrow>
          install_writes io pid opts (snd (nram_validation_release pid (opt_key opt) ExclusiveLock lt), s'))"

text \<open>
  The commit of the transaction \<open>x\<close>: lock the write set in order, validate the read set under
  serializable isolation, then install and unlock the writes. The steps work on the variables
  they change; \<open>env\<close> gets the results.
\<close>

definition validation_phase :: "'s kv_client \<Rightarrow> nram_xact \<Rightarrow> 's nram_env \<Rightarrow> lock_table \<Rightarrow> (nr_error + unit) \<times> lock_table \<times> 's" where
  "validation_phase io x env lt =
     (if be_serializable env
      then validate_reads io (be_pid env) (be_rank env) (read_set x) (lt, env_store env)
      else (Inr (), lt, env_store env))"

definition pre_commit :: "'s kv_client \<Rightarrow> nram_xact \<Rightarrow> 's nram_env \<Rightarrow> (nr_error + unit) \<times> 's nram_env" where
  "pre_commit io x env =
     (if validated x then (Inl (Elog ''The transaction has already been validated before.''), env)
      else
        (let ws = list_sort (write_set x); x1 = x\<lparr>write_set := ws\<rparr>;
             (r, tmo, lt) = lock_write_set (be_pid env) (be_rank env) ws (LockTimeout env, env_locks env);
             env1 = env\<lparr>current_nram_xact := Some x1, LockTimeout := tmo, env_locks := lt\<rparr>
         in case r of
              Inl e \<Rightarrow> (Inl e, env1)
            | Inr _ \<Rightarrow>
                (let (r2, lt2, s2) = validation_phase io x env lt;
                     env2 = env1\<lparr>env_locks := lt2, env_store := s2\<rparr>
                 in case r2 of
                      Inl e \<Rightarrow> (Inl e, env2)
                    | Inr _ \<Rightarrow>
                        (let (r3, lt3, s3) = install_writes io (be_pid env) ws (lt2, s2)
                         in (r3, env2\<lparr>current_nram_xact := Some (x1\<lparr>validated := True\<rparr>), env_locks := lt3, env_store := s3\<rparr>)))))"

datatype XactEvent =
    XACT_EVENT_COMMIT | XACT_EVENT_PARALLEL_COMMIT | XACT_EVENT_ABORT | XACT_EVENT_PARALLEL_ABORT
  | XACT_EVENT_PREPARE | XACT_EVENT_PRE_COMMIT | XACT_EVENT_PARALLEL_PRE_COMMIT | XACT_EVENT_PRE_PREPARE

definition nram_xact_callback :: "'s kv_client \<Rightarrow> XactEvent \<Rightarrow> 's nram_env \<Rightarrow> (nr_error + unit) \<times> 's nram_env" where
  "nram_xact_callback io event env =
     (if current_nram_xact env = None then (Inr (), env)
      else
        (let env1 = refresh_nram_xact env in
         case event of
           XACT_EVENT_PRE_COMMIT \<Rightarrow>
             (case current_nram_xact env1 of
                None \<Rightarrow> (Inl Bad_memory, env1)
              | Some x \<Rightarrow> pre_commit io x env1)
         | XACT_EVENT_ABORT \<Rightarrow> (Inr (), clear_nram_xact env1)
         | XACT_EVENT_COMMIT \<Rightarrow> (Inr (), clear_nram_xact env1)
         | _ \<Rightarrow> (Inr (), env1)))"

definition nram_register_xact_hook :: "('s, 'a) nram_env_scheme \<Rightarrow> ('s, 'a) nram_env_scheme" where
  "nram_register_xact_hook env =
     (if \<not> xact_hook_registered env
      then env\<lparr>xact_callbacks := xact_callbacks env + 1, xact_hook_registered := True\<rparr> else env)"

text \<open>\<^verbatim>\<open>UnregisterXactCallback\<close> removes one entry of the callback, if there is one.\<close>

definition nram_unregister_xact_hook :: "('s, 'a) nram_env_scheme \<Rightarrow> ('s, 'a) nram_env_scheme" where
  "nram_unregister_xact_hook env =
     (if \<not> xact_hook_registered env
      then env\<lparr>xact_callbacks := xact_callbacks env - 1, xact_hook_registered := False\<rparr> else env)"

fun validate_read_set_loop :: "'s kv_client \<Rightarrow> u32 \<Rightarrow> nram_opt list \<Rightarrow> 's \<Rightarrow> (nr_error + bool) \<times> 's" where
  "validate_read_set_loop io pid [] s = (Inr True, s)"
| "validate_read_set_loop io pid (opt # opts) s =
     (case cl_get io pid (opt_key opt) s of
        (Inl e, s') \<Rightarrow> (Inl e, s')
      | (Inr None, s') \<Rightarrow> (Inr False, s')
      | (Inr (Some cur_val), s') \<Rightarrow>
          (if v_xact_id cur_val \<noteq> opt_xact_id opt then (Inr False, s') else validate_read_set_loop io pid opts s'))"

definition validate_read_set :: "'s kv_client \<Rightarrow> u32 \<Rightarrow> nram_xact \<Rightarrow> 's \<Rightarrow> (nr_error + bool) \<times> 's" where
  "validate_read_set io pid state s = validate_read_set_loop io pid (read_set state) s"

text \<open>
  The features of the transaction at its next access and the action the policy has for them.
  The number of dependencies is cut to 16 bits.
\<close>

definition next_feature :: "nram_xact \<Rightarrow> u32 \<Rightarrow> xact_feature" where
  "next_feature state deps =
     (case feature state of
        None \<Rightarrow> \<lparr>n_access = 0, cur_op = 0, n_dep = ucast deps\<rparr>
      | Some f \<Rightarrow>
          \<lparr>n_access = n_access f + 1,
           cur_op = (if nram_for_modify (Some state) then UPDATE_OPT else cur_op f),
           n_dep = ucast deps\<rparr>)"

definition before_access :: "nram_xact \<Rightarrow> 's nram_env \<Rightarrow> (nr_error + unit) \<times> 's nram_env" where
  "before_access state env =
     (let f = next_feature state (nDep (env_locks env) (be_pid env)); x1 = state\<lparr>feature := Some f\<rparr> in
      case get_action (env_policy env) (Some f) of
        Inl e \<Rightarrow> (Inl e, env\<lparr>current_nram_xact := Some x1\<rparr>)
      | Inr a \<Rightarrow>
          (Inr (), env\<lparr>current_nram_xact := Some (x1\<lparr>action := Some (unat (encode_feature_10bit f))\<rparr>),
                       be_rank := priority a, LockTimeout := timeout a\<rparr>))"

section \<open>Sets and sorting\<close>

lemma nram_key_equal_iff [simp]: "nram_key_equal j k \<longleftrightarrow> j = k"
  by (auto simp: nram_key_equal_def)

lemma mset_opt_insert: "mset (opt_insert x ys) = add_mset x (mset ys)"
  by (induction ys) auto

lemma mset_list_sort: "mset (list_sort opts) = mset opts"
  by (induction opts) (simp_all add: list_sort_def mset_opt_insert)

lemma set_list_sort [simp]: "set (list_sort opts) = set opts"
  using mset_list_sort [of opts] by (metis set_mset_mset)

section \<open>The storage contract\<close>

text \<open>
  Whether the version a transaction read is the current one, and the contents after a list of
  writes.
\<close>

definition is_current :: "(nram_key \<Rightarrow> nram_value option) \<Rightarrow> nram_opt \<Rightarrow> bool" where
  "is_current m opt = (case m (opt_key opt) of None \<Rightarrow> False | Some v \<Rightarrow> v_xact_id v = opt_xact_id opt)"

fun with_writes ::
  "(nram_value \<Rightarrow> nram_value) \<Rightarrow> nram_opt list \<Rightarrow> (nram_key \<Rightarrow> nram_value option) \<Rightarrow> nram_key \<Rightarrow> nram_value option" where
  "with_writes seen [] m = m"
| "with_writes seen (opt # ws) m = with_writes seen ws (m(opt_key opt \<mapsto> seen (opt_value opt)))"

text \<open>
  What a transaction relies on: a get of a stored key returns its value, a put of a value that
  fits a message makes it the value of its key, as it is \<open>seen\<close> by later readers, and neither
  fails. The state \<open>good\<close> is a storage process that is ready for every backend.
\<close>

locale kv_store =
  fixes io :: "'s kv_client"
    and contents :: "'s \<Rightarrow> nram_key \<Rightarrow> nram_value option"
    and good :: "'s \<Rightarrow> bool"
    and fits :: "nram_value \<Rightarrow> bool"
    and seen :: "nram_value \<Rightarrow> nram_value"
  assumes get_present: "good s \<Longrightarrow> contents s k = Some v \<Longrightarrow>
      \<exists>s'. cl_get io pid k s = (Inr (Some v), s') \<and> good s' \<and> contents s' = contents s"
    and put_fits: "good s \<Longrightarrow> fits v \<Longrightarrow>
      \<exists>s'. cl_put io pid k v s = (Inr True, s') \<and> good s' \<and> contents s' = (contents s)(k \<mapsto> seen v)"
    and seen_version: "v_xact_id (seen v) = v_xact_id v"
    and copy_seen: "fits v \<Longrightarrow> copy_nram_value (seen v) = Inr v"
begin

lemma check_read_spec:
  assumes "good s" "contents s (opt_key opt) \<noteq> None" "check_read io pid opt r (lt, s) = (res, lt', s')"
  shows "good s' \<and> contents s' = contents s \<and> (res = Inr () \<longleftrightarrow> is_current (contents s) opt)"
proof -
  obtain v where v: "contents s (opt_key opt) = Some v" using assms(2) by blast
  obtain s1 where "cl_get io pid (opt_key opt) s = (Inr (Some v), s1)" "good s1" "contents s1 = contents s"
    using get_present [OF assms(1) v, of pid] by blast
  with v assms(3) show ?thesis by (auto simp: check_read_def is_current_def split: if_splits)
qed

lemma validate_reads_spec:
  assumes "good s" "\<forall>opt \<in> set rs. contents s (opt_key opt) \<noteq> None" "validate_reads io pid rank rs (lt, s) = (res, lt', s')"
  shows "good s' \<and> contents s' = contents s \<and> (res = Inr () \<longrightarrow> (\<forall>opt \<in> set rs. is_current (contents s) opt))"
  using assms
proof (induction rs arbitrary: lt s)
  case (Cons opt rs)
  obtain q lt1 where att: "nram_try_validation_lock pid rank (opt_key opt) ShareLock lt = (q, lt1)" by force
  show ?case
  proof (cases "\<exists>r. q = Inr r \<and> r \<noteq> LOCKACQUIRE_NOT_AVAIL")
    case True
    then obtain r where r: "q = Inr r" "r \<noteq> LOCKACQUIRE_NOT_AVAIL" by blast
    obtain c lt2 s2 where c: "check_read io pid opt r (lt1, s) = (c, lt2, s2)" by (metis prod.exhaust)
    note spec = check_read_spec [OF Cons.prems(1) _ c]
    have step: "(res, lt', s') = (case c of Inl e \<Rightarrow> (Inl e, lt2, s2) | Inr _ \<Rightarrow> validate_reads io pid rank rs (lt2, s2))"
      using Cons.prems(3) att r c by (cases r) (auto split: sum.splits)
    show ?thesis
    proof (cases c)
      case (Inl e)
      with step spec Cons.prems(2) show ?thesis by simp
    next
      case (Inr u)
      with step have "validate_reads io pid rank rs (lt2, s2) = (res, lt', s')" by simp
      from Cons.IH [OF _ _ this] spec Cons.prems(2) Inr show ?thesis by (auto simp: is_current_def)
    qed
  next
    case False
    then have "\<exists>e. res = Inl e \<and> s' = s"
      using Cons.prems(3) att by (cases q) (auto split: LockAcquireResult.splits)
    with Cons.prems(1) show ?thesis by auto
  qed
qed auto

lemma install_writes_spec:
  assumes "good s" "\<forall>opt \<in> set ws. fits (opt_value opt)"
  shows "\<exists>lt' s'. install_writes io pid ws (lt, s) = (Inr (), lt', s') \<and> good s' \<and> contents s' = with_writes seen ws (contents s)"
  using assms
proof (induction ws arbitrary: lt s)
  case (Cons opt ws)
  from put_fits [OF Cons.prems(1), of "opt_value opt" pid "opt_key opt"] Cons.prems(2) obtain s1 where
    s1: "cl_put io pid (opt_key opt) (opt_value opt) s = (Inr True, s1)" "good s1"
        "contents s1 = (contents s)(opt_key opt \<mapsto> seen (opt_value opt))" by auto
  have fits: "\<forall>opt \<in> set ws. fits (opt_value opt)" using Cons.prems(2) by simp
  show ?case
    using Cons.IH [OF s1(2) fits, of "snd (nram_validation_release pid (opt_key opt) ExclusiveLock lt)"] s1(1)
    unfolding s1(3) by (simp del: fun_upd_apply)
qed simp

text \<open>
  A commit that runs without interruption is all or nothing: it installs the whole write set,
  after every recorded version was found current, or it leaves the contents as they were.
\<close>

lemma pre_commit_spec:
  assumes good: "good (env_store env)" and fits: "\<forall>opt \<in> set (write_set x). fits (opt_value opt)"
    and reads: "\<forall>opt \<in> set (read_set x). contents (env_store env) (opt_key opt) \<noteq> None"
    and run: "pre_commit io x env = (r, env')" and new: "\<not> validated x"
  shows "good (env_store env') \<and>
         (case r of
            Inl _ \<Rightarrow> contents (env_store env') = contents (env_store env)
          | Inr _ \<Rightarrow> contents (env_store env') = with_writes seen (list_sort (write_set x)) (contents (env_store env)) \<and>
              (be_serializable env \<longrightarrow> (\<forall>opt \<in> set (read_set x). is_current (contents (env_store env)) opt)) \<and>
              (\<exists>x'. current_nram_xact env' = Some x' \<and> validated x'))"
proof -
  let ?ws = "list_sort (write_set x)" and ?pid = "be_pid env" and ?c = "contents (env_store env)"
  obtain q tmo lt where lock: "lock_write_set ?pid (be_rank env) ?ws (LockTimeout env, env_locks env) = (q, tmo, lt)"
    by (metis prod.exhaust)
  obtain q2 lt2 s2 where val: "validation_phase io x env lt = (q2, lt2, s2)" by (metis prod.exhaust)
  have s2: "good s2 \<and> contents s2 = ?c \<and>
      (q2 = Inr () \<longrightarrow> be_serializable env \<longrightarrow> (\<forall>opt \<in> set (read_set x). is_current ?c opt))"
    using val validate_reads_spec [OF good reads, of ?pid "be_rank env" lt q2 lt2 s2] good
    by (auto simp: validation_phase_def split: if_splits)
  have "\<forall>opt \<in> set ?ws. fits (opt_value opt)" using fits by (simp add: set_list_sort)
  from install_writes_spec [OF conjunct1 [OF s2] this, of ?pid lt2] obtain lt3 s3 where
    ins: "install_writes io ?pid ?ws (lt2, s2) = (Inr (), lt3, s3)" "good s3" "contents s3 = with_writes seen ?ws (contents s2)"
    by blast
  show ?thesis
  proof (cases q)
    case (Inl e)
    then have "env' = env\<lparr>current_nram_xact := Some (x\<lparr>write_set := ?ws\<rparr>), LockTimeout := tmo, env_locks := lt\<rparr>" "r = Inl e"
      using run new by (simp_all add: pre_commit_def lock)
    with good show ?thesis by simp
  next
    case q: (Inr u)
    show ?thesis
    proof (cases q2)
      case (Inl e)
      then have "r = Inl e" "env_store env' = s2" using run new q by (auto simp: pre_commit_def lock val)
      with s2 show ?thesis by simp
    next
      case (Inr u2)
      then have "r = Inr ()" "env_store env' = s3"
          "current_nram_xact env' = Some (x\<lparr>write_set := ?ws, validated := True\<rparr>)"
        using run new q by (auto simp: pre_commit_def lock val ins(1))
      with s2 ins Inr show ?thesis by simp
    qed
  qed
qed

end

section \<open>The storage process meets the contract\<close>

text \<open>
  The state of the storage seen by all backends: which backends have a response channel, and
  the storage process. Each call is a request, one turn of the storage process and the response.
\<close>

record 'db rocks_state =
  rs_open :: "u32 \<Rightarrow> bool"
  rs_service :: "'db service"

definition rs_client :: "u32 \<Rightarrow> 'db rocks_state \<Rightarrow> client" where
  "rs_client pid s = \<lparr>MyProcPid = pid, resp_open = rs_open s pid\<rparr>"

definition rs_return :: "u32 \<Rightarrow> 'db rocks_state \<Rightarrow> 'r \<times> client \<times> 'db service \<Rightarrow> 'r \<times> 'db rocks_state" where
  "rs_return pid s res =
     (let (r, cl, sv) = res in (r, s\<lparr>rs_open := (rs_open s)(pid := resp_open cl), rs_service := sv\<rparr>))"

definition rocks_client ::
  "('db, 'it) rocksdb_api \<Rightarrow> byte list \<Rightarrow> wakeup list \<Rightarrow> wakeup list \<Rightarrow> (u32 \<Rightarrow> wakeup list) \<Rightarrow> 'db rocks_state kv_client" where
  "rocks_client api slack ws ws' sched =
     (let env = storage_turn api slack ws' sched in
      \<lparr>cl_get = (\<lambda>pid k s. rs_return pid s (RocksClientGet slack ws env (rs_client pid s) k (rs_service s))),
       cl_put = (\<lambda>pid k v s. rs_return pid s (RocksClientPut ws env (rs_client pid s) k v (rs_service s))),
       cl_range = (\<lambda>pid lo hi s. rs_return pid s (RocksClientRangeScan slack ws env (rs_client pid s) lo hi (rs_service s)))\<rparr>)"

definition rocks_contents ::
  "('db \<Rightarrow> (byte list \<times> byte list) list) \<Rightarrow> byte list \<Rightarrow> 'db rocks_state \<Rightarrow> nram_key \<Rightarrow> nram_value option" where
  "rocks_contents ents slack s k =
     (case map_of (ents (sv_db (rs_service s))) (tkey_serialize k) of
        None \<Rightarrow> None
      | Some b \<Rightarrow> (case tvalue_deserialize (b @ slack) (length b) of Inl _ \<Rightarrow> None | Inr v \<Rightarrow> Some v))"

definition rocks_good :: "('db \<Rightarrow> (byte list \<times> byte list) list) \<Rightarrow> 'db rocks_state \<Rightarrow> bool" where
  "rocks_good ents s \<longleftrightarrow>
     (\<forall>pid. client_ready (rs_client pid s) (rs_service s)) \<and>
     (\<forall>k b. map_of (ents (sv_db (rs_service s))) (tkey_serialize k) = Some b \<longrightarrow> (\<exists>v. small_value v \<and> b = encoded v))"

lemma rs_client_simps [simp]: "MyProcPid (rs_client pid s) = pid" "resp_open (rs_client pid s) = rs_open s pid"
  by (simp_all add: rs_client_def)

lemma all_ready_after:
  assumes "\<forall>q. client_ready (rs_client q s) (rs_service s)" "service_holds pid [] [] sv'" "same_others pid (rs_service s) sv'"
  shows "client_ready (rs_client q (s\<lparr>rs_open := (rs_open s)(pid := True), rs_service := sv'\<rparr>)) sv'"
proof (cases "q = pid")
  case True
  then show ?thesis using holds_ready [of "rs_client pid s" sv'] assms(2) by (simp add: rs_client_def)
next
  case False
  have "client_ready (rs_client q s) sv'"
    using others_ready [OF spec [OF assms(1), of q] _ assms(2,3)] False by simp
  with False show ?thesis by (simp add: rs_client_def)
qed

lemma decode_small: "small_value v \<Longrightarrow> 2 \<le> length slack \<Longrightarrow>
    tvalue_deserialize (encoded v @ slack) (length (encoded v)) = Inr (read_row slack v)"
  using deserialize_storable [of v slack] by (simp add: small_value_def read_row_def)

lemma rocks_kv_store:
  assumes api: "rocksdb_ok api ents view" and sl: "2 \<le> length slack"
  shows "kv_store (rocks_client api slack ws ws' sched) (rocks_contents ents slack) (rocks_good ents) small_value (read_row slack)"
proof
  let ?io = "rocks_client api slack ws ws' sched"
  have st: "store_ok api ents" using api by (simp add: rocksdb_ok_def)
  fix s pid k v
  assume good: "rocks_good ents s"
  then have ready: "\<forall>q. client_ready (rs_client q s) (rs_service s)" by (simp add: rocks_good_def)
  show "\<exists>s'. cl_get ?io pid k s = (Inr (Some v), s') \<and> rocks_good ents s' \<and> rocks_contents ents slack s' = rocks_contents ents slack s"
    if present: "rocks_contents ents slack s k = Some v"
  proof -
    obtain b where b: "map_of (ents (sv_db (rs_service s))) (tkey_serialize k) = Some b"
      using present by (auto simp: rocks_contents_def split: option.splits)
    then obtain w where w: "small_value w" "b = encoded w" using good unfolding rocks_good_def by blast
    have v: "v = read_row slack w" using present b w decode_small [OF w(1) sl] by (simp add: rocks_contents_def)
    obtain sv' where sv': "RocksClientGet slack ws (storage_turn api slack ws' sched) (rs_client pid s) k (rs_service s) =
        (Inr (Some v), opened (rs_client pid s), sv')" "sv_db sv' = sv_db (rs_service s)"
        "service_holds pid [] [] sv'" "same_others pid (rs_service s) sv'"
      using client_get_stored [OF st spec [OF ready, of pid] w(1) sl, of k ws ws' sched] b w(2) v by auto
    let ?s' = "s\<lparr>rs_open := (rs_open s)(pid := True), rs_service := sv'\<rparr>"
    have "cl_get ?io pid k s = (Inr (Some v), ?s')" using sv'(1) by (simp add: rocks_client_def rs_return_def Let_def)
    moreover have "rocks_good ents ?s'"
      using good all_ready_after [OF ready sv'(3,4)] sv'(2) by (simp add: rocks_good_def)
    moreover have "rocks_contents ents slack ?s' = rocks_contents ents slack s"
      using sv'(2) by (intro ext) (simp add: rocks_contents_def)
    ultimately show ?thesis by blast
  qed
  show "\<exists>s'. cl_put ?io pid k v s = (Inr True, s') \<and> rocks_good ents s' \<and>
      rocks_contents ents slack s' = (rocks_contents ents slack s)(k \<mapsto> read_row slack v)"
    if fits: "small_value v"
  proof -
    obtain sv' where sv': "RocksClientPut ws (storage_turn api slack ws' sched) (rs_client pid s) k v (rs_service s) =
        (Inr True, opened (rs_client pid s), sv')" "service_holds pid [] [] sv'" "same_others pid (rs_service s) sv'"
        "map_of (ents (sv_db sv')) = (map_of (ents (sv_db (rs_service s))))(tkey_serialize k \<mapsto> encoded v)"
      using client_put_ok [OF st spec [OF ready, of pid] fits sl, of ws ws' sched k] by auto
    let ?s' = "s\<lparr>rs_open := (rs_open s)(pid := True), rs_service := sv'\<rparr>"
    have "cl_put ?io pid k v s = (Inr True, ?s')" using sv'(1) by (simp add: rocks_client_def rs_return_def Let_def)
    moreover have "rocks_good ents ?s'"
      using good fits all_ready_after [OF ready sv'(2,3)] sv'(4) by (auto simp: rocks_good_def)
    moreover have "rocks_contents ents slack ?s' = (rocks_contents ents slack s)(k \<mapsto> read_row slack v)"
      using sv'(4) decode_small [OF fits sl] by (intro ext) (simp add: rocks_contents_def)
    ultimately show ?thesis by blast
  qed
next
  show "v_xact_id (read_row slack v) = v_xact_id v" for v by (simp add: read_row_def)
  show "copy_nram_value (read_row slack v) = Inr v" if "small_value v" for v
    using that copy_nram_value_slack [of v "take 2 slack"] by (simp add: read_row_def small_value_def storable_def)
qed

interpretation log: kv_store "rocks_client log_store [0, 0] [] [] (\<lambda>_. [])" "rocks_contents log_entries [0, 0]"
    "rocks_good log_entries" small_value "read_row [0, 0]"
  by (rule rocks_kv_store [OF log_store_ok]) simp

section \<open>Lookups in the sets\<close>

lemma find_opt_Some: "find_opt opts k = Some opt \<Longrightarrow> opt \<in> set opts \<and> opt_key opt = k"
  by (induction opts) (auto simp: find_opt_def split: if_splits)

lemma find_opt_None: "find_opt opts k = None \<longleftrightarrow> k \<notin> opt_key ` set opts"
  by (induction opts) (auto simp: find_opt_def)

lemma find_opt_distinct: "distinct (map opt_key opts) \<Longrightarrow> opt \<in> set opts \<Longrightarrow> find_opt opts (opt_key opt) = Some opt"
  by (induction opts) (auto simp: find_opt_def)

lemma find_opt_append: "find_opt (xs @ ys) k = (case find_opt xs k of None \<Rightarrow> find_opt ys k | Some opt \<Rightarrow> Some opt)"
  by (induction xs) (auto simp: find_opt_def)

lemma replace_value_keys [simp]: "map opt_key (replace_value opts k v) = map opt_key opts"
  by (induction opts) auto

lemma find_replace_value:
  "find_opt (replace_value opts k v) j =
     (if j = k then map_option (\<lambda>opt. opt\<lparr>opt_value := v\<rparr>) (find_opt opts k) else find_opt opts j)"
  by (induction opts) (auto simp: find_opt_def)

lemma copy_nram_value_idem:
  assumes "copy_nram_value v = Inr c"
  shows "copy_nram_value c = Inr c"
proof -
  obtain n where n: "fields_end (nfields_count v) (v_data v) 0 = Inr n" "palloc (8 + n) = Inr ()"
      "n \<le> length (v_data v)" "c = v\<lparr>v_data := take n (v_data v)\<rparr>"
    using assms by (auto simp: copy_nram_value_def mem_read_def ebind_eq_Inr split: if_splits)
  then show ?thesis
    using fields_end_within [OF n(1)] by (simp add: copy_nram_value_def mem_read_def)
qed

lemma distinct_list_sort: "distinct (map opt_key (list_sort opts)) \<longleftrightarrow> distinct (map opt_key opts)"
  by (rule mset_eq_imp_distinct_iff) (simp add: mset_list_sort)

lemma with_writes_lookup:
  "distinct (map opt_key ws) \<Longrightarrow>
     with_writes seen ws m k = (case find_opt ws k of None \<Rightarrow> m k | Some opt \<Rightarrow> Some (seen (opt_value opt)))"
proof (induction ws arbitrary: m)
  case (Cons opt ws)
  then show ?case
    using find_opt_None [of ws k] by (auto simp: find_opt_def split: option.splits)
qed (simp add: find_opt_def)

lemma find_list_sort:
  assumes "distinct (map opt_key ws)"
  shows "find_opt (list_sort ws) k = find_opt ws k"
proof (cases "find_opt ws k")
  case None
  then show ?thesis using find_opt_None [of ws k] find_opt_None [of "list_sort ws" k] by simp
next
  case (Some opt)
  from find_opt_Some [OF this] have "opt \<in> set (list_sort ws)" "opt_key opt = k" by simp_all
  with Some find_opt_distinct [of "list_sort ws" opt] assms show ?thesis by (simp add: distinct_list_sort)
qed

lemma add_write_set_ok:
  assumes "distinct (map opt_key (write_set x))" "copy_nram_value v = Inr c"
  shows "\<exists>x'. add_write_set x k v = Inr x' \<and> distinct (map opt_key (write_set x')) \<and>
           read_own_write x' k = Inr (Some c) \<and> (\<forall>j. j \<noteq> k \<longrightarrow> find_write_set x' j = find_write_set x j) \<and>
           read_set x' = read_set x"
proof (cases "find_write_set x k")
  case None
  let ?o = "\<lparr>opt_type = XACT_OP_WRITE, opt_xact_id = xact_id x, opt_key = k, opt_value = c\<rparr>"
  have "add_write_set x k v = Inr (x\<lparr>write_set := write_set x @ [?o]\<rparr>)"
    using None assms(2) by (simp add: add_write_set_def)
  moreover have "find_opt [?o] j = (if j = k then Some ?o else None)" for j by (auto simp: find_opt_def)
  ultimately show ?thesis
    using None assms(1) copy_nram_value_idem [OF assms(2)] find_opt_None [of "write_set x" k]
    by (auto simp: read_own_write_def find_write_set_def find_opt_append split: option.splits)
next
  case (Some opt)
  then have "add_write_set x k v = Inr (x\<lparr>write_set := replace_value (write_set x) k c\<rparr>)"
    using assms(2) by (simp add: add_write_set_def)
  with Some assms(1) copy_nram_value_idem [OF assms(2)] show ?thesis
    by (simp add: read_own_write_def find_write_set_def find_replace_value)
qed

section \<open>Properties\<close>


definition sample_store :: "write_log rocks_state" where
  "sample_store = \<lparr>rs_open = (\<lambda>_. False), rs_service = run_rocks_start sample_db (\<lambda>_. None)\<rparr>"

definition sample_backend :: "u32 \<Rightarrow> nram_xact \<Rightarrow> write_log rocks_state nram_env" where
  "sample_backend pid x =
     \<lparr>be_pid = pid, be_xid = xact_id x, be_serializable = True, be_rank = 0, LockTimeout = 1000, be_seq = 0,
      current_nram_xact = Some x, xact_hook_registered = True, xact_callbacks = 1,
      env_locks = no_locks, env_policy = Some (builtin_policy False), env_store = sample_store\<rparr>"

definition sample_xact :: "nram_opt list \<Rightarrow> nram_opt list \<Rightarrow> nram_xact" where
  "sample_xact rs ws =
     \<lparr>xact_id = 9, validated = False, feature = None, action = None, cur_cmdtype = CMD_UPDATE, cmdtype_depth = 1,
      cmdtype_stack = [CMD_UPDATE], read_set = rs, write_set = ws\<rparr>"

lemma sample_store_good: "rocks_good log_entries sample_store"
proof -
  have "\<exists>v. small_value v \<and> b = encoded v" if "map_of (log_entries sample_db) (tkey_serialize k) = Some b" for k b
  proof -
    have "(tkey_serialize k, b) \<in> set (log_entries sample_db)" using that by (rule map_of_SomeD)
    then obtain v where "(k, v) \<in> set sample_rows" "b = encoded v"
      using sample_holds_rows by (auto simp: holds_rows_def)
    then show ?thesis using sample_small by (auto simp: sample_rows_def)
  qed
  moreover have "client_ready (rs_client pid sample_store) (rs_service sample_store)" for pid
    by (simp add: sample_store_def rs_client_def start_ready)
  moreover have "sv_db (rs_service sample_store) = sample_db"
    by (simp add: sample_store_def run_rocks_start_def)
  ultimately show ?thesis by (simp add: rocks_good_def)
qed


text \<open>
  C33: the keys of a write set stay distinct, a value that is added is the one the transaction
  reads back for its key, and the entries of the other keys do not change.
\<close>

theorem write_set_functional:
  assumes "distinct (map opt_key (write_set x))" "copy_nram_value v = Inr c"
  shows "\<exists>x'. add_write_set x k v = Inr x' \<and> distinct (map opt_key (write_set x')) \<and>
           read_own_write x' k = Inr (Some c) \<and> (\<forall>j. j \<noteq> k \<longrightarrow> find_write_set x' j = find_write_set x j) \<and>
           read_set x' = read_set x"
  using add_write_set_ok [OF assms] .

theorem write_set_functional_witness:
  "\<exists>x0 x'. NewNRAMXactState 9 = Some x0 \<and> add_write_set x0 \<lparr>tableOid = 1, tid = 2\<rparr> (sample_value 3) = Inr x' \<and>
     read_own_write x' \<lparr>tableOid = 1, tid = 2\<rparr> = Inr (Some (sample_value 3))"
proof -
  obtain x0 where x0: "NewNRAMXactState 9 = Some x0" "write_set x0 = []" by (simp add: NewNRAMXactState_def)
  have "copy_nram_value (sample_value 3) = Inr (sample_value 3)"
    using sample_storable [of 3] copy_nram_value_slack [of "sample_value 3" "[]"] by (simp add: storable_def)
  from write_set_functional [of x0, OF _ this, of "\<lparr>tableOid = 1, tid = 2\<rparr>"] x0 show ?thesis by auto
qed

definition write_of :: "u64 \<Rightarrow> nram_opt" where
  "write_of t = \<lparr>opt_type = XACT_OP_WRITE, opt_xact_id = 1, opt_key = \<lparr>tableOid = 1, tid = t\<rparr>, opt_value = sample_value 1\<rparr>"

text \<open>
  C40: write sets are locked in key order, but the lock of a key only has the low 32 bits of
  its tuple identifier. Two transactions whose write sets are in order can take the same two
  locks in opposite order: each of them holds one lock and waits for the other one.
\<close>

theorem validation_lock_deadlock:
  "list_sort [write_of 1, write_of 2] = [write_of 1, write_of 2] \<and>
   list_sort [write_of 2, write_of 0x100000001] = [write_of 2, write_of 0x100000001] \<and>
   (\<exists>lt1 lt2 lt3 lt4 tmo.
      nram_validation_lock 11 0 (opt_key (write_of 1)) ExclusiveLock (0, no_locks) = (Inr (), 0, lt1) \<and>
      nram_validation_lock 12 0 (opt_key (write_of 2)) ExclusiveLock (0, lt1) = (Inr (), 0, lt2) \<and>
      nram_validation_lock 11 0 (opt_key (write_of 2)) ExclusiveLock (0, lt2) = (Inl Would_block, tmo, lt3) \<and>
      nram_validation_lock 12 0 (opt_key (write_of 0x100000001)) ExclusiveLock (0, lt3) = (Inl Would_block, tmo, lt4))"
proof -
  let ?a = "Tag_advisory 1 1 0 0" and ?b = "Tag_advisory 1 2 0 0"
  let ?w = "\<lambda>p. \<lparr>w_pid = p, waitLockMode = 7, heldLocks = 0, w_rank = 0\<rparr> :: waiter"
  let ?n = "nDep no_locks"
  let ?l1 = "\<lparr>lt_granted = [(?a, 7, 11)], lt_waiters = (\<lambda>_. []), nDep = ?n\<rparr>"
  let ?l2 = "\<lparr>lt_granted = [(?b, 7, 12), (?a, 7, 11)], lt_waiters = (\<lambda>_. []), nDep = ?n\<rparr>"
  let ?l3 = "?l2\<lparr>lt_waiters := (\<lambda>_. [])(?b := [?w 11])\<rparr>"
  let ?l4 = "?l3\<lparr>lt_waiters := (lt_waiters ?l3)(?a := [?w 12])\<rparr>"
  have tags: "validation_tag (opt_key (write_of 1)) = ?a" "validation_tag (opt_key (write_of 2)) = ?b"
      "validation_tag (opt_key (write_of 0x100000001)) = ?a"
    by (simp_all add: validation_tag_def write_of_def)
  have mine: "conflicting 7 7" by (simp add: conflicting_table)
  have free: "\<not> conflicts_with_other 7 no_locks ?a 11" "\<not> conflicts_with_other 7 ?l1 ?b 12"
    by (simp_all add: conflicts_with_other_def holds_def no_locks_def)
  have busy: "conflicts_with_other 7 ?l2 ?b 11" "conflicts_with_other 7 ?l3 ?a 12"
    using mine by (auto simp: conflicts_with_other_def holds_def)
  have masks: "holdMask ?l2 ?b 11 = 0" "holdMask ?l3 ?a 12 = 0"
    by (simp_all add: holdMask_def holds_def mode_mask_def)
  have "LockAcquire 11 0 ?a 7 False no_locks = (Inr LOCKACQUIRE_OK, ?l1)"
    using free(1) by (simp add: LockAcquire_def LockCheckConflicts_iff holds_def waitMask_def mode_mask_def GrantLock_def no_locks_def)
  moreover have "LockAcquire 12 0 ?b 7 False ?l1 = (Inr LOCKACQUIRE_OK, ?l2)"
    using free(2) by (simp add: LockAcquire_def LockCheckConflicts_iff holds_def waitMask_def mode_mask_def GrantLock_def)
  moreover have "LockAcquire 11 0 ?b 7 False ?l2 = (Inl Would_block, ?l3)"
    using busy(1) masks(1) by (simp add: LockAcquire_def LockCheckConflicts_iff holds_def ProcSleep_def)
  moreover have "LockAcquire 12 0 ?a 7 False ?l3 = (Inl Would_block, ?l4)"
    using busy(2) masks(2) by (simp add: LockAcquire_def LockCheckConflicts_iff holds_def ProcSleep_def)
  ultimately show ?thesis
    unfolding nram_validation_lock_def tags
    by (simp add: ExclusiveLock_def list_sort_def write_of_def nram_opt_cmp_def)
qed

text \<open>
  The hook is never unregistered: after it was registered, unregistering it does nothing.
\<close>

theorem hook_stays_registered:
  "nram_unregister_xact_hook (nram_register_xact_hook env) = nram_register_xact_hook env \<and>
   xact_hook_registered (nram_register_xact_hook env)"
  by (simp add: nram_unregister_xact_hook_def nram_register_xact_hook_def)

text \<open>
  The first statement of a transaction always gets entry 0 of the policy, the entry of a
  read, also if it is an update; and once a statement counted as an update, every later one
  does, also a read.
\<close>

theorem statement_features:
  assumes "env_policy env = Some act" "length act = MAX_XACT_FEATURE_SPACE"
  shows "(feature x = None \<longrightarrow> (\<exists>env' x'. before_access x env = (Inr (), env') \<and> current_nram_xact env' = Some x' \<and>
            action x' = Some 0 \<and> be_rank env' = priority (act ! 0) \<and> LockTimeout env' = timeout (act ! 0))) \<and>
         (feature x = Some f \<and> cur_op f = UPDATE_OPT \<longrightarrow> cur_op (next_feature x deps) = UPDATE_OPT)"
proof -
  have zero: "encode_feature_10bit \<lparr>n_access = 0, cur_op = 0, n_dep = d\<rparr> = 0" for d
    by (simp add: encode_feature_10bit_def min_u32_def)
  show ?thesis
    using assms by (auto simp: before_access_def next_feature_def get_action_def zero MAX_XACT_FEATURE_SPACE_def Let_def)
qed

theorem statement_features_witness:
  "\<exists>env' x'. before_access (sample_xact [] []) (sample_backend 5 (sample_xact [] [])) = (Inr (), env') \<and>
     current_nram_xact env' = Some x' \<and> action x' = Some 0 \<and> cur_cmdtype x' = CMD_UPDATE"
proof -
  let ?x = "sample_xact [] []"
  have "\<exists>env' x'. before_access ?x (sample_backend 5 ?x) = (Inr (), env') \<and> current_nram_xact env' = Some x' \<and> action x' = Some 0"
    using statement_features [of "sample_backend 5 ?x" "builtin_policy False" ?x undefined 0]
    by (auto simp: sample_backend_def sample_xact_def builtin_policy_def)
  then show ?thesis by (auto simp: before_access_def sample_xact_def Let_def split: sum.splits)
qed

end
