(* ===== verification/NR_TableAM.thy ===== *)
theory NR_TableAM
  imports NR_Xact
begin

text \<open>
  The table access method: \<^verbatim>\<open>dbengine/nr_kernel/nr_am/src/nram.c\<close>. Scans, fetches by tuple
  identifier, inserts and updates of a table, and the hooks around a statement.

  A callback runs on the variables of its backend and the shared memory; it returns a value or
  raises an error, and the changes made before an error stay. A slot is the tuple identifier,
  the table and the columns of the tuple stored in it. The flags that make a tuple visible to
  the core's own visibility checks are constant and not part of the slot.
\<close>

section \<open>Effects\<close>

type_synonym ('s, 'a) nram_m = "'s nram_env \<Rightarrow> (nr_error + 'a) \<times> 's nram_env"

definition nret :: "'a \<Rightarrow> ('s, 'a) nram_m" where
  "nret x env = (Inr x, env)"

definition nraise :: "nr_error \<Rightarrow> ('s, 'a) nram_m" where
  "nraise e env = (Inl e, env)"

definition nbind :: "('s, 'a) nram_m \<Rightarrow> ('a \<Rightarrow> ('s, 'b) nram_m) \<Rightarrow> ('s, 'b) nram_m" where
  "nbind m f env = (case m env of (Inl e, env') \<Rightarrow> (Inl e, env') | (Inr x, env') \<Rightarrow> f x env')"

definition nlift :: "nr_error + 'a \<Rightarrow> ('s, 'a) nram_m" where
  "nlift r env = (r, env)"

definition nlock :: "(u32 \<Rightarrow> rat \<Rightarrow> lock_table \<Rightarrow> (nr_error + 'a) \<times> lock_table) \<Rightarrow> ('s, 'a) nram_m" where
  "nlock f env = (let (r, lt) = f (be_pid env) (be_rank env) (env_locks env) in (r, env\<lparr>env_locks := lt\<rparr>))"

definition nstore :: "(u32 \<Rightarrow> 's \<Rightarrow> (nr_error + 'a) \<times> 's) \<Rightarrow> ('s, 'a) nram_m" where
  "nstore f env = (let (r, s) = f (be_pid env) (env_store env) in (r, env\<lparr>env_store := s\<rparr>))"

text \<open>The current transaction, and a change of it through its pointer.\<close>

definition nxact :: "('s, nram_xact) nram_m" where
  "nxact env = (case current_nram_xact env of None \<Rightarrow> (Inl Bad_memory, env) | Some x \<Rightarrow> (Inr x, env))"

definition nset_xact :: "nram_xact \<Rightarrow> ('s, unit) nram_m" where
  "nset_xact x env = (Inr (), env\<lparr>current_nram_xact := Some x\<rparr>)"

definition nrefresh :: "('s, unit) nram_m" where
  "nrefresh env = (Inr (), refresh_nram_xact env)"

lemmas nram_m_defs = nret_def nraise_def nbind_def nlift_def nlock_def nstore_def nxact_def nset_xact_def nrefresh_def

section \<open>Relations, slots and scans\<close>

record nram_relation =
  rd_id :: u32
  rd_db :: u32
  rd_att :: "attribute list"

record nram_slot =
  tts_tid :: ItemPointerData
  tts_tableOid :: u32
  tts_values :: "datum option list"

record kv_scan =
  scan_rel :: nram_relation
  min_key :: nram_key
  max_key :: nram_key
  scan_results :: "(nram_key \<times> nram_value) list"
  cursor :: nat

definition nram_value_check_visibility :: "nram_value \<Rightarrow> nram_xact \<Rightarrow> bool" where
  "nram_value_check_visibility tvalue xact = (v_xact_id tvalue = xact_id xact \<or> \<not> NRAMValueIsPrivate tvalue)"

text \<open>\<^verbatim>\<open>xact->action->detect_all\<close>: the action is a null pointer before the first statement.\<close>

definition detects_all :: "('s, bool) nram_m" where
  "detects_all =
     nbind nxact (\<lambda>x env.
       (case (action x, env_policy env) of
          (Some i, Some act) \<Rightarrow> if i < length act then (Inr (detect_all (act ! i)), env) else (Inl Bad_memory, env)
        | _ \<Rightarrow> (Inl Bad_memory, env)))"

definition lock_write :: "nram_relation \<Rightarrow> ItemPointerData \<Rightarrow> ('s, unit) nram_m" where
  "lock_write rel ip = nlock (\<lambda>pid rank. nram_lock_for_write pid rank (rd_db rel) (rd_id rel) ip)"

definition lock_read :: "nram_relation \<Rightarrow> ItemPointerData \<Rightarrow> ('s, unit) nram_m" where
  "lock_read rel ip = nlock (\<lambda>pid rank. nram_lock_for_read pid rank (rd_db rel) (rd_id rel) ip)"

text \<open>The locks of a fetch: by the kind of the running command.\<close>

definition lock_access :: "nram_relation \<Rightarrow> ItemPointerData \<Rightarrow> ('s, unit) nram_m" where
  "lock_access rel ip =
     nbind detects_all (\<lambda>d. nbind nxact (\<lambda>x.
       if \<not> d then nret ()
       else if nram_for_modify (Some x) then lock_write rel ip
       else if nram_for_read (Some x) then lock_read rel ip
       else nret ()))"

definition own_value :: "nram_key \<Rightarrow> ('s, nram_value option) nram_m" where
  "own_value key =
     nbind nxact (\<lambda>x. nlift (ebind (read_own_write x key) (\<lambda>w.
       case w of Some v \<Rightarrow> Inr (Some v) | None \<Rightarrow> read_own_read x key)))"

definition record_read :: "nram_key \<Rightarrow> nram_value \<Rightarrow> ('s, unit) nram_m" where
  "record_read key v = nbind nxact (\<lambda>x. nbind (nlift (add_read_set x key v)) nset_xact)"

definition record_write :: "nram_key \<Rightarrow> nram_value \<Rightarrow> ('s, unit) nram_m" where
  "record_write key v = nbind nxact (\<lambda>x. nbind (nlift (add_write_set x key v)) nset_xact)"

text \<open>The tuple of a value, in a slot.\<close>

definition store_slot :: "nram_relation \<Rightarrow> nram_key \<Rightarrow> nram_value \<Rightarrow> ('s, nram_slot) nram_m" where
  "store_slot rel key v =
     nbind (nlift (deserialize_nram_value_to_tuple v (length (rd_att rel)))) (\<lambda>values.
       nret \<lparr>tts_tid = nram_encode_tid (tid key), tts_tableOid = rd_id rel, tts_values = values\<rparr>)"

section \<open>Table scans\<close>

definition nram_beginscan :: "'s kv_client \<Rightarrow> nram_relation \<Rightarrow> ('s, kv_scan) nram_m" where
  "nram_beginscan io rel =
     (let lo = \<lparr>tableOid = rd_id rel, tid = 0\<rparr>; hi = \<lparr>tableOid = rd_id rel + 1, tid = 0\<rparr> in
      nbind nrefresh (\<lambda>_. nbind nxact (\<lambda>x.
      nbind (if nram_for_read (Some x)
             then nbind detects_all (\<lambda>d.
               if d then nlock (\<lambda>pid rank. nram_lock_for_scan pid rank (rd_db rel) (rd_id rel)) else nret ())
             else nret ()) (\<lambda>_.
      nbind (nstore (\<lambda>pid. cl_range io pid lo hi)) (\<lambda>rows.
        case rows of
          None \<Rightarrow> nraise (Elog ''Get range failed'')
        | Some kvs \<Rightarrow> nret \<lparr>scan_rel = rel, min_key = lo, max_key = hi, scan_results = kvs, cursor = 0\<rparr>)))))"

text \<open>\<^verbatim>\<open>nram_rescan\<close> resets the cursor of a scan it allocates itself; the given scan is not touched.\<close>

definition nram_rescan :: "kv_scan \<Rightarrow> kv_scan" where
  "nram_rescan sscan = sscan"

definition nram_endscan :: "kv_scan \<Rightarrow> ('s, unit) nram_m" where
  "nram_endscan sscan = nrefresh"

text \<open>The value of a row that is shown: locked and read again if the policy asks for it.\<close>

definition reload_row :: "'s kv_client \<Rightarrow> nram_relation \<Rightarrow> nram_key \<Rightarrow> nram_value \<Rightarrow> ('s, nram_value) nram_m" where
  "reload_row io rel key v =
     nbind detects_all (\<lambda>d.
       if \<not> d then nret v
       else nbind (lock_read rel (nram_encode_tid (tid key))) (\<lambda>_.
            nbind (nstore (\<lambda>pid. cl_get io pid key)) (\<lambda>cur.
              case cur of None \<Rightarrow> nraise Bad_memory | Some w \<Rightarrow> nret w)))"

text \<open>The loop over the rows from the cursor on: the next row and the rows behind it, or none.\<close>

fun next_row ::
  "'s kv_client \<Rightarrow> nram_relation \<Rightarrow> (nram_key \<times> nram_value) list \<Rightarrow>
   ('s, (nram_key \<times> nram_value \<times> (nram_key \<times> nram_value) list) option) nram_m" where
  "next_row io rel [] = nret None"
| "next_row io rel ((tkey, tvalue) # rows) =
     nbind (own_value tkey) (\<lambda>own.
       case own of
         Some v \<Rightarrow> nret (Some (tkey, v, rows))
       | None \<Rightarrow>
           nbind nxact (\<lambda>x.
             if nram_value_check_visibility tvalue x
             then nbind (reload_row io rel tkey tvalue) (\<lambda>v.
                  nbind (if nram_for_read (Some x) then record_read tkey v else nret ()) (\<lambda>_.
                    nret (Some (tkey, v, rows))))
             else next_row io rel rows))"

datatype ScanDirection = BackwardScanDirection | NoMovementScanDirection | ForwardScanDirection

definition nram_getnextslot ::
  "'s kv_client \<Rightarrow> kv_scan \<Rightarrow> ScanDirection \<Rightarrow> ('s, nram_slot option \<times> kv_scan) nram_m" where
  "nram_getnextslot io sscan direction =
     nbind nrefresh (\<lambda>_.
       if direction \<noteq> ForwardScanDirection then nret (None, sscan)
       else nbind (next_row io (scan_rel sscan) (drop (cursor sscan) (scan_results sscan))) (\<lambda>r.
         case r of
           None \<Rightarrow> nret (None, sscan\<lparr>cursor := length (scan_results sscan)\<rparr>)
         | Some (tkey, v, rest) \<Rightarrow>
             nbind (store_slot (scan_rel sscan) tkey v) (\<lambda>slot.
               nret (Some slot, sscan\<lparr>cursor := length (scan_results sscan) - length rest\<rparr>))))"

section \<open>Fetching by tuple identifier\<close>

text \<open>\<^verbatim>\<open>nram_index_fetch_tuple\<close>: the slot if a tuple was found, and \<^verbatim>\<open>all_dead\<close>.\<close>

definition nram_index_fetch_tuple ::
  "'s kv_client \<Rightarrow> nram_relation \<Rightarrow> ItemPointerData \<Rightarrow> ('s, nram_slot option \<times> bool) nram_m" where
  "nram_index_fetch_tuple io rel ip =
     (let tkey = nram_key_from_tid (rd_id rel) ip;
          found = (\<lambda>v. nbind (store_slot rel tkey v) (\<lambda>slot. nret (Some slot, False)))
      in nbind nrefresh (\<lambda>_. nbind (own_value tkey) (\<lambda>own.
         case own of
           Some v \<Rightarrow> found v
         | None \<Rightarrow>
             nbind (lock_access rel ip) (\<lambda>_.
             nbind (nstore (\<lambda>pid. cl_get io pid tkey)) (\<lambda>cur.
               case cur of
                 None \<Rightarrow> nret (None, True)
               | Some v \<Rightarrow>
                   nbind nxact (\<lambda>x.
                     if \<not> nram_value_check_visibility v x then nret (None, False)
                     else nbind (if nram_for_read (Some x) then record_read tkey v else nret ()) (\<lambda>_. found v)))))))"

definition nram_fetch_row_version :: "'s kv_client \<Rightarrow> nram_relation \<Rightarrow> ItemPointerData \<Rightarrow> ('s, nram_slot option) nram_m" where
  "nram_fetch_row_version io rel ip =
     (let tkey = nram_key_from_tid (rd_id rel) ip;
          found = (\<lambda>v. nbind (store_slot rel tkey v) (\<lambda>slot. nret (Some slot)))
      in nbind nrefresh (\<lambda>_. nbind (lock_access rel ip) (\<lambda>_. nbind (own_value tkey) (\<lambda>own.
         case own of
           Some v \<Rightarrow> found v
         | None \<Rightarrow>
             nbind (nstore (\<lambda>pid. cl_get io pid tkey)) (\<lambda>cur.
               case cur of
                 None \<Rightarrow> nret None
               | Some v \<Rightarrow>
                   nbind nxact (\<lambda>x.
                     if \<not> nram_value_check_visibility v x then nret None
                     else nbind (record_read tkey v) (\<lambda>_. found v)))))))"

definition nram_tuple_satisfies_snapshot :: "nram_slot option \<Rightarrow> bool" where
  "nram_tuple_satisfies_snapshot slot = (slot \<noteq> None)"

section \<open>Inserting and updating\<close>

definition next_tid :: "('s, ItemPointerData) nram_m" where
  "next_tid env = (let (ip, seq) = nram_generate_tid (be_seq env) (be_pid env) in (Inr ip, env\<lparr>be_seq := seq\<rparr>))"

definition tuple_value :: "(byte list \<Rightarrow> byte list) \<Rightarrow> tuple_columns \<Rightarrow> ('s, nram_value) nram_m" where
  "tuple_value eoh cols env = (nram_value_serialize_from_tuple eoh (be_xid env) cols, env)"

text \<open>
  The new row goes to the storage at once, marked private to the transaction, and to the write
  set without the mark. \<open>failed\<close> is the error of the caller.
\<close>

definition insert_row ::
  "'s kv_client \<Rightarrow> (byte list \<Rightarrow> byte list) \<Rightarrow> string \<Rightarrow> nram_relation \<Rightarrow> tuple_columns \<Rightarrow> ('s, ItemPointerData) nram_m" where
  "insert_row io eoh failed rel cols =
     nbind next_tid (\<lambda>ip.
       (let tkey = nram_key_from_tid (rd_id rel) ip in
        nbind (tuple_value eoh cols) (\<lambda>tvalue.
        nbind detects_all (\<lambda>d.
        nbind (if d then lock_write rel ip else nret ()) (\<lambda>_.
        nbind (nstore (\<lambda>pid. cl_put io pid tkey (tvalue\<lparr>v_flags := v_flags tvalue OR NRAMF_PRIVATE\<rparr>))) (\<lambda>ok.
          if \<not> ok then nraise (Elog failed)
          else nbind (record_write tkey
                 (tvalue\<lparr>v_flags := (v_flags tvalue OR NRAMF_PRIVATE) AND NOT NRAMF_PRIVATE\<rparr>)) (\<lambda>_. nret ip)))))))"

definition nram_insert ::
  "'s kv_client \<Rightarrow> (byte list \<Rightarrow> byte list) \<Rightarrow> nram_relation \<Rightarrow> tuple_columns \<Rightarrow> ('s, ItemPointerData) nram_m" where
  "nram_insert io eoh rel cols =
     nbind nrefresh (\<lambda>_. insert_row io eoh ''RocksClientPut failed in insert'' rel cols)"

definition nram_tuple_insert ::
  "'s kv_client \<Rightarrow> (byte list \<Rightarrow> byte list) \<Rightarrow> nram_relation \<Rightarrow> tuple_columns \<Rightarrow> ('s, ItemPointerData) nram_m" where
  "nram_tuple_insert io eoh rel cols = nbind nrefresh (\<lambda>_. nram_insert io eoh rel cols)"

fun multi_insert_loop ::
  "'s kv_client \<Rightarrow> (byte list \<Rightarrow> byte list) \<Rightarrow> nram_relation \<Rightarrow> tuple_columns list \<Rightarrow> ('s, ItemPointerData list) nram_m" where
  "multi_insert_loop io eoh rel [] = nret []"
| "multi_insert_loop io eoh rel (cols # slots) =
     nbind (insert_row io eoh ''RocksClientPut failed in multi_insert'' rel cols) (\<lambda>ip.
     nbind (multi_insert_loop io eoh rel slots) (\<lambda>ips. nret (ip # ips)))"

definition nram_multi_insert ::
  "'s kv_client \<Rightarrow> (byte list \<Rightarrow> byte list) \<Rightarrow> nram_relation \<Rightarrow> tuple_columns list \<Rightarrow> ('s, ItemPointerData list) nram_m" where
  "nram_multi_insert io eoh rel slots = nbind nrefresh (\<lambda>_. multi_insert_loop io eoh rel slots)"

definition nram_tuple_update ::
  "(byte list \<Rightarrow> byte list) \<Rightarrow> nram_relation \<Rightarrow> ItemPointerData \<Rightarrow> tuple_columns \<Rightarrow> ('s, unit) nram_m" where
  "nram_tuple_update eoh rel otid cols =
     nbind nrefresh (\<lambda>_.
       (let key = nram_key_from_tid (rd_id rel) otid in
        if \<not> ItemPointerIsValid otid then nraise (Elog ''Invalid otid in nram_tuple_update'')
        else nbind nxact (\<lambda>x. nbind (nlift (read_own_write x key)) (\<lambda>local.
             nbind (if local \<noteq> None then nret ()
                    else nbind detects_all (\<lambda>d. if d then lock_write rel otid else nret ())) (\<lambda>_.
             nbind (tuple_value eoh cols) (\<lambda>new_value. record_write key new_value))))))"

text \<open>The callbacks that are not supported raise an error with their name.\<close>

definition nram_unsupported :: "string \<Rightarrow> ('s, 'a) nram_m" where
  "nram_unsupported name = nraise (Elog (''[NRAM] calling unsupported function '' @ name))"

definition nram_tuple_delete :: "nram_relation \<Rightarrow> ItemPointerData \<Rightarrow> ('s, 'a) nram_m" where
  "nram_tuple_delete rel ip = nram_unsupported ''nram_tuple_delete''"

definition nram_tuple_lock :: "nram_relation \<Rightarrow> ItemPointerData \<Rightarrow> ('s, 'a) nram_m" where
  "nram_tuple_lock rel ip = nram_unsupported ''nram_tuple_lock''"

definition nram_tuple_insert_speculative :: "nram_relation \<Rightarrow> ('s, 'a) nram_m" where
  "nram_tuple_insert_speculative r = nram_unsupported ''nram_tuple_insert_speculative''"

definition nram_tuple_complete_speculative :: "nram_relation \<Rightarrow> ('s, 'a) nram_m" where
  "nram_tuple_complete_speculative r = nram_unsupported ''nram_tuple_complete_speculative''"

definition nram_finish_bulk_insert :: "nram_relation \<Rightarrow> ('s, 'a) nram_m" where
  "nram_finish_bulk_insert r = nram_unsupported ''nram_finish_bulk_insert''"

definition nram_get_latest_tid :: "kv_scan \<Rightarrow> ('s, 'a) nram_m" where
  "nram_get_latest_tid r = nram_unsupported ''nram_get_latest_tid''"

definition nram_tuple_tid_valid :: "kv_scan \<Rightarrow> ('s, 'a) nram_m" where
  "nram_tuple_tid_valid r = nram_unsupported ''nram_tuple_tid_valid''"

definition nram_index_delete_tuples :: "nram_relation \<Rightarrow> ('s, 'a) nram_m" where
  "nram_index_delete_tuples r = nram_unsupported ''nram_index_delete_tuples''"

definition nram_relation_nontransactional_truncate :: "nram_relation \<Rightarrow> ('s, 'a) nram_m" where
  "nram_relation_nontransactional_truncate r = nram_unsupported ''nram_relation_nontransactional_truncate''"

definition nram_relation_copy_data :: "nram_relation \<Rightarrow> ('s, 'a) nram_m" where
  "nram_relation_copy_data r = nram_unsupported ''nram_relation_copy_data''"

definition nram_relation_copy_for_cluster :: "nram_relation \<Rightarrow> ('s, 'a) nram_m" where
  "nram_relation_copy_for_cluster r = nram_unsupported ''nram_relation_copy_for_cluster''"

definition nram_vacuum_rel :: "nram_relation \<Rightarrow> ('s, 'a) nram_m" where
  "nram_vacuum_rel r = nram_unsupported ''nram_vacuum_rel''"

definition nram_scan_analyze_next_block :: "kv_scan \<Rightarrow> ('s, 'a) nram_m" where
  "nram_scan_analyze_next_block r = nram_unsupported ''nram_scan_analyze_next_block''"

definition nram_scan_analyze_next_tuple :: "kv_scan \<Rightarrow> ('s, 'a) nram_m" where
  "nram_scan_analyze_next_tuple r = nram_unsupported ''nram_scan_analyze_next_tuple''"

definition nram_index_validate_scan :: "nram_relation \<Rightarrow> ('s, 'a) nram_m" where
  "nram_index_validate_scan r = nram_unsupported ''nram_index_validate_scan''"

definition nram_relation_toast_am :: "nram_relation \<Rightarrow> ('s, 'a) nram_m" where
  "nram_relation_toast_am r = nram_unsupported ''nram_relation_toast_am''"

definition nram_fetch_toast_slice :: "nram_relation \<Rightarrow> ('s, 'a) nram_m" where
  "nram_fetch_toast_slice r = nram_unsupported ''nram_fetch_toast_slice''"

definition nram_scan_bitmap_next_block :: "kv_scan \<Rightarrow> ('s, 'a) nram_m" where
  "nram_scan_bitmap_next_block r = nram_unsupported ''nram_scan_bitmap_next_block''"

definition nram_scan_bitmap_next_tuple :: "kv_scan \<Rightarrow> ('s, 'a) nram_m" where
  "nram_scan_bitmap_next_tuple r = nram_unsupported ''nram_scan_bitmap_next_tuple''"

definition nram_scan_sample_next_block :: "kv_scan \<Rightarrow> ('s, 'a) nram_m" where
  "nram_scan_sample_next_block r = nram_unsupported ''nram_scan_sample_next_block''"

definition nram_scan_sample_next_tuple :: "kv_scan \<Rightarrow> ('s, 'a) nram_m" where
  "nram_scan_sample_next_tuple r = nram_unsupported ''nram_scan_sample_next_tuple''"

text \<open>
  The remaining callbacks begin a fetch through an index, or answer without looking at the
  table: an index is built from no tuple at all, and a relation has size zero.
\<close>

definition nram_slot_callbacks :: "nram_relation \<Rightarrow> ('s, unit) nram_m" where
  "nram_slot_callbacks rel = nrefresh"

definition nram_index_fetch_begin :: "nram_relation \<Rightarrow> ('s, nram_relation) nram_m" where
  "nram_index_fetch_begin rel = nbind nrefresh (\<lambda>_. nret rel)"

definition nram_index_fetch_reset :: "nram_relation \<Rightarrow> ('s, unit) nram_m" where
  "nram_index_fetch_reset scan = nret ()"

definition nram_index_fetch_end :: "nram_relation \<Rightarrow> ('s, unit) nram_m" where
  "nram_index_fetch_end scan = nbind nrefresh (\<lambda>_. nram_index_fetch_reset scan)"

definition nram_index_build_range_scan :: "nram_relation \<Rightarrow> (ItemPointerData \<Rightarrow> ('s, unit) nram_m) \<Rightarrow> ('s, nat) nram_m" where
  "nram_index_build_range_scan rel callback = nret 0"

definition nram_relation_needs_toast_table :: "nram_relation \<Rightarrow> bool" where
  "nram_relation_needs_toast_table rel = False"

definition nram_estimate_rel_size :: "nram_relation \<Rightarrow> nat \<times> nat" where
  "nram_estimate_rel_size rel = (0, 0)"

section \<open>Statements\<close>

definition nram_ExecutorStart :: "CmdType option \<Rightarrow> ('s, unit) nram_m" where
  "nram_ExecutorStart qd =
     nbind nrefresh (\<lambda>_. nbind nxact (\<lambda>x.
       (let ct = (case qd of None \<Rightarrow> CMD_UNKNOWN | Some operation \<Rightarrow> operation);
            stack = (if cmdtype_depth x < NRAM_CMD_STACK_MAX then (cmdtype_stack x)[cmdtype_depth x := ct] else cmdtype_stack x)
        in before_access (x\<lparr>cmdtype_stack := stack, cmdtype_depth := min (cmdtype_depth x + 1) NRAM_CMD_STACK_MAX,
             cur_cmdtype := ct\<rparr>))))"

definition nram_ExecutorEnd :: "('s, unit) nram_m" where
  "nram_ExecutorEnd =
     nbind nrefresh (\<lambda>_. nbind nxact (\<lambda>x.
       if cmdtype_depth x > 0
       then (let d = cmdtype_depth x - 1 in
             nset_xact (x\<lparr>cmdtype_depth := d, cur_cmdtype := (if d > 0 then cmdtype_stack x ! (d - 1) else CMD_UNKNOWN)\<rparr>))
       else nret ()))"

text \<open>The start of the server, the end of the library, and the SQL function that loads a policy.\<close>

definition nram_shmem_startup :: "'s nram_env \<Rightarrow> 's nram_env" where
  "nram_shmem_startup env = env\<lparr>env_policy := Some (init_agent_function_cache (env_policy env))\<rparr>"

definition nram_load_policy :: "(string \<Rightarrow> string option) \<Rightarrow> string \<Rightarrow> ('s, unit) nram_m" where
  "nram_load_policy fs path env =
     (let (r, p) = load_agent_function fs (Some path) (env_policy env) in (r, env\<lparr>env_policy := p\<rparr>))"

section \<open>A statement under optimistic control\<close>

text \<open>A transaction \<open>x\<close> in a statement whose action takes no locks.\<close>

definition running :: "'s nram_env \<Rightarrow> nram_xact \<Rightarrow> bool" where
  "running env x =
     (current_nram_xact env = Some x \<and> xact_id x = be_xid env \<and>
      (case (action x, env_policy env) of
         (Some i, Some act) \<Rightarrow> i < length act \<and> \<not> detect_all (act ! i) | _ \<Rightarrow> False))"

lemma running_steps:
  assumes "running env x"
  shows "nrefresh env = (Inr (), env)" "nxact env = (Inr x, env)" "detects_all env = (Inr False, env)"
    "lock_access rel ip env = (Inr (), env)"
    "own_value key env = (ebind (read_own_write x key) (\<lambda>w. case w of Some v \<Rightarrow> Inr (Some v) | None \<Rightarrow> read_own_read x key), env)"
proof -
  show "nrefresh env = (Inr (), env)" and x: "nxact env = (Inr x, env)"
    using assms by (simp_all add: running_def nrefresh_def refresh_nram_xact_def nxact_def)
  show d: "detects_all env = (Inr False, env)"
    using assms x by (auto simp: detects_all_def nbind_def running_def split: option.splits)
  show "lock_access rel ip env = (Inr (), env)"
    using x d by (simp add: lock_access_def nbind_def nret_def)
  show "own_value key env = (ebind (read_own_write x key) (\<lambda>w. case w of Some v \<Rightarrow> Inr (Some v) | None \<Rightarrow> read_own_read x key), env)"
    using x by (simp add: own_value_def nbind_def nlift_def)
qed

lemma running_store [simp]: "running (env\<lparr>env_store := s\<rparr>) x = running env x"
  by (simp add: running_def)

lemma running_seq [simp]: "running (env\<lparr>be_seq := n\<rparr>) x = running env x"
  by (simp add: running_def)

lemma running_xact: "running env x \<Longrightarrow> xact_id x' = xact_id x \<Longrightarrow> action x' = action x \<Longrightarrow> running (env\<lparr>current_nram_xact := Some x'\<rparr>) x'"
  by (simp add: running_def)

lemma nram_encode_decode: "nram_encode_tid (nram_decode_tid ip) = ip"
proof -
  have "ip_posid (nram_encode_tid (nram_decode_tid ip)) = ip_posid ip"
    by (rule bit_eqI) (auto simp: nram_encode_tid_def nram_decode_tid_def ItemPointerSet_def Let_def tid_bits)
  moreover have "bi_hi (nram_encode_tid (nram_decode_tid ip)) = bi_hi ip"
    by (rule bit_eqI)
      (auto simp: nram_encode_tid_def nram_decode_tid_def ItemPointerSet_def BlockIdGetBlockNumber_def Let_def tid_bits
        dest: bit_imp_le_length)
  moreover have "bi_lo (nram_encode_tid (nram_decode_tid ip)) = bi_lo ip"
    by (rule bit_eqI)
      (auto simp: nram_encode_tid_def nram_decode_tid_def ItemPointerSet_def BlockIdGetBlockNumber_def Let_def tid_bits
        dest: bit_imp_le_length)
  ultimately show ?thesis by simp
qed

lemma store_slot_key:
  "deserialize_nram_value_to_tuple v (length (rd_att rel)) = Inr vals \<Longrightarrow>
     store_slot rel (nram_key_from_tid oid ip) v env = (Inr \<lparr>tts_tid = ip, tts_tableOid = rd_id rel, tts_values = vals\<rparr>, env)"
  by (simp add: store_slot_def nbind_def nlift_def nret_def nram_key_from_tid_def nram_encode_decode)

lemma value_flags [simp]:
  "small_value (v\<lparr>v_flags := f\<rparr>) = small_value v" "value_wf (v\<lparr>v_flags := f\<rparr>) = value_wf v"
  by (simp_all add: small_value_def storable_def value_wf_def)

lemma fits_tuple:
  assumes "tuple_fits eoh cols"
  shows "\<exists>v. nram_value_serialize_from_tuple eoh xid cols = Inr v \<and> v_xact_id v = xid \<and> v_flags v = 0 \<and> value_wf v \<and>
           10 + length (v_data v) \<le> MaxAllocSize \<and>
           (\<forall>f rest. deserialize_nram_value_to_tuple (v\<lparr>v_flags := f, v_data := v_data v @ rest\<rparr>) (length cols) = Inr (flat_cols eoh cols))"
proof -
  from tuple_to_value [OF assms, of xid] obtain v where
    v: "nram_value_serialize_from_tuple eoh xid cols = Inr v" "value_wf v" "10 + length (v_data v) \<le> MaxAllocSize"
       "v_xact_id v = xid" "v_flags v = 0" "sint (v_nfields v) = int (length cols)"
       "\<And>rest. restore_fields (length cols) (v_data v @ rest) 0 = Inr (flat_cols eoh cols)" by blast
  have "deserialize_nram_value_to_tuple (v\<lparr>v_flags := f, v_data := v_data v @ rest\<rparr>) (length cols) = Inr (flat_cols eoh cols)" for f rest
    using v(6,7) assms by (intro value_to_tuple) (simp_all add: tuple_fits_def)
  with v show ?thesis by blast
qed

lemma record_write_run:
  assumes "running env x" "value_wf v" "10 + length (v_data v) \<le> MaxAllocSize" "distinct (map opt_key (write_set x))"
  shows "\<exists>x'. record_write key v env = (Inr (), env\<lparr>current_nram_xact := Some x'\<rparr>) \<and>
           running (env\<lparr>current_nram_xact := Some x'\<rparr>) x' \<and> distinct (map opt_key (write_set x')) \<and>
           read_own_write x' key = Inr (Some v) \<and> (\<forall>j. j \<noteq> key \<longrightarrow> find_write_set x' j = find_write_set x j) \<and>
           read_set x' = read_set x \<and> xact_id x' = xact_id x"
proof -
  have copy: "copy_nram_value v = Inr v" using copy_nram_value_slack [OF assms(2), of "[]"] assms(3) by simp
  obtain x' where x': "add_write_set x key v = Inr x'" "distinct (map opt_key (write_set x'))"
      "read_own_write x' key = Inr (Some v)" "\<forall>j. j \<noteq> key \<longrightarrow> find_write_set x' j = find_write_set x j" "read_set x' = read_set x"
    using add_write_set_ok [OF assms(4) copy] by blast
  have same: "xact_id x' = xact_id x" "action x' = action x"
    using x'(1) copy by (auto simp: add_write_set_def split: option.splits)
  with x' running_steps(2) [OF assms(1)] running_xact [OF assms(1) same] show ?thesis
    by (intro exI [of _ x']) (simp add: record_write_def nbind_def nlift_def nset_xact_def)
qed

lemma fetch_own:
  assumes "running env x" "read_own_write x (nram_key_from_tid (rd_id rel) ip) = Inr (Some v)"
    and "deserialize_nram_value_to_tuple v (length (rd_att rel)) = Inr vals"
  shows "nram_index_fetch_tuple io rel ip env =
           (Inr (Some \<lparr>tts_tid = ip, tts_tableOid = rd_id rel, tts_values = vals\<rparr>, False), env)"
  using assms(2)
  by (simp add: nram_index_fetch_tuple_def nbind_def nret_def Let_def running_steps [OF assms(1)] store_slot_key [OF assms(3)])

context kv_store
begin

lemma insert_row_run:
  assumes "running env x" "good (env_store env)" "tuple_fits eoh cols" "distinct (map opt_key (write_set x))"
    and v: "nram_value_serialize_from_tuple eoh (be_xid env) cols = Inr v" "fits (v\<lparr>v_flags := NRAMF_PRIVATE\<rparr>)"
  shows "\<exists>ip env' x'. insert_row io eoh failed rel cols env = (Inr ip, env') \<and> ip = fst (nram_generate_tid (be_seq env) (be_pid env)) \<and>
           running env' x' \<and> good (env_store env') \<and> distinct (map opt_key (write_set x')) \<and>
           read_own_write x' (nram_key_from_tid (rd_id rel) ip) = Inr (Some v) \<and>
           (\<forall>j. j \<noteq> nram_key_from_tid (rd_id rel) ip \<longrightarrow> find_write_set x' j = find_write_set x j) \<and> read_set x' = read_set x \<and>
           contents (env_store env') = (contents (env_store env))(nram_key_from_tid (rd_id rel) ip \<mapsto> seen (v\<lparr>v_flags := NRAMF_PRIVATE\<rparr>))"
proof -
  obtain ip n where ip: "nram_generate_tid (be_seq env) (be_pid env) = (ip, n)" by force
  let ?k = "nram_key_from_tid (rd_id rel) ip" and ?p = "v\<lparr>v_flags := NRAMF_PRIVATE\<rparr>" and ?e = "env\<lparr>be_seq := n\<rparr>"
  from fits_tuple [OF assms(3), of "be_xid env"] v(1) have wf: "value_wf v" "10 + length (v_data v) \<le> MaxAllocSize" "v_flags v = 0"
    by auto
  obtain s1 where put: "cl_put io (be_pid env) ?k ?p (env_store env) = (Inr True, s1)" "good s1"
      "contents s1 = (contents (env_store env))(?k \<mapsto> seen ?p)"
    using put_fits [OF assms(2) v(2)] by blast
  let ?e1 = "?e\<lparr>env_store := s1\<rparr>"
  have run1: "running ?e1 x" using assms(1) by simp
  obtain x' where w: "record_write ?k v ?e1 = (Inr (), ?e1\<lparr>current_nram_xact := Some x'\<rparr>)"
      "running (?e1\<lparr>current_nram_xact := Some x'\<rparr>) x'" "distinct (map opt_key (write_set x'))"
      "read_own_write x' ?k = Inr (Some v)" "\<forall>j. j \<noteq> ?k \<longrightarrow> find_write_set x' j = find_write_set x j" "read_set x' = read_set x"
    using record_write_run [OF run1 wf(1,2) assms(4)] by blast
  have flags: "v\<lparr>v_flags := v_flags v OR NRAMF_PRIVATE\<rparr> = ?p"
      "v\<lparr>v_flags := (v_flags v OR NRAMF_PRIVATE) AND NOT NRAMF_PRIVATE\<rparr> = v"
    using wf(3) private_flags(1) by (simp_all add: nram_value.equality)
  have "detects_all ?e = (Inr False, ?e)" using running_steps(3) [of ?e x] assms(1) by simp
  then have "insert_row io eoh failed rel cols env = (Inr ip, ?e1\<lparr>current_nram_xact := Some x'\<rparr>)"
    using put(1) w(1) ip v(1)
    by (simp add: insert_row_def nbind_def next_tid_def tuple_value_def nstore_def nret_def Let_def flags)
  then show ?thesis using w put ip by (intro exI [of _ ip] exI [of _ "?e1\<lparr>current_nram_xact := Some x'\<rparr>"] exI [of _ x']) simp
qed

end

lemma tuple_of_value:
  assumes "tuple_fits eoh cols" "nram_value_serialize_from_tuple eoh xid cols = Inr v"
  shows "deserialize_nram_value_to_tuple v (length cols) = Inr (flat_cols eoh cols)"
    and "deserialize_nram_value_to_tuple (read_row slack v) (length cols) = Inr (flat_cols eoh cols)"
proof -
  have "\<forall>f rest. deserialize_nram_value_to_tuple (v\<lparr>v_flags := f, v_data := v_data v @ rest\<rparr>) (length cols) = Inr (flat_cols eoh cols)"
    using fits_tuple [OF assms(1), of xid] assms(2) by auto
  from this [THEN spec [of _ "v_flags v"]]
  have *: "deserialize_nram_value_to_tuple (v\<lparr>v_data := v_data v @ rest\<rparr>) (length cols) = Inr (flat_cols eoh cols)" for rest by simp
  show "deserialize_nram_value_to_tuple v (length cols) = Inr (flat_cols eoh cols)" using * [of "[]"] by simp
  show "deserialize_nram_value_to_tuple (read_row slack v) (length cols) = Inr (flat_cols eoh cols)"
    using * by (simp add: read_row_def)
qed

section \<open>Properties\<close>

text \<open>
  C12: a tuple inserted by a transaction under optimistic control is what the transaction
  fetches at the identifier the insert returned. The storage has the new row at once, marked
  private, and no other row changes.
\<close>

theorem insert_then_fetch:
  assumes "rocksdb_ok api ents view" "2 \<le> length slack" "rocks_good ents (env_store env)"
    and "running env x" "distinct (map opt_key (write_set x))"
    and "tuple_fits eoh cols" "length (rd_att rel) = length cols"
    and "nram_value_serialize_from_tuple eoh (be_xid env) cols = Inr v" "length (v_data v) \<le> 972"
  shows "\<exists>ip env'. nram_tuple_insert (rocks_client api slack ws ws' sched) eoh rel cols env = (Inr ip, env') \<and>
           nram_index_fetch_tuple (rocks_client api slack ws ws' sched) rel ip env' =
             (Inr (Some \<lparr>tts_tid = ip, tts_tableOid = rd_id rel, tts_values = flat_cols eoh cols\<rparr>, False), env') \<and>
           rocks_contents ents slack (env_store env') =
             (rocks_contents ents slack (env_store env))
               (nram_key_from_tid (rd_id rel) ip \<mapsto> read_row slack (v\<lparr>v_flags := NRAMF_PRIVATE\<rparr>))"
proof -
  let ?io = "rocks_client api slack ws ws' sched"
  have wf: "value_wf v" "10 + length (v_data v) \<le> MaxAllocSize" using fits_tuple [OF assms(6), of "be_xid env"] assms(8) by auto
  then have small: "small_value (v\<lparr>v_flags := NRAMF_PRIVATE\<rparr>)" using assms(9) by (simp add: small_value_def storable_def)
  obtain ip env' x' where ins: "insert_row ?io eoh ''RocksClientPut failed in insert'' rel cols env = (Inr ip, env')"
      "running env' x'" "read_own_write x' (nram_key_from_tid (rd_id rel) ip) = Inr (Some v)"
      "rocks_contents ents slack (env_store env') = (rocks_contents ents slack (env_store env))
         (nram_key_from_tid (rd_id rel) ip \<mapsto> read_row slack (v\<lparr>v_flags := NRAMF_PRIVATE\<rparr>))"
    using kv_store.insert_row_run [OF rocks_kv_store [OF assms(1,2)] assms(4,3,6,5,8) small] by blast
  have "nram_tuple_insert ?io eoh rel cols env = (Inr ip, env')"
    using ins(1) running_steps(1) [OF assms(4)] by (simp add: nram_tuple_insert_def nram_insert_def nbind_def)
  moreover have "deserialize_nram_value_to_tuple v (length (rd_att rel)) = Inr (flat_cols eoh cols)"
    using tuple_of_value(1) [OF assms(6,8)] assms(7) by simp
  ultimately show ?thesis using fetch_own [OF ins(2,3)] ins(4) by blast
qed

definition sample_cols :: tuple_columns where
  "sample_cols = [(\<lparr>attbyval = True, attlen = 4, atttypid = 23\<rparr>, Some (DByVal 42))]"

definition sample_rel :: nram_relation where
  "sample_rel = \<lparr>rd_id = 1, rd_db = 1, rd_att = map fst sample_cols\<rparr>"

definition sample_run :: "write_log rocks_state nram_env" where
  "sample_run = sample_backend 5 ((sample_xact [] [])\<lparr>action := Some 0\<rparr>)"

lemma sample_running: "running sample_run ((sample_xact [] [])\<lparr>action := Some 0\<rparr>)"
  by (simp add: running_def sample_run_def sample_backend_def sample_xact_def builtin_policy_def MAX_XACT_FEATURE_SPACE_def)

lemma sample_fits: "tuple_fits id sample_cols"
  by (simp add: sample_cols_def tuple_fits_def cols_ok_def MaxAllocSize_def datum_eval)

lemma sample_tuple:
  "\<exists>v. nram_value_serialize_from_tuple id xid sample_cols = Inr v \<and> length (v_data v) \<le> 972" "flat_cols id sample_cols = [Some (DByVal 42)]"
  by (simp_all add: sample_cols_def nram_value_serialize_from_tuple_def datum_eval palloc_def MaxAllocSize_def
      datumSerialize_def field_header_def)

theorem insert_then_fetch_witness:
  "\<exists>ip env'. nram_tuple_insert (rocks_client log_store [0, 0] [] [] (\<lambda>_. [])) id sample_rel sample_cols sample_run = (Inr ip, env') \<and>
     nram_index_fetch_tuple (rocks_client log_store [0, 0] [] [] (\<lambda>_. [])) sample_rel ip env' =
       (Inr (Some \<lparr>tts_tid = ip, tts_tableOid = 1, tts_values = [Some (DByVal 42)]\<rparr>, False), env')"
proof -
  have good: "rocks_good log_entries (env_store sample_run)"
    by (simp add: sample_run_def sample_backend_def sample_store_good)
  obtain v where v: "nram_value_serialize_from_tuple id (be_xid sample_run) sample_cols = Inr v" "length (v_data v) \<le> 972"
    using sample_tuple(1) by blast
  show ?thesis
    using insert_then_fetch [OF log_store_ok _ good sample_running _ sample_fits _ v, of "[0, 0]" sample_rel "[]" "[]" "\<lambda>_. []"]
    unfolding sample_tuple(2) by (auto simp: sample_rel_def sample_xact_def)
qed





end
