(* ===== verification/NR_Executor.thy ===== *)
theory NR_Executor
  imports NR_TableAM "HOL-Library.Sublist"
begin

text \<open>
  The access method as the executor drives it: the loop over \<^verbatim>\<open>nram_getnextslot\<close> until a scan
  has no more tuples, and statements that run inside other statements, bracketed by the hooks
  \<^verbatim>\<open>nram_ExecutorStart\<close> and \<^verbatim>\<open>nram_ExecutorEnd\<close>.
\<close>

section \<open>A full scan\<close>

text \<open>
  The loop of the executor over a scan: \<^verbatim>\<open>nram_getnextslot\<close> until it finds no tuple. \<open>None\<close>: the
  bound on the calls was reached.
\<close>

fun scan_loop :: "nat \<Rightarrow> 's kv_client \<Rightarrow> kv_scan \<Rightarrow> ('s, nram_slot list option) nram_m" where
  "scan_loop 0 io sscan = nret None"
| "scan_loop (Suc n) io sscan =
     nbind (nram_getnextslot io sscan ForwardScanDirection) (\<lambda>(r, sscan').
       case r of
         None \<Rightarrow> nret (Some [])
       | Some slot \<Rightarrow> nbind (scan_loop n io sscan') (\<lambda>slots. nret (map_option ((#) slot) slots)))"

text \<open>What the transaction sees of a row: its own write, the value it read before, or the row.\<close>

definition own_or_visible :: "nram_xact \<Rightarrow> nram_key \<Rightarrow> nram_value \<Rightarrow> nram_value option" where
  "own_or_visible x k v =
     (case (find_write_set x k, find_read_set x k) of
        (Some opt, _) \<Rightarrow> Some (opt_value opt)
      | (None, Some opt) \<Rightarrow> Some (opt_value opt)
      | (None, None) \<Rightarrow> if nram_value_check_visibility v x then Some v else None)"

fun rows_shown :: "nram_xact \<Rightarrow> (nram_key \<times> nram_value) list \<Rightarrow> (nram_key \<times> nram_value) list" where
  "rows_shown x [] = []"
| "rows_shown x ((k, v) # rows) =
     (case own_or_visible x k v of None \<Rightarrow> rows_shown x rows | Some w \<Rightarrow> (k, w) # rows_shown x rows)"

definition slot_of :: "nram_relation \<Rightarrow> nram_key \<times> nram_value \<Rightarrow> nram_slot" where
  "slot_of rel = (\<lambda>(k, w). \<lparr>tts_tid = nram_encode_tid (tid k), tts_tableOid = rd_id rel,
     tts_values = (case deserialize_nram_value_to_tuple w (length (rd_att rel)) of Inl _ \<Rightarrow> [] | Inr vals \<Rightarrow> vals)\<rparr>)"

text \<open>The values of both sets are copies, and the rows can be copied.\<close>

definition sets_copied :: "nram_xact \<Rightarrow> bool" where
  "sets_copied x = (\<forall>opt \<in> set (write_set x) \<union> set (read_set x). copy_nram_value (opt_value opt) = Inr (opt_value opt))"

definition rows_ok :: "(nram_key \<times> nram_value) list \<Rightarrow> bool" where
  "rows_ok rows = (distinct (map fst rows) \<and> (\<forall>(k, v) \<in> set rows. \<exists>c. copy_nram_value v = Inr c))"

lemma own_value_cases:
  assumes "running env x" "sets_copied x"
  shows "own_value k env =
    (Inr (case (find_write_set x k, find_read_set x k) of
        (Some opt, _) \<Rightarrow> Some (opt_value opt) | (None, Some opt) \<Rightarrow> Some (opt_value opt) | (None, None) \<Rightarrow> None), env)"
proof -
  have "copy_nram_value (opt_value opt) = Inr (opt_value opt)" if "find_write_set x k = Some opt \<or> find_read_set x k = Some opt" for opt
    using that assms(2) find_opt_Some by (auto simp: sets_copied_def find_write_set_def find_read_set_def)
  then show ?thesis
    unfolding running_steps(5) [OF assms(1)] read_own_write_def read_own_read_def by (auto split: option.split)
qed

lemma record_read_run:
  assumes "running env x" "sets_copied x" "copy_nram_value v = Inr c"
  shows "\<exists>x'. record_read k v env = (Inr (), env\<lparr>current_nram_xact := Some x'\<rparr>) \<and>
           running (env\<lparr>current_nram_xact := Some x'\<rparr>) x' \<and> sets_copied x' \<and> cur_cmdtype x' = cur_cmdtype x \<and>
           (\<forall>j w. j \<noteq> k \<longrightarrow> own_or_visible x' j w = own_or_visible x j w)"
proof -
  let ?x = "x\<lparr>read_set := read_set x @ [\<lparr>opt_type = XACT_OP_READ, opt_xact_id = v_xact_id v, opt_key = copy_nram_key k, opt_value = c\<rparr>]\<rparr>"
  have "record_read k v env = (Inr (), env\<lparr>current_nram_xact := Some ?x\<rparr>)"
    using assms(3) by (simp add: record_read_def nbind_def nlift_def nset_xact_def running_steps(2) [OF assms(1)] add_read_set_def)
  moreover have "own_or_visible ?x j w = own_or_visible x j w" if "j \<noteq> k" for j w
  proof -
    have "find_read_set ?x j = find_read_set x j"
      using that by (simp add: find_read_set_def find_opt_append) (simp add: find_opt_def split: option.split)
    then show ?thesis by (simp add: own_or_visible_def find_write_set_def nram_value_check_visibility_def cong: option.case_cong)
  qed
  ultimately show ?thesis
    using assms(2) copy_nram_value_idem [OF assms(3)] running_xact [OF assms(1), of ?x]
    by (intro exI [of _ ?x]) (simp add: sets_copied_def)
qed

text \<open>The row at the cursor: skipped, or shown; a row that is read is recorded.\<close>

lemma next_row_hidden:
  assumes "running env x" "sets_copied x" "own_or_visible x k v = None"
  shows "next_row io rel ((k, v) # rows) env = next_row io rel rows env"
  using assms(3) own_value_cases [OF assms(1,2), of k] running_steps(2) [OF assms(1)]
  by (auto simp: own_or_visible_def nbind_def split: option.splits if_splits)

lemma next_row_shown:
  assumes "running env x" "sets_copied x" "own_or_visible x k v = Some w" "copy_nram_value v = Inr c"
  shows "\<exists>x'. next_row io rel ((k, v) # rows) env = (Inr (Some (k, w, rows)), env\<lparr>current_nram_xact := Some x'\<rparr>) \<and>
           running (env\<lparr>current_nram_xact := Some x'\<rparr>) x' \<and> sets_copied x' \<and>
           (\<forall>j u. j \<noteq> k \<longrightarrow> own_or_visible x' j u = own_or_visible x j u)"
proof -
  note own = own_value_cases [OF assms(1,2), of k] and x = running_steps(2,3) [OF assms(1)]
  have self: "env\<lparr>current_nram_xact := Some x\<rparr> = env" using assms(1) by (simp add: running_def)
  have reload: "reload_row io rel k v env = (Inr v, env)" using x by (simp add: reload_row_def nbind_def nret_def)
  consider (own) "find_write_set x k \<noteq> None \<or> find_read_set x k \<noteq> None"
    | (read) "find_write_set x k = None" "find_read_set x k = None" "nram_for_read (Some x)"
    | (other) "find_write_set x k = None" "find_read_set x k = None" "\<not> nram_for_read (Some x)" by blast
  then show ?thesis
  proof cases
    case own
    then have "next_row io rel ((k, v) # rows) env = (Inr (Some (k, w, rows)), env)"
      using own_value_cases [OF assms(1,2), of k] assms(3) by (auto simp: own_or_visible_def nbind_def nret_def split: option.splits)
    with assms self show ?thesis by (intro exI [of _ x]) simp
  next
    case read
    then have "nram_value_check_visibility v x" "w = v" using assms(3) by (auto simp: own_or_visible_def split: if_splits)
    with record_read_run [OF assms(1,2,4), of k] read own x reload show ?thesis by (auto simp: nbind_def nret_def)
  next
    case other
    then have "nram_value_check_visibility v x" "w = v" using assms(3) by (auto simp: own_or_visible_def split: if_splits)
    with other own x reload self assms show ?thesis by (intro exI [of _ x]) (simp add: nbind_def nret_def)
  qed
qed

lemma rows_shown_cong:
  "\<forall>j u. j \<noteq> k \<longrightarrow> own_or_visible x' j u = own_or_visible x j u \<Longrightarrow> k \<notin> fst ` set rows \<Longrightarrow> rows_shown x' rows = rows_shown x rows"
  by (induction rows) (auto split: option.split)

text \<open>One step of the scan: the first row that is shown, with the rows behind it.\<close>

lemma next_row_run:
  assumes "running env x" "sets_copied x" "rows_ok rows"
  shows "(case rows_shown x rows of
      [] \<Rightarrow> next_row io rel rows env = (Inr None, env)
    | (k, w) # shown \<Rightarrow> (\<exists>rest x'. next_row io rel rows env = (Inr (Some (k, w, rest)), env\<lparr>current_nram_xact := Some x'\<rparr>) \<and>
        running (env\<lparr>current_nram_xact := Some x'\<rparr>) x' \<and> sets_copied x' \<and> suffix rest rows \<and> length rest < length rows \<and>
        rows_shown x' rest = shown))"
  using assms(3)
proof (induction rows)
  case Nil
  then show ?case by (simp add: nret_def)
next
  case (Cons row rows)
  obtain k v where row: "row = (k, v)" by force
  have ok: "rows_ok rows" "k \<notin> fst ` set rows" using Cons.prems row by (auto simp: rows_ok_def)
  obtain c where c: "copy_nram_value v = Inr c" using Cons.prems row by (auto simp: rows_ok_def)
  show ?case
  proof (cases "own_or_visible x k v")
    case None
    with Cons.IH [OF ok(1)] next_row_hidden [OF assms(1,2) None, of io rel rows] row show ?thesis
      by (auto simp: suffix_Cons simp del: next_row.simps split: list.splits)
  next
    case (Some w)
    from next_row_shown [OF assms(1,2) Some c, of io rel rows] obtain x' where x':
      "next_row io rel ((k, v) # rows) env = (Inr (Some (k, w, rows)), env\<lparr>current_nram_xact := Some x'\<rparr>)"
      "running (env\<lparr>current_nram_xact := Some x'\<rparr>) x'" "sets_copied x'"
      "\<forall>j u. j \<noteq> k \<longrightarrow> own_or_visible x' j u = own_or_visible x j u" by blast
    with Some row rows_shown_cong [OF x'(4) ok(2)] show ?thesis
      by (auto simp: suffix_Cons simp del: next_row.simps)
  qed
qed

definition rows_decode :: "nram_relation \<Rightarrow> (nram_key \<times> nram_value) list \<Rightarrow> bool" where
  "rows_decode rel rows = (\<forall>(k, w) \<in> set rows. \<exists>vals. deserialize_nram_value_to_tuple w (length (rd_att rel)) = Inr vals)"

lemma store_slot_of: "rows_decode rel ((k, w) # rows) \<Longrightarrow> store_slot rel k w env = (Inr (slot_of rel (k, w)), env)"
  by (auto simp: rows_decode_def store_slot_def slot_of_def nbind_def nlift_def nret_def)

lemma getnextslot_run:
  assumes "running env x" "sets_copied x" "rows_ok (drop (cursor sc) (scan_results sc))"
    and "rows_decode (scan_rel sc) (rows_shown x (drop (cursor sc) (scan_results sc)))"
  shows "(case rows_shown x (drop (cursor sc) (scan_results sc)) of
      [] \<Rightarrow> nram_getnextslot io sc ForwardScanDirection env = (Inr (None, sc\<lparr>cursor := length (scan_results sc)\<rparr>), env)
    | row # shown \<Rightarrow> (\<exists>c x'.
        nram_getnextslot io sc ForwardScanDirection env =
          (Inr (Some (slot_of (scan_rel sc) row), sc\<lparr>cursor := c\<rparr>), env\<lparr>current_nram_xact := Some x'\<rparr>) \<and>
        running (env\<lparr>current_nram_xact := Some x'\<rparr>) x' \<and> sets_copied x' \<and> cursor sc < c \<and> c \<le> length (scan_results sc) \<and>
        rows_ok (drop c (scan_results sc)) \<and> rows_shown x' (drop c (scan_results sc)) = shown))"
proof (cases "rows_shown x (drop (cursor sc) (scan_results sc))")
  case Nil
  then show ?thesis
    using next_row_run [OF assms(1-3), of io "scan_rel sc"] by (simp add: nram_getnextslot_def nbind_def nret_def running_steps(1) [OF assms(1)])
next
  case (Cons row shown)
  obtain k w where row: "row = (k, w)" by force
  let ?rows = "drop (cursor sc) (scan_results sc)"
  obtain rest x' where step: "next_row io (scan_rel sc) ?rows env = (Inr (Some (k, w, rest)), env\<lparr>current_nram_xact := Some x'\<rparr>)"
      "running (env\<lparr>current_nram_xact := Some x'\<rparr>) x'" "sets_copied x'" "suffix rest ?rows" "length rest < length ?rows"
      "rows_shown x' rest = shown"
    using next_row_run [OF assms(1-3), of io "scan_rel sc"] Cons row by auto
  let ?c = "length (scan_results sc) - length rest"
  obtain zs where zs: "?rows = zs @ rest" using step(4) by (auto simp: suffix_def)
  then have "scan_results sc = (take (cursor sc) (scan_results sc) @ zs) @ rest" by (metis append_take_drop_id append.assoc)
  then have rest: "drop ?c (scan_results sc) = rest" by (metis append_eq_conv_conj length_append add_diff_cancel_right')
  have "rows_ok rest" using assms(3) zs by (auto simp: rows_ok_def)
  moreover have "nram_getnextslot io sc ForwardScanDirection env =
      (Inr (Some (slot_of (scan_rel sc) row), sc\<lparr>cursor := ?c\<rparr>), env\<lparr>current_nram_xact := Some x'\<rparr>)"
    using step(1) assms(4) Cons row
    by (simp add: nram_getnextslot_def nbind_def nret_def running_steps(1) [OF assms(1)] store_slot_of)
  moreover have "cursor sc < ?c" "?c \<le> length (scan_results sc)" using step(5) by auto
  ultimately show ?thesis using step(2,3,6) unfolding Cons list.case by (intro exI [of _ ?c] exI [of _ x']) (simp add: rest)
qed

lemma scan_loop_run:
  assumes "running env x" "sets_copied x" "rows_ok (drop (cursor sc) (scan_results sc))"
    and "rows_decode (scan_rel sc) (rows_shown x (drop (cursor sc) (scan_results sc)))"
    and "length (scan_results sc) - cursor sc < n"
  shows "\<exists>x'. scan_loop n io sc env =
           (Inr (Some (map (slot_of (scan_rel sc)) (rows_shown x (drop (cursor sc) (scan_results sc))))),
            env\<lparr>current_nram_xact := Some x'\<rparr>)"
  using assms
proof (induction n arbitrary: env x sc)
  case (Suc n)
  note step = getnextslot_run [OF Suc.prems(1-4), of io]
  have self: "env\<lparr>current_nram_xact := Some x\<rparr> = env" using Suc.prems(1) by (simp add: running_def)
  show ?case
  proof (cases "rows_shown x (drop (cursor sc) (scan_results sc))")
    case Nil
    with step self show ?thesis by (intro exI [of _ x]) (simp add: nbind_def nret_def)
  next
    case (Cons row shown)
    then obtain c x' where c: "nram_getnextslot io sc ForwardScanDirection env =
          (Inr (Some (slot_of (scan_rel sc) row), sc\<lparr>cursor := c\<rparr>), env\<lparr>current_nram_xact := Some x'\<rparr>)"
        "running (env\<lparr>current_nram_xact := Some x'\<rparr>) x'" "sets_copied x'" "cursor sc < c" "c \<le> length (scan_results sc)"
        "rows_ok (drop c (scan_results sc))" "rows_shown x' (drop c (scan_results sc)) = shown"
      using step by auto
    have "rows_decode (scan_rel sc) shown" using Suc.prems(4) Cons by (simp add: rows_decode_def)
    moreover have "length (scan_results sc) - c < n" using c(4,5) Suc.prems(5) by simp
    ultimately obtain x'' where
      "scan_loop n io (sc\<lparr>cursor := c\<rparr>) (env\<lparr>current_nram_xact := Some x'\<rparr>) =
         (Inr (Some (map (slot_of (scan_rel sc)) shown)), env\<lparr>current_nram_xact := Some x''\<rparr>)"
      using Suc.IH [OF c(2,3), of "sc\<lparr>cursor := c\<rparr>"] c(6,7) by auto
    with c(1) Cons show ?thesis by (auto simp: nbind_def nret_def)
  qed
qed simp

text \<open>
  C6: a table scan under optimistic control returns, in the order of the storage, exactly the
  rows of the range it requested that the transaction wrote, read before, or that are not
  private to another transaction, each with the value the transaction sees; with at most one
  call per row and one more, and without a lock.
\<close>

theorem scan_shows_visible_rows:
  assumes "running env x" "sets_copied x"
    and "cl_range io (be_pid env) \<lparr>tableOid = rd_id rel, tid = 0\<rparr> \<lparr>tableOid = rd_id rel + 1, tid = 0\<rparr> (env_store env) =
           (Inr (Some rows), s')"
    and "rows_ok rows" "rows_decode rel (rows_shown x rows)" "length rows < n"
  shows "\<exists>sc env1 env2. nram_beginscan io rel env = (Inr sc, env1) \<and>
           scan_loop n io sc env1 = (Inr (Some (map (slot_of rel) (rows_shown x rows))), env2) \<and>
           env_store env2 = s' \<and> env_locks env2 = env_locks env"
proof -
  let ?sc = "\<lparr>scan_rel = rel, min_key = \<lparr>tableOid = rd_id rel, tid = 0\<rparr>, max_key = \<lparr>tableOid = rd_id rel + 1, tid = 0\<rparr>,
    scan_results = rows, cursor = 0\<rparr>"
  have "nram_beginscan io rel env = (Inr ?sc, env\<lparr>env_store := s'\<rparr>)"
    using assms(3) by (simp add: nram_beginscan_def nbind_def nret_def nstore_def Let_def running_steps [OF assms(1)])
  moreover have "running (env\<lparr>env_store := s'\<rparr>) x" using assms(1) by simp
  from scan_loop_run [OF this assms(2), of ?sc n io] assms(4-6) obtain x' where
    "scan_loop n io ?sc (env\<lparr>env_store := s'\<rparr>) =
       (Inr (Some (map (slot_of rel) (rows_shown x rows))), env\<lparr>env_store := s', current_nram_xact := Some x'\<rparr>)" by auto
  ultimately show ?thesis by auto
qed

lemma sample_range:
  "\<exists>s'. cl_range (rocks_client log_store [0, 0] [] [] (\<lambda>_. [])) 5 \<lparr>tableOid = 1, tid = 0\<rparr> \<lparr>tableOid = 2, tid = 0\<rparr> sample_store =
     (Inr (Some (client_rows [0, 0] sample_rows)), s')"
proof -
  have "holds_rows log_entries (sv_db (rs_service sample_store)) sample_rows"
    using sample_holds_rows by (simp add: sample_store_def run_rocks_start_def)
  moreover have "client_ready (rs_client 5 sample_store) (rs_service sample_store)"
    using sample_store_good by (simp add: rocks_good_def)
  moreover have "nat_bytes 8 0 \<le> nat_bytes 8 5" by code_simp
  then have "rows_in \<lparr>tableOid = 1, tid = 0\<rparr> \<lparr>tableOid = 2, tid = 0\<rparr> sample_rows = sample_rows"
    by (simp add: rows_in_def sample_rows_def tkey_serialize_def le_bytes_32 le_bytes_def)
  moreover have "range_size sample_rows \<le> 1000" by (simp add: range_size_def sample_rows_def sample_value_def)
  ultimately show ?thesis
    using client_range_ok [OF log_store_ok, of "rs_client 5 sample_store" "rs_service sample_store" "[0, 0]" sample_rows
        "\<lparr>tableOid = 1, tid = 0\<rparr>" "\<lparr>tableOid = 2, tid = 0\<rparr>" "[]" "[]" "\<lambda>_. []"]
    by (auto simp: rocks_client_def rs_return_def Let_def)
qed

theorem scan_shows_visible_rows_witness:
  "\<exists>sc env1 env2. nram_beginscan (rocks_client log_store [0, 0] [] [] (\<lambda>_. [])) \<lparr>rd_id = 1, rd_db = 1, rd_att = []\<rparr> sample_run = (Inr sc, env1) \<and>
     scan_loop 3 (rocks_client log_store [0, 0] [] [] (\<lambda>_. [])) sc env1 =
       (Inr (Some [\<lparr>tts_tid = nram_encode_tid 5, tts_tableOid = 1, tts_values = []\<rparr>,
                   \<lparr>tts_tid = nram_encode_tid 9, tts_tableOid = 1, tts_values = []\<rparr>]), env2)"
proof -
  let ?x = "(sample_xact [] [])\<lparr>action := Some 0\<rparr>" and ?rel = "\<lparr>rd_id = 1, rd_db = 1, rd_att = []\<rparr>"
  let ?io = "rocks_client log_store [0, 0] [] [] (\<lambda>_. [])"
  obtain s' where s': "cl_range ?io 5 \<lparr>tableOid = 1, tid = 0\<rparr> \<lparr>tableOid = 2, tid = 0\<rparr> sample_store =
     (Inr (Some (client_rows [0, 0] sample_rows)), s')" using sample_range by blast
  have env: "be_pid sample_run = 5" "env_store sample_run = sample_store" by (simp_all add: sample_run_def sample_backend_def)
  have row: "copy_nram_value (read_row sl (sample_value i)) = Inr (sample_value i)"
      "own_or_visible ?x k (read_row sl (sample_value i)) = Some (read_row sl (sample_value i))"
      "deserialize_nram_value_to_tuple (read_row sl (sample_value i)) 0 = Inr []" for sl i k
    using copy_nram_value_slack [of "sample_value i" "take 2 sl"] sample_storable [of i]
    by (simp_all add: read_row_def storable_def own_or_visible_def nram_value_check_visibility_def NRAMValueIsPrivate_def sample_value_def
        sample_xact_def find_write_set_def find_read_set_def find_opt_def deserialize_nram_value_to_tuple_def palloc_def)
  have shown: "rows_shown ?x (client_rows [0, 0] sample_rows) = client_rows [0, 0] sample_rows"
    by (simp add: sample_rows_def row)
  have "sets_copied ?x" by (simp add: sets_copied_def sample_xact_def)
  moreover have "rows_ok (client_rows [0, 0] sample_rows)" by (simp add: rows_ok_def sample_rows_def row)
  moreover have "rows_decode ?rel (client_rows [0, 0] sample_rows)" by (simp add: rows_decode_def sample_rows_def row)
  moreover have "map (slot_of ?rel) (client_rows [0, 0] sample_rows) =
      [\<lparr>tts_tid = nram_encode_tid 5, tts_tableOid = 1, tts_values = []\<rparr>, \<lparr>tts_tid = nram_encode_tid 9, tts_tableOid = 1, tts_values = []\<rparr>]"
    by (simp add: slot_of_def sample_rows_def row)
  moreover have "length (client_rows [0, 0] sample_rows) < 3" by (simp add: sample_rows_def)
  ultimately show ?thesis
    using scan_shows_visible_rows [OF sample_running, of ?io ?rel "client_rows [0, 0] sample_rows" s' 3] s' env shown by auto
qed

section \<open>Nested statements\<close>

text \<open>
  A statement and the statements that run inside it. The hooks of the executor bracket each of
  them.
\<close>

datatype statement = Statement CmdType "statement list"

fun run_statement :: "statement \<Rightarrow> ('s, unit) nram_m"
  and run_statements :: "statement list \<Rightarrow> ('s, unit) nram_m" where
  "run_statement (Statement ct inner) =
     nbind (nram_ExecutorStart (Some ct)) (\<lambda>_. nbind (run_statements inner) (\<lambda>_. nram_ExecutorEnd))"
| "run_statements [] = nret ()"
| "run_statements (s # ss) = nbind (run_statement s) (\<lambda>_. run_statements ss)"

fun statement_depth :: "statement \<Rightarrow> nat" where
  "statement_depth (Statement ct inner) = Suc (foldr max (map statement_depth inner) 0)"

text \<open>The current command is the one on top of the stack.\<close>

definition stack_ok :: "nram_xact \<Rightarrow> bool" where
  "stack_ok x = (length (cmdtype_stack x) = NRAM_CMD_STACK_MAX \<and> cmdtype_depth x \<le> NRAM_CMD_STACK_MAX \<and>
     cur_cmdtype x = (if cmdtype_depth x = 0 then CMD_UNKNOWN else cmdtype_stack x ! (cmdtype_depth x - 1)))"

definition in_xact :: "'s nram_env \<Rightarrow> nram_xact \<Rightarrow> bool" where
  "in_xact env x = (current_nram_xact env = Some x \<and> xact_id x = be_xid env \<and>
     (\<exists>act. env_policy env = Some act \<and> length act = MAX_XACT_FEATURE_SPACE))"

lemma in_xact_steps:
  assumes "in_xact env x"
  shows "nrefresh env = (Inr (), env)" "nxact env = (Inr x, env)"
  using assms by (simp_all add: in_xact_def nrefresh_def refresh_nram_xact_def nxact_def)

lemma before_access_run:
  assumes "in_xact env x" "xact_id y = xact_id x"
  shows "\<exists>env' x'. before_access y env = (Inr (), env') \<and> in_xact env' x' \<and> cmdtype_stack x' = cmdtype_stack y \<and>
           cmdtype_depth x' = cmdtype_depth y \<and> cur_cmdtype x' = cur_cmdtype y \<and> write_set x' = write_set y \<and> read_set x' = read_set y"
proof -
  obtain act where act: "env_policy env = Some act" "length act = MAX_XACT_FEATURE_SPACE" using assms by (auto simp: in_xact_def)
  have "\<exists>a. get_action (env_policy env) (Some f) = Inr a" for f
    using act by (auto simp: get_action_def Let_def encode_feature_value MAX_XACT_FEATURE_SPACE_def min_def)
  then obtain a where "get_action (env_policy env) (Some (next_feature y (nDep (env_locks env) (be_pid env)))) = Inr a" by blast
  then show ?thesis using assms act by (simp add: before_access_def Let_def in_xact_def)
qed

lemma executor_start_run:
  assumes "in_xact env x" "stack_ok x" "cmdtype_depth x < NRAM_CMD_STACK_MAX"
  shows "\<exists>env' x'. nram_ExecutorStart (Some ct) env = (Inr (), env') \<and> in_xact env' x' \<and> stack_ok x' \<and>
           cmdtype_depth x' = Suc (cmdtype_depth x) \<and> cmdtype_stack x' = (cmdtype_stack x)[cmdtype_depth x := ct]"
proof -
  let ?y = "x\<lparr>cmdtype_stack := (cmdtype_stack x)[cmdtype_depth x := ct], cmdtype_depth := min (cmdtype_depth x + 1) NRAM_CMD_STACK_MAX, cur_cmdtype := ct\<rparr>"
  obtain env' x' where run: "before_access ?y env = (Inr (), env')" "in_xact env' x'" "cmdtype_stack x' = cmdtype_stack ?y"
      "cmdtype_depth x' = cmdtype_depth ?y" "cur_cmdtype x' = cur_cmdtype ?y"
    using before_access_run [OF assms(1), of ?y] by auto
  then show ?thesis
    using assms(2,3) by (intro exI [of _ env'] exI [of _ x'])
      (simp add: nram_ExecutorStart_def nbind_def in_xact_steps [OF assms(1)] stack_ok_def)
qed

lemma executor_end_run:
  assumes "in_xact env x" "stack_ok x" "cmdtype_depth x = Suc d"
  shows "\<exists>env' x'. nram_ExecutorEnd env = (Inr (), env') \<and> in_xact env' x' \<and> stack_ok x' \<and>
           cmdtype_depth x' = d \<and> cmdtype_stack x' = cmdtype_stack x"
  using assms
  by (auto simp: nram_ExecutorEnd_def nbind_def in_xact_steps [OF assms(1)] stack_ok_def nset_xact_def in_xact_def)

lemma run_statements_ok:
  "in_xact env x \<Longrightarrow> stack_ok x \<Longrightarrow> cmdtype_depth x + statement_depth s \<le> NRAM_CMD_STACK_MAX \<Longrightarrow>
     \<exists>env' x'. run_statement s env = (Inr (), env') \<and> in_xact env' x' \<and> stack_ok x' \<and> cmdtype_depth x' = cmdtype_depth x \<and>
       take (cmdtype_depth x) (cmdtype_stack x') = take (cmdtype_depth x) (cmdtype_stack x)"
  "in_xact env x \<Longrightarrow> stack_ok x \<Longrightarrow> cmdtype_depth x + foldr max (map statement_depth ss) 0 \<le> NRAM_CMD_STACK_MAX \<Longrightarrow>
     \<exists>env' x'. run_statements ss env = (Inr (), env') \<and> in_xact env' x' \<and> stack_ok x' \<and> cmdtype_depth x' = cmdtype_depth x \<and>
       take (cmdtype_depth x) (cmdtype_stack x') = take (cmdtype_depth x) (cmdtype_stack x)"
proof (induction s and ss arbitrary: env x and env x rule: run_statement_run_statements.induct)
  case (1 ct inner)
  then have deep: "cmdtype_depth x < NRAM_CMD_STACK_MAX" by simp
  obtain env1 x1 where start: "nram_ExecutorStart (Some ct) env = (Inr (), env1)" "in_xact env1 x1" "stack_ok x1"
      "cmdtype_depth x1 = Suc (cmdtype_depth x)" "cmdtype_stack x1 = (cmdtype_stack x)[cmdtype_depth x := ct]"
    using executor_start_run [OF 1(2,3) deep] by blast
  obtain env2 x2 where inner: "run_statements inner env1 = (Inr (), env2)" "in_xact env2 x2" "stack_ok x2"
      "cmdtype_depth x2 = cmdtype_depth x1" "take (cmdtype_depth x1) (cmdtype_stack x2) = take (cmdtype_depth x1) (cmdtype_stack x1)"
    using 1(1) [OF start(2,3)] 1(4) start(4) by auto
  have "take (cmdtype_depth x) (cmdtype_stack x2) = take (cmdtype_depth x) (cmdtype_stack x)"
    using arg_cong [OF inner(5), of "take (cmdtype_depth x)"] start(4,5) by (simp add: min_def)
  moreover obtain env3 x3 where "nram_ExecutorEnd env2 = (Inr (), env3)" "in_xact env3 x3" "stack_ok x3"
      "cmdtype_depth x3 = cmdtype_depth x" "cmdtype_stack x3 = cmdtype_stack x2"
    using executor_end_run [OF inner(2,3)] inner(4) start(4) by auto
  ultimately show ?case using inner(1) start(1) by (intro exI [of _ env3] exI [of _ x3]) (simp add: nbind_def)
next
  case (3 s ss)
  then have le: "cmdtype_depth x + statement_depth s \<le> NRAM_CMD_STACK_MAX"
      "cmdtype_depth x + foldr max (map statement_depth ss) 0 \<le> NRAM_CMD_STACK_MAX" by auto
  obtain env1 x1 where first: "run_statement s env = (Inr (), env1)" "in_xact env1 x1" "stack_ok x1"
      "cmdtype_depth x1 = cmdtype_depth x" "take (cmdtype_depth x) (cmdtype_stack x1) = take (cmdtype_depth x) (cmdtype_stack x)"
    using 3(1) [OF 3(3,4)] le(1) by auto
  obtain env2 x2 where "run_statements ss env1 = (Inr (), env2)" "in_xact env2 x2" "stack_ok x2"
      "cmdtype_depth x2 = cmdtype_depth x1" "take (cmdtype_depth x1) (cmdtype_stack x2) = take (cmdtype_depth x1) (cmdtype_stack x1)"
    using 3(2) [OF first(2,3)] le first(4) by auto
  with first show ?case by (intro exI [of _ env2] exI [of _ x2]) (simp add: nbind_def)
qed (auto simp: nret_def)

lemma executor_start_full:
  assumes "in_xact env x" "cmdtype_depth x = NRAM_CMD_STACK_MAX"
  shows "\<exists>env' x'. nram_ExecutorStart (Some ct) env = (Inr (), env') \<and> in_xact env' x' \<and> cur_cmdtype x' = ct \<and>
           cmdtype_depth x' = NRAM_CMD_STACK_MAX \<and> cmdtype_stack x' = cmdtype_stack x"
  using before_access_run [OF assms(1), of "x\<lparr>cmdtype_depth := NRAM_CMD_STACK_MAX, cur_cmdtype := ct\<rparr>"] assms(2)
  by (auto simp: nram_ExecutorStart_def nbind_def in_xact_steps [OF assms(1)])

text \<open>
  C34: statements that nest at most eight deep leave the current command and the depth of the
  stack as they found them. With a full stack, one more statement leaves the wrong command: the
  seventh instead of the eighth.
\<close>

theorem statement_nesting:
  assumes "in_xact env x" "stack_ok x"
  shows "(cmdtype_depth x + statement_depth s \<le> NRAM_CMD_STACK_MAX \<longrightarrow>
           (\<exists>env' x'. run_statement s env = (Inr (), env') \<and> current_nram_xact env' = Some x' \<and>
              cur_cmdtype x' = cur_cmdtype x \<and> cmdtype_depth x' = cmdtype_depth x)) \<and>
         (cmdtype_depth x = NRAM_CMD_STACK_MAX \<longrightarrow>
           (\<exists>env' x'. run_statement (Statement ct []) env = (Inr (), env') \<and> current_nram_xact env' = Some x' \<and>
              cur_cmdtype x' = cmdtype_stack x ! 6 \<and> cur_cmdtype x = cmdtype_stack x ! 7 \<and> cmdtype_depth x' = 7))"
proof (intro conjI impI)
  assume deep: "cmdtype_depth x + statement_depth s \<le> NRAM_CMD_STACK_MAX"
  obtain env' x' where run: "run_statement s env = (Inr (), env')" "in_xact env' x'" "stack_ok x'"
      "cmdtype_depth x' = cmdtype_depth x" "take (cmdtype_depth x) (cmdtype_stack x') = take (cmdtype_depth x) (cmdtype_stack x)"
    using run_statements_ok(1) [OF assms deep] by blast
  have "cmdtype_stack x' ! (cmdtype_depth x - 1) = cmdtype_stack x ! (cmdtype_depth x - 1)" if "0 < cmdtype_depth x"
    using arg_cong [OF run(5), of "\<lambda>l. l ! (cmdtype_depth x - 1)"] that by simp
  with run assms(2) show "\<exists>env' x'. run_statement s env = (Inr (), env') \<and> current_nram_xact env' = Some x' \<and>
      cur_cmdtype x' = cur_cmdtype x \<and> cmdtype_depth x' = cmdtype_depth x"
    by (intro exI [of _ env'] exI [of _ x']) (auto simp: in_xact_def stack_ok_def)
next
  assume full: "cmdtype_depth x = NRAM_CMD_STACK_MAX"
  obtain env1 x1 where start: "nram_ExecutorStart (Some ct) env = (Inr (), env1)" "in_xact env1 x1"
      "cmdtype_depth x1 = NRAM_CMD_STACK_MAX" "cmdtype_stack x1 = cmdtype_stack x"
    using executor_start_full [OF assms(1) full] by blast
  show "\<exists>env' x'. run_statement (Statement ct []) env = (Inr (), env') \<and> current_nram_xact env' = Some x' \<and>
      cur_cmdtype x' = cmdtype_stack x ! 6 \<and> cur_cmdtype x = cmdtype_stack x ! 7 \<and> cmdtype_depth x' = 7"
    using start full assms(2)
    by (auto simp: nbind_def nret_def nram_ExecutorEnd_def in_xact_steps [OF start(2)] nset_xact_def stack_ok_def NRAM_CMD_STACK_MAX_def)
qed

theorem statement_nesting_witness:
  "\<exists>env' x'. run_statement (Statement CMD_SELECT [Statement CMD_INSERT [], Statement CMD_UPDATE [Statement CMD_SELECT []]])
       (sample_backend 5 (the (NewNRAMXactState 9))) = (Inr (), env') \<and>
     current_nram_xact env' = Some x' \<and> cur_cmdtype x' = CMD_UNKNOWN \<and> cmdtype_depth x' = 0"
  using statement_nesting [of "sample_backend 5 (the (NewNRAMXactState 9))" "the (NewNRAMXactState 9)"
      "Statement CMD_SELECT [Statement CMD_INSERT [], Statement CMD_UPDATE [Statement CMD_SELECT []]]"]
  by (simp add: NewNRAMXactState_def sample_backend_def in_xact_def stack_ok_def builtin_policy_def NRAM_CMD_STACK_MAX_def
      del: run_statement.simps)

end
