(* ===== verification/NR_Serial.thy ===== *)
theory NR_Serial
  imports NR_Xact
begin

text \<open>
  What the commit protocol of \<^verbatim>\<open>nram_xact_callback\<close> promises: the transactions that commit are
  serializable in the order in which they hold all their validation locks.

  The protocol is an abstract machine here, without locks: a transaction runs, reaches its
  lock point, checks its reads and installs its writes. The guards of two steps say what the
  locks are for: at its lock point, and at the check of a read, no other transaction is about
  to write the key. The machine of the lock manager and the storage refines this one.
\<close>

section \<open>Serial execution\<close>

definition writes :: "nram_xact \<Rightarrow> nram_key \<Rightarrow> bool" where
  "writes x k = (find_write_set x k \<noteq> None)"

fun run_serially ::
  "(nram_value \<Rightarrow> nram_value) \<Rightarrow> (nram_key \<Rightarrow> nram_value option) \<Rightarrow> nram_xact list \<Rightarrow> (nram_key \<Rightarrow> nram_value option) option" where
  "run_serially seen m [] = Some m"
| "run_serially seen m (x # xs) =
     (if \<forall>opt \<in> set (read_set x). is_current m opt then run_serially seen (with_writes seen (write_set x) m) xs else None)"

section \<open>The abstract machine\<close>

text \<open>
  Where a transaction is: it still runs, it is past its lock point and has reads to check, or
  it is committed and has writes to install.
\<close>

datatype view = Out | Pre nram_xact | Und nram_xact "nram_opt list" | Inst nram_xact "nram_opt list"

record spec_state =
  sp_view :: "u32 \<Rightarrow> view"
  sp_order :: "nram_xact list"
  sp_done :: "u32 set"
  sp_map :: "nram_key \<Rightarrow> nram_value option"
  sp_used :: "u32 set"

text \<open>The process is about to write the key for the transaction.\<close>

fun claims :: "view \<Rightarrow> nram_key \<Rightarrow> nram_xact \<Rightarrow> bool" where
  "claims (Und x left) k y = (x = y \<and> writes x k)"
| "claims (Inst x todo) k y = (x = y \<and> k \<in> opt_key ` set todo)"
| "claims _ k y = False"

text \<open>A write set: one entry per key, with values of the transaction that are not private.\<close>

definition own_writes :: "nram_xact \<Rightarrow> bool" where
  "own_writes x = (distinct (map opt_key (write_set x)) \<and>
     (\<forall>opt \<in> set (write_set x). v_xact_id (opt_value opt) = xact_id x \<and> \<not> NRAMValueIsPrivate (opt_value opt)))"

definition visible_to :: "nram_xact \<Rightarrow> nram_value \<Rightarrow> bool" where
  "visible_to x v = (v_xact_id v = xact_id x \<or> \<not> NRAMValueIsPrivate v)"

inductive spec_step :: "(nram_value \<Rightarrow> nram_value) \<Rightarrow> spec_state \<Rightarrow> spec_state \<Rightarrow> bool" for seen where
  spec_begin: "spec_step seen \<sigma> (\<sigma>\<lparr>sp_view := (sp_view \<sigma>)(p := Pre x), sp_used := insert (xact_id x) (sp_used \<sigma>)\<rparr>)"
    if "sp_view \<sigma> p = Out" "xact_id x \<notin> sp_used \<sigma>" "read_set x = []" "write_set x = []"
| spec_read: "spec_step seen \<sigma> (\<sigma>\<lparr>sp_view := (sp_view \<sigma>)(p := Pre x')\<rparr>)"
    if "sp_view \<sigma> p = Pre x" "\<not> writes x (opt_key opt)" "sp_map \<sigma> (opt_key opt) = Some v" "visible_to x v"
      "opt_xact_id opt = v_xact_id v"
      "xact_id x' = xact_id x" "write_set x' = write_set x" "read_set x' = read_set x @ [opt]"
| spec_write: "spec_step seen \<sigma> (\<sigma>\<lparr>sp_view := (sp_view \<sigma>)(p := Pre x')\<rparr>)"
    if "sp_view \<sigma> p = Pre x" "xact_id x' = xact_id x" "read_set x' = read_set x" "own_writes x'"
      "\<forall>k. writes x k \<longrightarrow> writes x' k"
| spec_insert: "spec_step seen \<sigma> (\<sigma>\<lparr>sp_view := (sp_view \<sigma>)(p := Pre x'), sp_map := (sp_map \<sigma>)(k \<mapsto> v)\<rparr>)"
    if "sp_view \<sigma> p = Pre x" "sp_map \<sigma> k = None" "v_xact_id v = xact_id x" "NRAMValueIsPrivate v"
      "xact_id x' = xact_id x" "read_set x' = read_set x" "own_writes x'" "writes x' k" "\<forall>k. writes x k \<longrightarrow> writes x' k"
| spec_lock_point: "spec_step seen \<sigma> (\<sigma>\<lparr>sp_view := (sp_view \<sigma>)(p := Und x (read_set x)), sp_order := sp_order \<sigma> @ [x]\<rparr>)"
    if "sp_view \<sigma> p = Pre x" "\<forall>q k y. q \<noteq> p \<longrightarrow> writes x k \<longrightarrow> \<not> claims (sp_view \<sigma> q) k y"
| spec_check: "spec_step seen \<sigma> (\<sigma>\<lparr>sp_view := (sp_view \<sigma>)(p := Und x left)\<rparr>)"
    if "sp_view \<sigma> p = Und x (opt # left)" "sp_map \<sigma> (opt_key opt) = Some v" "v_xact_id v = opt_xact_id opt"
      "\<forall>q y. q \<noteq> p \<longrightarrow> \<not> claims (sp_view \<sigma> q) (opt_key opt) y"
| spec_valid: "spec_step seen \<sigma> (\<sigma>\<lparr>sp_view := (sp_view \<sigma>)(p := Inst x (write_set x)), sp_done := insert (xact_id x) (sp_done \<sigma>)\<rparr>)"
    if "sp_view \<sigma> p = Und x []"
| spec_install: "spec_step seen \<sigma> (\<sigma>\<lparr>sp_view := (sp_view \<sigma>)(p := Inst x todo), sp_map := (sp_map \<sigma>)(opt_key opt \<mapsto> seen (opt_value opt))\<rparr>)"
    if "sp_view \<sigma> p = Inst x (opt # todo)"
| spec_end: "spec_step seen \<sigma> (\<sigma>\<lparr>sp_view := (sp_view \<sigma>)(p := Out)\<rparr>)"
    if "sp_view \<sigma> p = Inst x []"
| spec_abort: "spec_step seen \<sigma> (\<sigma>\<lparr>sp_view := (sp_view \<sigma>)(p := Out)\<rparr>)"
    if "(\<exists>x. sp_view \<sigma> p = Pre x) \<or> (\<exists>x left. sp_view \<sigma> p = Und x left)"

text \<open>Nothing is in progress yet; the versions in the storage are of earlier transactions.\<close>

definition spec_start :: "spec_state \<Rightarrow> bool" where
  "spec_start \<sigma> = ((\<forall>p. sp_view \<sigma> p = Out) \<and> sp_order \<sigma> = [] \<and> sp_done \<sigma> = {} \<and>
     (\<forall>k v. sp_map \<sigma> k = Some v \<longrightarrow> v_xact_id v \<in> sp_used \<sigma>))"

definition committed_order :: "spec_state \<Rightarrow> nram_xact list" where
  "committed_order \<sigma> = filter (\<lambda>x. xact_id x \<in> sp_done \<sigma>) (sp_order \<sigma>)"

section \<open>Transactions in the order\<close>

fun view_xact :: "view \<Rightarrow> nram_xact option" where
  "view_xact Out = None"
| "view_xact (Pre x) = Some x"
| "view_xact (Und x left) = Some x"
| "view_xact (Inst x todo) = Some x"

text \<open>
  The identifiers: the transactions of the machine have identifiers that no earlier version has
  (\<open>U0\<close>), different ones in different processes; a transaction is in the order from its lock
  point on, and done from its validation on.
\<close>

definition views_ids :: "u32 set \<Rightarrow> (u32 \<Rightarrow> view) \<Rightarrow> bool" where
  "views_ids U view \<longleftrightarrow>
     (\<forall>p x. view_xact (view p) = Some x \<longrightarrow> xact_id x \<in> U) \<and>
     (\<forall>p q x y. view_xact (view p) = Some x \<longrightarrow> view_xact (view q) = Some y \<longrightarrow> xact_id x = xact_id y \<longrightarrow> p = q)"

definition ids_ok :: "u32 set \<Rightarrow> spec_state \<Rightarrow> bool" where
  "ids_ok U0 \<sigma> \<longleftrightarrow>
     U0 \<subseteq> sp_used \<sigma> \<and> distinct (map xact_id (sp_order \<sigma>)) \<and> xact_id ` set (sp_order \<sigma>) \<subseteq> sp_used \<sigma> - U0 \<and>
     sp_done \<sigma> \<subseteq> xact_id ` set (sp_order \<sigma>) \<and> views_ids (sp_used \<sigma> - U0) (sp_view \<sigma>)"

text \<open>
  Where a transaction is in the order. The write sets, and the rows with the identifier of a
  running transaction: only rows it will write.
\<close>

fun view_ok :: "nram_xact list \<Rightarrow> u32 set \<Rightarrow> (nram_key \<Rightarrow> nram_value option) \<Rightarrow> view \<Rightarrow> bool" where
  "view_ok H C m Out = True"
| "view_ok H C m (Pre x) =
     (xact_id x \<notin> xact_id ` set H \<and> own_writes x \<and> (\<forall>k v. m k = Some v \<longrightarrow> v_xact_id v = xact_id x \<longrightarrow> writes x k))"
| "view_ok H C m (Und x left) = (x \<in> set H \<and> xact_id x \<notin> C)"
| "view_ok H C m (Inst x todo) =
     (x \<in> set H \<and> xact_id x \<in> C \<and> set todo \<subseteq> set (write_set x) \<and> distinct (map opt_key todo))"

definition phases_ok :: "spec_state \<Rightarrow> bool" where
  "phases_ok \<sigma> \<longleftrightarrow>
     (\<forall>p. view_ok (sp_order \<sigma>) (sp_done \<sigma>) (sp_map \<sigma>) (sp_view \<sigma> p)) \<and>
     (\<forall>x \<in> set (sp_order \<sigma>). own_writes x) \<and> (\<forall>k v. sp_map \<sigma> k = Some v \<longrightarrow> v_xact_id v \<in> sp_used \<sigma>)"

lemma ids_ok_map [simp]: "ids_ok U0 (\<sigma>\<lparr>sp_map := m\<rparr>) = ids_ok U0 \<sigma>"
  by (simp add: ids_ok_def)

lemma views_idsD:
  assumes "views_ids U view"
  shows "view_xact (view p) = Some x \<Longrightarrow> xact_id x \<in> U"
    and "view_xact (view p) = Some x \<Longrightarrow> view_xact (view q) = Some y \<Longrightarrow> xact_id x = xact_id y \<Longrightarrow> p = q"
  using assms unfolding views_ids_def by blast+

lemma views_ids_update:
  assumes "views_ids U view" "\<forall>y. view_xact w = Some y \<longrightarrow> (\<exists>x. view_xact (view p) = Some x \<and> xact_id y = xact_id x)"
  shows "views_ids U (view(p := w))"
proof -
  have id: "\<exists>x. view_xact (view q) = Some x \<and> xact_id y = xact_id x" if "view_xact ((view(p := w)) q) = Some y" for q y
    using that assms(2) by (cases "q = p") auto
  show ?thesis
    unfolding views_ids_def
  proof (intro conjI allI impI)
    fix q y assume "view_xact ((view(p := w)) q) = Some y"
    from id [OF this] views_idsD(1) [OF assms(1)] show "xact_id y \<in> U" by auto
  next
    fix q r x y
    assume "view_xact ((view(p := w)) q) = Some x" "view_xact ((view(p := w)) r) = Some y" "xact_id x = xact_id y"
    with id [of q x] id [of r y] show "q = r" using views_idsD(2) [OF assms(1)] by auto
  qed
qed

lemma views_ids_begin:
  assumes "views_ids U view" "xact_id x \<notin> U"
  shows "views_ids (insert (xact_id x) U) (view(p := Pre x))"
proof -
  have "xact_id y \<noteq> xact_id x \<and> xact_id x \<noteq> xact_id y" if "view_xact (view q) = Some y" for q y
    using views_idsD(1) [OF assms(1) that] assms(2) by auto
  moreover have "views_ids (insert (xact_id x) U) view" using assms(1) unfolding views_ids_def by blast
  ultimately show ?thesis unfolding views_ids_def fun_upd_apply by (auto split: if_splits)
qed

lemma ids_okD:
  assumes "ids_ok U0 \<sigma>"
  shows "view_xact (sp_view \<sigma> p) = Some x \<Longrightarrow> xact_id x \<in> sp_used \<sigma> - U0"
    and "view_xact (sp_view \<sigma> p) = Some x \<Longrightarrow> view_xact (sp_view \<sigma> q) = Some y \<Longrightarrow> xact_id x = xact_id y \<Longrightarrow> p = q"
    and "x \<in> set (sp_order \<sigma>) \<Longrightarrow> xact_id x \<in> sp_used \<sigma> - U0"
    and "x \<in> set (sp_order \<sigma>) \<Longrightarrow> y \<in> set (sp_order \<sigma>) \<Longrightarrow> xact_id x = xact_id y \<Longrightarrow> x = y"
  using assms unfolding ids_ok_def views_ids_def by (blast, blast, blast, meson distinct_map inj_onD)

lemma ids_ok_view:
  assumes "ids_ok U0 \<sigma>" "\<forall>y. view_xact w = Some y \<longrightarrow> (\<exists>x. view_xact (sp_view \<sigma> p) = Some x \<and> xact_id y = xact_id x)"
  shows "ids_ok U0 (\<sigma>\<lparr>sp_view := (sp_view \<sigma>)(p := w)\<rparr>)"
  using assms views_ids_update [of "sp_used \<sigma> - U0" "sp_view \<sigma>" w p] unfolding ids_ok_def by (simp del: fun_upd_apply)

lemma phases_okD:
  assumes "phases_ok \<sigma>"
  shows "view_ok (sp_order \<sigma>) (sp_done \<sigma>) (sp_map \<sigma>) (sp_view \<sigma> p)"
    and "x \<in> set (sp_order \<sigma>) \<Longrightarrow> own_writes x"
    and "sp_map \<sigma> k = Some v \<Longrightarrow> v_xact_id v \<in> sp_used \<sigma>"
  using assms unfolding phases_ok_def by blast+

lemma ids_ok_step:
  assumes "spec_step seen \<sigma> \<sigma>'" "ids_ok U0 \<sigma>" "phases_ok \<sigma>"
  shows "ids_ok U0 \<sigma>'"
  using assms(1)
proof cases
  case (spec_begin p x)
  have "xact_id x \<notin> U0" using spec_begin(3) assms(2) by (auto simp: ids_ok_def)
  then have "views_ids (insert (xact_id x) (sp_used \<sigma>) - U0) ((sp_view \<sigma>)(p := Pre x))"
    using spec_begin(3) assms(2) views_ids_begin [of "sp_used \<sigma> - U0" "sp_view \<sigma>" x p]
    by (simp add: ids_ok_def insert_Diff_if del: fun_upd_apply)
  then show ?thesis using assms(2) unfolding spec_begin(1) ids_ok_def by (simp del: fun_upd_apply) blast
next
  case (spec_lock_point p x)
  then have "ids_ok U0 (\<sigma>\<lparr>sp_view := (sp_view \<sigma>)(p := Und x (read_set x))\<rparr>)"
    by (intro ids_ok_view assms(2)) simp
  moreover have "xact_id x \<notin> xact_id ` set (sp_order \<sigma>)" "xact_id x \<in> sp_used \<sigma> - U0"
    using spec_lock_point phases_okD(1) [OF assms(3), of p] ids_okD(1) [OF assms(2), of p x] by auto
  ultimately show ?thesis unfolding spec_lock_point(1) ids_ok_def by (simp del: fun_upd_apply) blast
next
  case (spec_valid p x)
  then have "ids_ok U0 (\<sigma>\<lparr>sp_view := (sp_view \<sigma>)(p := Inst x (write_set x))\<rparr>)"
    by (intro ids_ok_view assms(2)) simp
  moreover have "x \<in> set (sp_order \<sigma>)" using spec_valid phases_okD(1) [OF assms(3), of p] by simp
  ultimately show ?thesis unfolding spec_valid(1) ids_ok_def by (simp del: fun_upd_apply)
next
  case (spec_read p x opt v x')
  then show ?thesis using ids_ok_view [OF assms(2), of "Pre x'" p] by (simp del: fun_upd_apply)
next
  case (spec_write p x x')
  then show ?thesis using ids_ok_view [OF assms(2), of "Pre x'" p] by (simp del: fun_upd_apply)
next
  case (spec_insert p x k v x')
  then show ?thesis using ids_ok_view [OF assms(2), of "Pre x'" p] by (simp del: fun_upd_apply)
next
  case (spec_check p x opt left v)
  then show ?thesis using ids_ok_view [OF assms(2), of "Und x left" p] by (simp del: fun_upd_apply)
next
  case (spec_install p x opt todo)
  then show ?thesis using ids_ok_view [OF assms(2), of "Inst x todo" p] by (simp del: fun_upd_apply)
next
  case (spec_end p x)
  then show ?thesis using ids_ok_view [OF assms(2), of "Out" p] by (simp del: fun_upd_apply)
next
  case (spec_abort p)
  show ?thesis unfolding spec_abort(1) by (rule ids_ok_view [OF assms(2)]) simp
qed

text \<open>The other processes: a step of one transaction keeps the place of every other one.\<close>

lemma view_ok_order:
  assumes "view_ok H C m v" "\<And>y. view_xact v = Some y \<Longrightarrow> xact_id y \<noteq> xact_id x"
  shows "view_ok (H @ [x]) C m v" "view_ok H (insert (xact_id x) C) m v"
  using assms by (cases v; auto)+

lemma view_ok_map:
  assumes "view_ok H C m v" "\<And>y. view_xact v = Some y \<Longrightarrow> xact_id y \<noteq> v_xact_id w"
  shows "view_ok H C (m(k \<mapsto> w)) v"
  using assms by (cases v) auto

lemma phases_ok_view:
  assumes "phases_ok \<sigma>" "view_ok (sp_order \<sigma>) (sp_done \<sigma>) (sp_map \<sigma>) w"
  shows "phases_ok (\<sigma>\<lparr>sp_view := (sp_view \<sigma>)(p := w)\<rparr>)"
  using assms unfolding phases_ok_def by simp

lemma other_ids:
  assumes "ids_ok U0 \<sigma>" "view_xact (sp_view \<sigma> p) = Some x" "q \<noteq> p" "view_xact (sp_view \<sigma> q) = Some y"
  shows "xact_id y \<noteq> xact_id x"
  using ids_okD(2) [OF assms(1,4,2)] assms(3) by blast

lemma phases_ok_step:
  assumes "spec_step seen \<sigma> \<sigma>'" "ids_ok U0 \<sigma>" "phases_ok \<sigma>" "\<forall>v. v_xact_id (seen v) = v_xact_id v"
  shows "phases_ok \<sigma>'"
  using assms(1)
proof cases
  case (spec_begin p x)
  have "own_writes x" using spec_begin by (simp add: own_writes_def)
  moreover have "xact_id x \<notin> xact_id ` set (sp_order \<sigma>)"
    using spec_begin(3) ids_okD(3) [OF assms(2)] by auto
  moreover have "v_xact_id v \<noteq> xact_id x" if "sp_map \<sigma> k = Some v" for k v
    using spec_begin(3) phases_okD(3) [OF assms(3) that] by auto
  ultimately show ?thesis using assms(3) unfolding spec_begin(1) phases_ok_def by auto
next
  case (spec_read p x opt v x')
  have "writes x' k = writes x k" for k using spec_read(8) by (simp add: writes_def find_write_set_def)
  moreover have "own_writes x' = own_writes x" using spec_read(7,8) by (simp add: own_writes_def)
  ultimately show ?thesis
    using phases_okD(1) [OF assms(3), of p] spec_read(2,7) unfolding spec_read(1) by (intro phases_ok_view assms(3)) simp
next
  case (spec_write p x x')
  then show ?thesis
    using phases_okD(1) [OF assms(3), of p] unfolding spec_write(1) by (intro phases_ok_view assms(3)) auto
next
  case (spec_insert p x k v x')
  have other: "view_ok (sp_order \<sigma>) (sp_done \<sigma>) ((sp_map \<sigma>)(k \<mapsto> v)) (sp_view \<sigma> q)" if "q \<noteq> p" for q
    using other_ids [OF assms(2) _ that] spec_insert(2,4) by (intro view_ok_map phases_okD(1) [OF assms(3)]) auto
  have "view_ok (sp_order \<sigma>) (sp_done \<sigma>) ((sp_map \<sigma>)(k \<mapsto> v)) (Pre x')"
    using phases_okD(1) [OF assms(3), of p] spec_insert by auto
  moreover have "xact_id x \<in> sp_used \<sigma>" using ids_okD(1) [OF assms(2), of p x] spec_insert(2) by simp
  ultimately show ?thesis
    using other assms(3) spec_insert(4) unfolding spec_insert(1) phases_ok_def by auto
next
  case (spec_lock_point p x)
  have other: "view_ok (sp_order \<sigma> @ [x]) (sp_done \<sigma>) (sp_map \<sigma>) (sp_view \<sigma> q)" if "q \<noteq> p" for q
    using other_ids [OF assms(2) _ that] spec_lock_point(2) by (intro view_ok_order(1) phases_okD(1) [OF assms(3)]) auto
  have x: "xact_id x \<notin> xact_id ` set (sp_order \<sigma>)" "own_writes x" using phases_okD(1) [OF assms(3), of p] spec_lock_point(2) by auto
  then have "xact_id x \<notin> sp_done \<sigma>" using assms(2) by (auto simp: ids_ok_def)
  with other x assms(3) show ?thesis unfolding spec_lock_point(1) phases_ok_def by auto
next
  case (spec_check p x opt left v)
  then show ?thesis
    using phases_okD(1) [OF assms(3), of p] unfolding spec_check(1) by (intro phases_ok_view assms(3)) simp
next
  case (spec_valid p x)
  have other: "view_ok (sp_order \<sigma>) (insert (xact_id x) (sp_done \<sigma>)) (sp_map \<sigma>) (sp_view \<sigma> q)" if "q \<noteq> p" for q
    using other_ids [OF assms(2) _ that] spec_valid(2) by (intro view_ok_order(2) phases_okD(1) [OF assms(3)]) auto
  have "x \<in> set (sp_order \<sigma>)" using phases_okD(1) [OF assms(3), of p] spec_valid(2) by simp
  with other assms(3) show ?thesis unfolding spec_valid(1) phases_ok_def by (auto simp: own_writes_def)
next
  case (spec_install p x opt todo)
  have x: "x \<in> set (sp_order \<sigma>)" "opt \<in> set (write_set x)" "view_ok (sp_order \<sigma>) (sp_done \<sigma>) m (Inst x todo)" for m
    using phases_okD(1) [OF assms(3), of p] spec_install(2) by auto
  then have id: "v_xact_id (seen (opt_value opt)) = xact_id x"
    using phases_okD(2) [OF assms(3), of x] assms(4) by (auto simp: own_writes_def)
  have other: "view_ok (sp_order \<sigma>) (sp_done \<sigma>) ((sp_map \<sigma>)(opt_key opt \<mapsto> seen (opt_value opt))) (sp_view \<sigma> q)" if "q \<noteq> p" for q
    using other_ids [OF assms(2) _ that] spec_install(2) id by (intro view_ok_map phases_okD(1) [OF assms(3)]) auto
  have "xact_id x \<in> sp_used \<sigma>" using ids_okD(3) [OF assms(2) x(1)] by simp
  with other x(3) id assms(3) show ?thesis unfolding spec_install(1) phases_ok_def by (auto simp del: view_ok.simps)
next
  case (spec_end p x)
  show ?thesis unfolding spec_end(1) by (rule phases_ok_view [OF assms(3)]) simp
next
  case (spec_abort p)
  show ?thesis unfolding spec_abort(1) by (rule phases_ok_view [OF assms(3)]) simp
qed

section \<open>Versions\<close>

definition settled :: "spec_state \<Rightarrow> nram_key \<Rightarrow> nram_xact \<Rightarrow> bool" where
  "settled \<sigma> k y = (\<forall>p. \<not> claims (sp_view \<sigma> p) k y)"

definition before :: "nram_xact list \<Rightarrow> nram_xact \<Rightarrow> nram_xact list" where
  "before H x = takeWhile (\<lambda>y. xact_id y \<noteq> xact_id x) H"

text \<open>The committed writers of a key, in order, and the version the last of them leaves.\<close>

definition writers :: "u32 set \<Rightarrow> nram_xact list \<Rightarrow> nram_key \<Rightarrow> nram_xact list" where
  "writers C H k = filter (\<lambda>y. xact_id y \<in> C) (filter (\<lambda>y. writes y k) H)"

definition last_version :: "(nram_key \<Rightarrow> nram_value option) \<Rightarrow> u32 set \<Rightarrow> nram_xact list \<Rightarrow> nram_key \<Rightarrow> u32 option" where
  "last_version m0 C H k = (case rev (writers C H k) of [] \<Rightarrow> map_option v_xact_id (m0 k) | y # _ \<Rightarrow> Some (xact_id y))"

text \<open>A process that is about to write a key does so for the last writer of the key in the order.\<close>

definition last_ok :: "spec_state \<Rightarrow> bool" where
  "last_ok \<sigma> = (\<forall>p k y. claims (sp_view \<sigma> p) k y \<longrightarrow> (\<exists>ys. filter (\<lambda>z. writes z k) (sp_order \<sigma>) = ys @ [y]))"

text \<open>The storage has the value of the last committed writer that has installed the key.\<close>

definition stored_ok ::
  "(nram_value \<Rightarrow> nram_value) \<Rightarrow> (nram_key \<Rightarrow> nram_value option) \<Rightarrow> nram_key \<Rightarrow> nram_value option \<Rightarrow> nram_xact list \<Rightarrow> bool" where
  "stored_ok seen m0 k cur ys =
     (case rev ys of
        [] \<Rightarrow> cur = m0 k \<or> m0 k = None \<and> (\<exists>v. cur = Some v \<and> NRAMValueIsPrivate v)
      | y # _ \<Rightarrow> cur = map_option (\<lambda>opt. seen (opt_value opt)) (find_write_set y k))"

abbreviation installed :: "spec_state \<Rightarrow> nram_key \<Rightarrow> nram_xact list" where
  "installed \<sigma> k \<equiv> filter (settled \<sigma> k) (writers (sp_done \<sigma>) (sp_order \<sigma>) k)"

definition map_ok :: "(nram_value \<Rightarrow> nram_value) \<Rightarrow> (nram_key \<Rightarrow> nram_value option) \<Rightarrow> spec_state \<Rightarrow> bool" where
  "map_ok seen m0 \<sigma> = (\<forall>k. stored_ok seen m0 k (sp_map \<sigma> k) (installed \<sigma> k))"

text \<open>A recorded version is an initial one or that of a committed writer.\<close>

definition read_from :: "(nram_key \<Rightarrow> nram_value option) \<Rightarrow> u32 set \<Rightarrow> nram_xact list \<Rightarrow> nram_opt \<Rightarrow> bool" where
  "read_from m0 C H opt =
     ((\<exists>v. m0 (opt_key opt) = Some v \<and> v_xact_id v = opt_xact_id opt) \<or>
      (\<exists>y \<in> set (writers C H (opt_key opt)). xact_id y = opt_xact_id opt))"

text \<open>
  A read that was checked: the writers of the key before the transaction are settled, and the
  version is the one the last of them left.
\<close>

definition good_read :: "(nram_key \<Rightarrow> nram_value option) \<Rightarrow> spec_state \<Rightarrow> nram_xact \<Rightarrow> nram_opt \<Rightarrow> bool" where
  "good_read m0 \<sigma> x opt =
     ((\<forall>y \<in> set (before (sp_order \<sigma>) x). writes y (opt_key opt) \<longrightarrow> settled \<sigma> (opt_key opt) y) \<and>
      last_version m0 (sp_done \<sigma>) (before (sp_order \<sigma>) x) (opt_key opt) = Some (opt_xact_id opt))"

fun from_ok :: "(nram_key \<Rightarrow> nram_value option) \<Rightarrow> u32 set \<Rightarrow> nram_xact list \<Rightarrow> view \<Rightarrow> bool" where
  "from_ok m0 C H (Pre x) = (\<forall>opt \<in> set (read_set x). read_from m0 C H opt)"
| "from_ok m0 C H (Und x left) = (\<forall>opt \<in> set (read_set x). read_from m0 C (before H x) opt)"
| "from_ok m0 C H _ = True"

definition reads_ok :: "(nram_key \<Rightarrow> nram_value option) \<Rightarrow> spec_state \<Rightarrow> bool" where
  "reads_ok m0 \<sigma> \<longleftrightarrow>
     (\<forall>p. from_ok m0 (sp_done \<sigma>) (sp_order \<sigma>) (sp_view \<sigma> p)) \<and>
     (\<forall>x \<in> set (sp_order \<sigma>). xact_id x \<in> sp_done \<sigma> \<longrightarrow> (\<forall>opt \<in> set (read_set x). good_read m0 \<sigma> x opt)) \<and>
     (\<forall>p x left. sp_view \<sigma> p = Und x left \<longrightarrow> (\<forall>opt \<in> set (read_set x). opt \<in> set left \<or> good_read m0 \<sigma> x opt))"

lemma writes_iff: "writes x k \<longleftrightarrow> k \<in> opt_key ` set (write_set x)"
  using find_opt_None [of "write_set x" k] by (simp add: writes_def find_write_set_def)

text \<open>What a step can do to the claims and to the order.\<close>

lemma claims_step:
  assumes "spec_step seen \<sigma> \<sigma>'"
  shows "sp_order \<sigma>' = sp_order \<sigma> \<and> (\<forall>p k y. claims (sp_view \<sigma>' p) k y \<longrightarrow> claims (sp_view \<sigma> p) k y) \<or>
    (\<exists>p x. \<sigma>' = \<sigma>\<lparr>sp_view := (sp_view \<sigma>)(p := Und x (read_set x)), sp_order := sp_order \<sigma> @ [x]\<rparr> \<and> sp_view \<sigma> p = Pre x \<and>
       (\<forall>q k y. q \<noteq> p \<longrightarrow> writes x k \<longrightarrow> \<not> claims (sp_view \<sigma> q) k y))"
  using assms
proof cases
  case (spec_valid p x)
  then show ?thesis by (auto simp: writes_iff)
qed auto

lemma last_ok_step:
  assumes "spec_step seen \<sigma> \<sigma>'" "last_ok \<sigma>"
  shows "last_ok \<sigma>'"
  using claims_step [OF assms(1)]
proof (elim disjE exE conjE)
  assume "sp_order \<sigma>' = sp_order \<sigma>" "\<forall>p k y. claims (sp_view \<sigma>' p) k y \<longrightarrow> claims (sp_view \<sigma> p) k y"
  then show ?thesis using assms(2) unfolding last_ok_def by metis
next
  fix p x
  assume step: "\<sigma>' = \<sigma>\<lparr>sp_view := (sp_view \<sigma>)(p := Und x (read_set x)), sp_order := sp_order \<sigma> @ [x]\<rparr>" "sp_view \<sigma> p = Pre x"
    "\<forall>q k y. q \<noteq> p \<longrightarrow> writes x k \<longrightarrow> \<not> claims (sp_view \<sigma> q) k y"
  show ?thesis
    unfolding last_ok_def
  proof (intro allI impI)
    fix q k y
    assume c: "claims (sp_view \<sigma>' q) k y"
    show "\<exists>ys. filter (\<lambda>z. writes z k) (sp_order \<sigma>') = ys @ [y]"
    proof (cases "q = p")
      case True
      with c step(1) show ?thesis by auto
    next
      case False
      with c step have "claims (sp_view \<sigma> q) k y" "\<not> writes x k" by auto
      with assms(2) step(1) show ?thesis unfolding last_ok_def by simp
    qed
  qed
qed

lemma before_append: "x \<in> set H \<Longrightarrow> before (H @ ys) x = before H x"
  by (auto simp: before_def takeWhile_append1)

lemma before_fresh: "xact_id x \<notin> xact_id ` set H \<Longrightarrow> before (H @ [x]) x = H"
  unfolding before_def by (subst takeWhile_append2) (auto simp: image_iff)

lemma set_before: "set (before H x) \<subseteq> set H"
  by (auto simp: before_def dest: set_takeWhileD)

lemma before_step:
  assumes "spec_step seen \<sigma> \<sigma>'" "x \<in> set (sp_order \<sigma>)"
  shows "before (sp_order \<sigma>') x = before (sp_order \<sigma>) x"
  using claims_step [OF assms(1)] assms(2) by (auto simp: before_append)

lemma settled_step:
  assumes "spec_step seen \<sigma> \<sigma>'" "phases_ok \<sigma>" "y \<in> set (sp_order \<sigma>)" "settled \<sigma> k y"
  shows "settled \<sigma>' k y"
  using claims_step [OF assms(1)]
proof (elim disjE exE conjE)
  fix p x
  assume step: "\<sigma>' = \<sigma>\<lparr>sp_view := (sp_view \<sigma>)(p := Und x (read_set x)), sp_order := sp_order \<sigma> @ [x]\<rparr>" "sp_view \<sigma> p = Pre x"
  then have "xact_id x \<notin> xact_id ` set (sp_order \<sigma>)" using phases_okD(1) [OF assms(2), of p] by simp
  then have "x \<noteq> y" using assms(3) by auto
  with step assms(4) show ?thesis by (auto simp: settled_def)
qed (use assms(4) in \<open>auto simp: settled_def\<close>)

lemma done_step:
  assumes "spec_step seen \<sigma> \<sigma>'"
  shows "sp_done \<sigma>' = sp_done \<sigma> \<or> (\<exists>p x. sp_view \<sigma> p = Und x [] \<and> sp_done \<sigma>' = insert (xact_id x) (sp_done \<sigma>))"
  using assms by cases auto

text \<open>A validation does not change the committed writers of a key if all of them are settled.\<close>

lemma writers_step:
  assumes "spec_step seen \<sigma> \<sigma>'" "ids_ok U0 \<sigma>" "phases_ok \<sigma>" "set H \<subseteq> set (sp_order \<sigma>)"
    and "\<forall>y \<in> set H. writes y k \<longrightarrow> settled \<sigma> k y"
  shows "writers (sp_done \<sigma>') H k = writers (sp_done \<sigma>) H k"
  using done_step [OF assms(1)]
proof (elim disjE exE conjE)
  fix p x
  assume step: "sp_view \<sigma> p = Und x []" "sp_done \<sigma>' = insert (xact_id x) (sp_done \<sigma>)"
  have "xact_id y \<noteq> xact_id x" if "y \<in> set H" "writes y k" for y
  proof
    assume "xact_id y = xact_id x"
    then have "y = x" using ids_okD(4) [OF assms(2)] assms(4) that(1) phases_okD(1) [OF assms(3), of p] step(1) by auto
    with assms(5) that have "\<not> claims (sp_view \<sigma> p) k x" by (auto simp: settled_def)
    with \<open>y = x\<close> that(2) step(1) show False by simp
  qed
  with step(2) show ?thesis by (auto simp: writers_def intro!: filter_cong)
qed simp

lemma good_read_step:
  assumes "spec_step seen \<sigma> \<sigma>'" "ids_ok U0 \<sigma>" "phases_ok \<sigma>" "x \<in> set (sp_order \<sigma>)" "good_read m0 \<sigma> x opt"
  shows "good_read m0 \<sigma>' x opt"
proof -
  let ?B = "before (sp_order \<sigma>) x"
  have sub: "set ?B \<subseteq> set (sp_order \<sigma>)" by (rule set_before)
  have "writers (sp_done \<sigma>') ?B (opt_key opt) = writers (sp_done \<sigma>) ?B (opt_key opt)"
    using writers_step [OF assms(1-3) sub] assms(5) by (simp add: good_read_def)
  then show ?thesis
    using assms(5) sub settled_step [OF assms(1,3)] unfolding good_read_def before_step [OF assms(1,4)] last_version_def by auto
qed

lemma read_from_mono:
  assumes "read_from m0 C H opt" "C \<subseteq> C'" "set H \<subseteq> set H'"
  shows "read_from m0 C' H' opt"
  using assms by (auto simp: read_from_def writers_def)

lemma stored_version:
  assumes "stored_ok seen m0 k (Some v) ys" "rev ys = y # zs" "own_writes y" "\<forall>v. v_xact_id (seen v) = v_xact_id v"
  shows "v_xact_id v = xact_id y"
proof -
  obtain opt where "find_write_set y k = Some opt" "v = seen (opt_value opt)"
    using assms(1,2) by (cases "find_write_set y k") (auto simp: stored_ok_def)
  with assms(3,4) show ?thesis
    using find_opt_Some [of "write_set y" k opt] by (auto simp: own_writes_def find_write_set_def)
qed

text \<open>The value a running transaction reads.\<close>

lemma visible_version:
  assumes "map_ok seen m0 \<sigma>" "sp_map \<sigma> k = Some v" "\<not> NRAMValueIsPrivate v" "\<forall>v. v_xact_id (seen v) = v_xact_id v" "phases_ok \<sigma>"
  shows "(\<exists>w. m0 k = Some w \<and> v_xact_id w = v_xact_id v) \<or> (\<exists>y \<in> set (writers (sp_done \<sigma>) (sp_order \<sigma>) k). xact_id y = v_xact_id v)"
proof -
  let ?ys = "installed \<sigma> k"
  have ok: "stored_ok seen m0 k (Some v) ?ys" using assms(1) unfolding map_ok_def assms(2) [symmetric] by blast
  show ?thesis
  proof (cases "rev ?ys")
    case Nil
    then have "m0 k = Some v" using ok assms(3) by (auto simp: stored_ok_def)
    then show ?thesis by simp
  next
    case (Cons y ys)
    then have y: "y \<in> set ?ys" by (metis list.set_intros(1) set_rev)
    then have "y \<in> set (sp_order \<sigma>)" by (simp add: writers_def)
    from stored_version [OF ok Cons phases_okD(2) [OF assms(5) this] assms(4)] y show ?thesis by auto
  qed
qed

lemma map_ok_same:
  assumes "map_ok seen m0 \<sigma>" "sp_map \<sigma>' = sp_map \<sigma>" "\<And>k. installed \<sigma>' k = installed \<sigma> k"
  shows "map_ok seen m0 \<sigma>'"
  using assms(1) unfolding map_ok_def assms(2,3) .

lemma settled_split: "settled \<sigma> k y \<longleftrightarrow> \<not> claims (sp_view \<sigma> p) k y \<and> (\<forall>q. q \<noteq> p \<longrightarrow> \<not> claims (sp_view \<sigma> q) k y)"
  unfolding settled_def by metis

lemma settled_same:
  assumes "sp_view \<sigma>' = (sp_view \<sigma>)(p := w)" "claims w k y = claims (sp_view \<sigma> p) k y"
  shows "settled \<sigma>' k y = settled \<sigma> k y"
  using assms by (simp add: settled_split [of _ _ _ p])

lemma installed_cong:
  "sp_done \<sigma>' = sp_done \<sigma> \<Longrightarrow> sp_order \<sigma>' = sp_order \<sigma> \<Longrightarrow> (\<And>y. settled \<sigma>' k y = settled \<sigma> k y) \<Longrightarrow> installed \<sigma>' k = installed \<sigma> k"
  by (simp cong: filter_cong)

lemma map_ok_same_claims:
  assumes "map_ok seen m0 \<sigma>" "sp_map \<sigma>' = sp_map \<sigma>" "sp_done \<sigma>' = sp_done \<sigma>" "sp_order \<sigma>' = sp_order \<sigma>"
    and "sp_view \<sigma>' = (sp_view \<sigma>)(p := w)" "\<And>k y. claims w k y = claims (sp_view \<sigma> p) k y"
  shows "map_ok seen m0 \<sigma>'"
  by (intro map_ok_same [OF assms(1,2)] installed_cong assms(3,4) settled_same [OF assms(5,6)])

lemma writers_snoc: "xact_id x \<notin> C \<Longrightarrow> writers C (H @ [x]) k = writers C H k"
  by (simp add: writers_def)

lemma stored_ok_insert:
  assumes "stored_ok seen m0 k None ys" "\<forall>y \<in> set ys. writes y k" "NRAMValueIsPrivate v"
  shows "stored_ok seen m0 k (Some v) ys"
  using assms by (cases ys rule: rev_cases) (auto simp: stored_ok_def writes_def)

text \<open>An installed value is the one of the last committed writer of its key.\<close>

lemma map_ok_install:
  assumes "map_ok seen m0 \<sigma>" "last_ok \<sigma>" "phases_ok \<sigma>" "ids_ok U0 \<sigma>" "sp_view \<sigma> p = Inst x (opt # todo)"
    and \<sigma>': "\<sigma>' = \<sigma>\<lparr>sp_view := (sp_view \<sigma>)(p := Inst x todo), sp_map := (sp_map \<sigma>)(opt_key opt \<mapsto> seen (opt_value opt))\<rparr>"
  shows "map_ok seen m0 \<sigma>'"
  unfolding map_ok_def
proof
  fix k
  let ?k = "opt_key opt"
  have x: "x \<in> set (sp_order \<sigma>)" "xact_id x \<in> sp_done \<sigma>" "opt \<in> set (write_set x)" "?k \<notin> opt_key ` set todo"
    using phases_okD(1) [OF assms(3), of p] assms(5) by auto
  show "stored_ok seen m0 k (sp_map \<sigma>' k) (installed \<sigma>' k)"
  proof (cases "k = ?k")
    case False
    then have "settled \<sigma>' k y = settled \<sigma> k y" for y
      using assms(5) by (intro settled_same [of _ _ p]) (auto simp: \<sigma>')
    then have "installed \<sigma>' k = installed \<sigma> k" by (intro installed_cong) (simp_all add: \<sigma>')
    with False assms(1) show ?thesis unfolding map_ok_def by (simp add: \<sigma>')
  next
    case True
    have "claims (sp_view \<sigma> p) ?k x" using assms(5) by simp
    with assms(2) obtain ys where ys: "filter (\<lambda>z. writes z ?k) (sp_order \<sigma>) = ys @ [x]" unfolding last_ok_def by blast
    have "\<not> claims (sp_view \<sigma> q) ?k x" if "q \<noteq> p" for q
    proof
      assume "claims (sp_view \<sigma> q) ?k x"
      then have "view_xact (sp_view \<sigma> q) = Some x" by (cases "sp_view \<sigma> q") auto
      with other_ids [OF assms(4) _ that, of x x] assms(5) show False by simp
    qed
    then have "settled \<sigma>' ?k x" using x(4) by (auto simp: settled_split [of _ _ _ p] \<sigma>')
    then have "installed \<sigma>' ?k = filter (settled \<sigma>' ?k) (filter (\<lambda>y. xact_id y \<in> sp_done \<sigma>) ys) @ [x]"
      using ys x(2) by (simp add: writers_def \<sigma>')
    moreover have "find_write_set x ?k = Some opt"
      using find_opt_distinct [of "write_set x" opt] phases_okD(2) [OF assms(3) x(1)] x(3)
      by (simp add: own_writes_def find_write_set_def)
    ultimately show ?thesis using True by (simp add: stored_ok_def \<sigma>')
  qed
qed

lemma map_ok_step:
  assumes "spec_step seen \<sigma> \<sigma>'" "ids_ok U0 \<sigma>" "phases_ok \<sigma>" "last_ok \<sigma>" "map_ok seen m0 \<sigma>"
  shows "map_ok seen m0 \<sigma>'"
  using assms(1)
proof cases
  case (spec_insert p x k v x')
  have "settled \<sigma>' j y = settled \<sigma> j y" for j y
    using spec_insert(1,2) by (intro settled_same [of _ _ p "Pre x'"]) auto
  then have same: "installed \<sigma>' j = installed \<sigma> j" for j by (intro installed_cong) (simp_all add: spec_insert(1))
  have old: "stored_ok seen m0 j (sp_map \<sigma> j) (installed \<sigma> j)" for j using assms(5) unfolding map_ok_def by blast
  have "stored_ok seen m0 k None (installed \<sigma> k)" using old [of k] by (simp only: spec_insert(3))
  moreover have "\<forall>y \<in> set (installed \<sigma> k). writes y k" by (simp add: writers_def)
  ultimately have new: "stored_ok seen m0 k (Some v) (installed \<sigma> k)" by (rule stored_ok_insert [OF _ _ spec_insert(5)])
  have "stored_ok seen m0 j (sp_map \<sigma>' j) (installed \<sigma>' j)" for j
    unfolding same using old new by (cases "j = k") (simp_all add: spec_insert(1))
  then show ?thesis unfolding map_ok_def by blast
next
  case (spec_lock_point p x)
  have x: "xact_id x \<notin> xact_id ` set (sp_order \<sigma>)" using phases_okD(1) [OF assms(3), of p] spec_lock_point(2) by simp
  then have "xact_id x \<notin> sp_done \<sigma>" using assms(2) by (auto simp: ids_ok_def)
  moreover have "settled \<sigma>' k y = settled \<sigma> k y" if "y \<in> set (sp_order \<sigma>)" for k y
    using that x spec_lock_point(1,2) by (intro settled_same [of _ _ p "Und x (read_set x)"]) auto
  ultimately show ?thesis
    using spec_lock_point(1) by (intro map_ok_same [OF assms(5)]) (auto simp: writers_snoc writers_def intro!: filter_cong)
next
  case (spec_valid p x)
  have same: "settled \<sigma>' k y = settled \<sigma> k y" for k y
    using spec_valid(1,2) by (intro settled_same [of _ _ p "Inst x (write_set x)"]) (auto simp: writes_iff)
  have "\<not> settled \<sigma> k y" if "y \<in> set (sp_order \<sigma>)" "xact_id y = xact_id x" "writes y k" for k y
  proof -
    have "y = x" using ids_okD(4) [OF assms(2) that(1) _ that(2)] phases_okD(1) [OF assms(3), of p] spec_valid(2) by simp
    then show ?thesis using spec_valid(2) that(3) by (simp add: settled_split [of _ _ _ p])
  qed
  then show ?thesis
    using spec_valid(1) same by (intro map_ok_same [OF assms(5)]) (auto simp: writers_def intro!: filter_cong)
next
  case (spec_install p x opt todo)
  show ?thesis by (rule map_ok_install [OF assms(5,4,3,2) spec_install(2,1)])
next
  case (spec_abort p)
  have "settled \<sigma>' k y = settled \<sigma> k y" if "xact_id y \<in> sp_done \<sigma>" for k y
    using that spec_abort phases_okD(1) [OF assms(3), of p] by (intro settled_same [of _ _ p Out]) auto
  then show ?thesis
    using spec_abort(1) by (intro map_ok_same [OF assms(5)]) (auto simp: writers_def intro!: filter_cong)
next
  case (spec_begin p x)
  then show ?thesis by (intro map_ok_same_claims [OF assms(5), of _ p]) auto
next
  case (spec_read p x opt v x')
  then show ?thesis by (intro map_ok_same_claims [OF assms(5), of _ p]) auto
next
  case (spec_write p x x')
  then show ?thesis by (intro map_ok_same_claims [OF assms(5), of _ p]) auto
next
  case (spec_check p x opt left v)
  then show ?thesis by (intro map_ok_same_claims [OF assms(5), of _ p]) auto
next
  case (spec_end p x)
  then show ?thesis by (intro map_ok_same_claims [OF assms(5), of _ p]) auto
qed

section \<open>Reads\<close>

lemma from_ok_mono:
  assumes "from_ok m0 C H v" "C \<subseteq> C'" "\<And>x left. v = Und x left \<Longrightarrow> x \<in> set H"
  shows "from_ok m0 C' (H @ ys) v"
proof (cases v)
  case (Pre x)
  then show ?thesis using assms(1,2) read_from_mono [of m0 C H _ C' "H @ ys"] by auto
next
  case (Und x left)
  with assms(3) have "before (H @ ys) x = before H x" by (simp add: before_append)
  with Und show ?thesis using assms(1,2) read_from_mono [of m0 C "before H x" _ C' "before H x"] by auto
qed simp_all

lemma writers_prefix: "H = B @ R \<Longrightarrow> writers C H k = writers C B k @ writers C R k"
  by (simp add: writers_def)

lemma last_version_before:
  assumes "ids_ok U0 \<sigma>" "phases_ok \<sigma>" "\<forall>v. v_xact_id (seen v) = v_xact_id v" "\<forall>k v. m0 k = Some v \<longrightarrow> v_xact_id v \<in> U0"
    and ok: "stored_ok seen m0 (opt_key opt) (Some v) (writers (sp_done \<sigma>) (sp_order \<sigma>) (opt_key opt))" "v_xact_id v = opt_xact_id opt"
    and "from": "read_from m0 (sp_done \<sigma>) (before (sp_order \<sigma>) x) opt"
  shows "last_version m0 (sp_done \<sigma>) (before (sp_order \<sigma>) x) (opt_key opt) = Some (opt_xact_id opt)"
proof -
  let ?k = "opt_key opt" and ?H = "sp_order \<sigma>" and ?C = "sp_done \<sigma>" and ?B = "before (sp_order \<sigma>) x"
  obtain R where R: "?H = ?B @ R" unfolding before_def by (metis takeWhile_dropWhile_id)
  note split = writers_prefix [OF R, of ?C ?k]
  show ?thesis
  proof (cases "rev (writers ?C ?H ?k)")
    case Nil
    then have "writers ?C ?B ?k = []" using split by simp
    with "from" show ?thesis by (auto simp: read_from_def last_version_def)
  next
    case (Cons y ys)
    then have y: "y \<in> set (writers ?C ?H ?k)" by (metis list.set_intros(1) set_rev)
    then have yH: "y \<in> set ?H" by (simp add: writers_def)
    have id: "xact_id y = opt_xact_id opt"
      using stored_version [OF ok(1) Cons phases_okD(2) [OF assms(2) yH] assms(3)] ok(2) by simp
    have "\<not> (\<exists>v. m0 ?k = Some v \<and> v_xact_id v = opt_xact_id opt)"
      using ids_okD(3) [OF assms(1) yH] assms(4) id by (metis DiffD2)
    with "from" id obtain z where z: "z \<in> set (writers ?C ?B ?k)" "xact_id z = xact_id y"
      by (auto simp: read_from_def)
    then have "z = y" using ids_okD(4) [OF assms(1) _ yH z(2)] set_before [of ?H x] by (auto simp: writers_def)
    then have "y \<in> set ?B" using z(1) by (simp add: writers_def)
    moreover have "distinct (?B @ R)" using assms(1) R unfolding ids_ok_def by (metis distinct_map)
    ultimately have "y \<notin> set R" by auto
    moreover have "last (writers ?C ?H ?k) = y" using Cons by (metis hd_rev list.sel(1))
    ultimately have "writers ?C R ?k = []"
      using split by (metis (no_types, lifting) last_appendR last_in_set writers_def filter_is_subset subsetD)
    then have "writers ?C ?B ?k = writers ?C ?H ?k" using split by simp
    with Cons id show ?thesis by (simp add: last_version_def)
  qed
qed

text \<open>
  The check of a read: no other process is about to write the key, so the current version is
  the one of the last committed writer of all; it was read before the lock point, so this
  writer comes before the transaction.
\<close>

lemma check_good:
  assumes "ids_ok U0 \<sigma>" "phases_ok \<sigma>" "map_ok seen m0 \<sigma>" "\<forall>v. v_xact_id (seen v) = v_xact_id v"
    and init: "\<forall>k v. m0 k = Some v \<longrightarrow> v_xact_id v \<in> U0"
    and view: "sp_view \<sigma> p = Und x left" and cur: "sp_map \<sigma> (opt_key opt) = Some v" "v_xact_id v = opt_xact_id opt"
    and free: "\<forall>q y. q \<noteq> p \<longrightarrow> \<not> claims (sp_view \<sigma> q) (opt_key opt) y"
    and "from": "read_from m0 (sp_done \<sigma>) (before (sp_order \<sigma>) x) opt"
  shows "good_read m0 \<sigma> x opt"
proof -
  let ?k = "opt_key opt" and ?H = "sp_order \<sigma>" and ?C = "sp_done \<sigma>"
  have x: "x \<in> set ?H" "xact_id x \<notin> ?C" using phases_okD(1) [OF assms(2), of p] view by simp_all
  have set: "settled \<sigma> ?k y" if "xact_id y \<noteq> xact_id x" for y
    using that free view by (auto simp: settled_split [of _ _ _ p])
  have "settled \<sigma> ?k y" if "y \<in> set (writers ?C ?H ?k)" for y
    using that x(2) by (intro set) (auto simp: writers_def)
  then have "installed \<sigma> ?k = writers ?C ?H ?k" by (simp add: filter_id_conv)
  moreover have "stored_ok seen m0 ?k (Some v) (installed \<sigma> ?k)" using assms(3) unfolding map_ok_def cur(1) [symmetric] by blast
  ultimately have ok: "stored_ok seen m0 ?k (Some v) (writers ?C ?H ?k)" by simp
  have "last_version m0 ?C (before ?H x) ?k = Some (opt_xact_id opt)"
    using last_version_before [OF assms(1,2,4) init ok cur(2) "from"] .
  moreover have "xact_id y \<noteq> xact_id x" if "y \<in> set (before ?H x)" for y
    using that by (auto simp: before_def dest: set_takeWhileD)
  ultimately show ?thesis using set by (simp add: good_read_def)
qed

lemma reads_ok_other:
  assumes "spec_step seen \<sigma> \<sigma>'" "ids_ok U0 \<sigma>" "phases_ok \<sigma>" "reads_ok m0 \<sigma>"
  shows "x \<in> set (sp_order \<sigma>) \<Longrightarrow> xact_id x \<in> sp_done \<sigma> \<Longrightarrow> opt \<in> set (read_set x) \<Longrightarrow> good_read m0 \<sigma>' x opt"
    and "sp_view \<sigma> p = Und x left \<Longrightarrow> opt \<in> set (read_set x) \<Longrightarrow> opt \<in> set left \<or> good_read m0 \<sigma>' x opt"
    and "from_ok m0 (sp_done \<sigma>') (sp_order \<sigma>') (sp_view \<sigma> p)"
proof -
  show "x \<in> set (sp_order \<sigma>) \<Longrightarrow> xact_id x \<in> sp_done \<sigma> \<Longrightarrow> opt \<in> set (read_set x) \<Longrightarrow> good_read m0 \<sigma>' x opt"
    using assms(4) good_read_step [OF assms(1-3)] by (simp add: reads_ok_def)
  show "opt \<in> set left \<or> good_read m0 \<sigma>' x opt" if "sp_view \<sigma> p = Und x left" "opt \<in> set (read_set x)"
  proof -
    have "x \<in> set (sp_order \<sigma>)" using phases_okD(1) [OF assms(3), of p] that(1) by simp
    then show ?thesis using assms(4) good_read_step [OF assms(1-3)] that unfolding reads_ok_def by blast
  qed
  have "sp_done \<sigma> \<subseteq> sp_done \<sigma>'" using done_step [OF assms(1)] by auto
  moreover obtain ys where "sp_order \<sigma>' = sp_order \<sigma> @ ys" using claims_step [OF assms(1)] by auto
  moreover have "from_ok m0 (sp_done \<sigma>) (sp_order \<sigma>) (sp_view \<sigma> p)" using assms(4) by (simp add: reads_ok_def)
  moreover have "x \<in> set (sp_order \<sigma>)" if "sp_view \<sigma> p = Und x left" for x left
    using phases_okD(1) [OF assms(3), of p] that by simp
  ultimately show "from_ok m0 (sp_done \<sigma>') (sp_order \<sigma>') (sp_view \<sigma> p)" by (simp add: from_ok_mono)
qed

text \<open>A step of process \<open>p\<close> only has to establish what is new for its own transaction.\<close>

lemma reads_okI:
  assumes "spec_step seen \<sigma> \<sigma>'" "ids_ok U0 \<sigma>" "phases_ok \<sigma>" "reads_ok m0 \<sigma>" "sp_view \<sigma>' = (sp_view \<sigma>)(p := w)"
    and "from_ok m0 (sp_done \<sigma>') (sp_order \<sigma>') w"
    and "\<And>x left opt. w = Und x left \<Longrightarrow> opt \<in> set (read_set x) \<Longrightarrow> opt \<in> set left \<or> good_read m0 \<sigma>' x opt"
    and "\<And>x opt. x \<in> set (sp_order \<sigma>') \<Longrightarrow> xact_id x \<in> sp_done \<sigma>' \<Longrightarrow> x \<in> set (sp_order \<sigma>) \<and> xact_id x \<in> sp_done \<sigma> \<or>
           (\<exists>left. sp_view \<sigma> p = Und x left \<and> left = [])"
  shows "reads_ok m0 \<sigma>'"
proof -
  note other = reads_ok_other [OF assms(1-4)]
  have "from_ok m0 (sp_done \<sigma>') (sp_order \<sigma>') (sp_view \<sigma>' q)" for q
    using other(3) [of q] assms(6) by (cases "q = p") (simp_all add: assms(5))
  moreover have "good_read m0 \<sigma>' x opt" if "x \<in> set (sp_order \<sigma>')" "xact_id x \<in> sp_done \<sigma>'" "opt \<in> set (read_set x)" for x opt
    using assms(8) [OF that(1,2)] other(1) [of x opt] other(2) [of p x "[]" opt] that(3) by auto
  moreover have "opt \<in> set left \<or> good_read m0 \<sigma>' x opt" if "sp_view \<sigma>' q = Und x left" "opt \<in> set (read_set x)" for q x left opt
    using other(2) [of q x left opt] assms(7) [of x left opt] that by (cases "q = p") (simp_all add: assms(5))
  ultimately show ?thesis unfolding reads_ok_def by blast
qed

lemma read_from_here:
  assumes "map_ok seen m0 \<sigma>" "phases_ok \<sigma>" "\<forall>v. v_xact_id (seen v) = v_xact_id v"
    and "sp_view \<sigma> p = Pre x" "\<not> writes x (opt_key opt)" "sp_map \<sigma> (opt_key opt) = Some v" "visible_to x v" "opt_xact_id opt = v_xact_id v"
  shows "read_from m0 (sp_done \<sigma>) (sp_order \<sigma>) opt"
proof -
  have "v_xact_id v \<noteq> xact_id x" using phases_okD(1) [OF assms(2), of p] assms(4-6) by auto
  then have "\<not> NRAMValueIsPrivate v" using assms(7) by (simp add: visible_to_def)
  from visible_version [OF assms(1,6) this assms(3,2)] show ?thesis by (simp add: read_from_def assms(8))
qed

lemma reads_ok_step:
  assumes "spec_step seen \<sigma> \<sigma>'" "ids_ok U0 \<sigma>" "phases_ok \<sigma>" "map_ok seen m0 \<sigma>" "reads_ok m0 \<sigma>"
    and "\<forall>v. v_xact_id (seen v) = v_xact_id v" "\<forall>k v. m0 k = Some v \<longrightarrow> v_xact_id v \<in> U0"
  shows "reads_ok m0 \<sigma>'"
proof -
  note I = reads_okI [OF assms(1-3,5)]
  have old: "from_ok m0 (sp_done \<sigma>) (sp_order \<sigma>) (sp_view \<sigma> p)" for p using assms(5) by (simp add: reads_ok_def)
  show ?thesis
    using assms(1)
  proof cases
    case (spec_begin p x)
    then show ?thesis by (intro I [of p "Pre x"]) simp_all
  next
    case (spec_read p x opt v x')
    have "read_from m0 (sp_done \<sigma>) (sp_order \<sigma>) opt" by (rule read_from_here [OF assms(4,3,6) spec_read(2-6)])
    then show ?thesis using spec_read old [of p] by (intro I [of p "Pre x'"]) auto
  next
    case (spec_write p x x')
    then show ?thesis using old [of p] by (intro I [of p "Pre x'"]) auto
  next
    case (spec_insert p x k v x')
    then show ?thesis using old [of p] by (intro I [of p "Pre x'"]) auto
  next
    case (spec_lock_point p x)
    have x: "xact_id x \<notin> xact_id ` set (sp_order \<sigma>)" using phases_okD(1) [OF assms(3), of p] spec_lock_point(2) by simp
    then have "xact_id x \<notin> sp_done \<sigma>" using assms(2) by (auto simp: ids_ok_def)
    then show ?thesis
      using spec_lock_point old [of p] before_fresh [OF x] by (intro I [of p "Und x (read_set x)"]) auto
  next
    case (spec_check p x opt left v)
    have x: "x \<in> set (sp_order \<sigma>)" using phases_okD(1) [OF assms(3), of p] spec_check(2) by simp
    have "good_read m0 \<sigma>' x opt" if "opt \<in> set (read_set x)"
    proof (rule good_read_step [OF assms(1-3) x])
      have "read_from m0 (sp_done \<sigma>) (before (sp_order \<sigma>) x) opt" using old [of p] spec_check(2) that by simp
      then show "good_read m0 \<sigma> x opt" by (rule check_good [OF assms(2,3,4,6,7) spec_check(2-5)])
    qed
    moreover have "o' \<in> set (opt # left) \<or> good_read m0 \<sigma>' x o'" if "o' \<in> set (read_set x)" for o'
      using reads_ok_other(2) [OF assms(1-3,5) spec_check(2) that] .
    ultimately show ?thesis using spec_check old [of p] by (intro I [of p "Und x left"]) auto
  next
    case (spec_valid p x)
    have "x' = x" if "x' \<in> set (sp_order \<sigma>)" "xact_id x' = xact_id x" for x'
      using ids_okD(4) [OF assms(2) that(1) _ that(2)] phases_okD(1) [OF assms(3), of p] spec_valid(2) by simp
    then show ?thesis using spec_valid by (intro I [of p "Inst x (write_set x)"]) auto
  next
    case (spec_install p x opt todo)
    then show ?thesis by (intro I [of p "Inst x todo"]) auto
  next
    case (spec_end p x)
    then show ?thesis by (intro I [of p Out]) auto
  next
    case (spec_abort p)
    show ?thesis by (intro I [of p Out]) (simp_all add: spec_abort(1))
  qed
qed

section \<open>Serializability\<close>

definition spec_inv :: "(nram_value \<Rightarrow> nram_value) \<Rightarrow> (nram_key \<Rightarrow> nram_value option) \<Rightarrow> u32 set \<Rightarrow> spec_state \<Rightarrow> bool" where
  "spec_inv seen m0 U0 \<sigma> \<longleftrightarrow> ids_ok U0 \<sigma> \<and> phases_ok \<sigma> \<and> last_ok \<sigma> \<and> map_ok seen m0 \<sigma> \<and> reads_ok m0 \<sigma>"

lemma spec_inv_start: "spec_start \<sigma> \<Longrightarrow> spec_inv seen (sp_map \<sigma>) (sp_used \<sigma>) \<sigma>"
  by (simp add: spec_start_def spec_inv_def ids_ok_def views_ids_def phases_ok_def last_ok_def map_ok_def stored_ok_def
      writers_def reads_ok_def)

lemma spec_inv_step:
  assumes "spec_step seen \<sigma> \<sigma>'" "spec_inv seen m0 U0 \<sigma>" "\<forall>v. v_xact_id (seen v) = v_xact_id v"
    and "\<forall>k v. m0 k = Some v \<longrightarrow> v_xact_id v \<in> U0"
  shows "spec_inv seen m0 U0 \<sigma>'"
  using assms ids_ok_step phases_ok_step last_ok_step map_ok_step reads_ok_step unfolding spec_inv_def by metis

lemma spec_inv_reachable:
  assumes "spec_start \<sigma>0" "(spec_step seen)\<^sup>*\<^sup>* \<sigma>0 \<sigma>" "\<forall>v. v_xact_id (seen v) = v_xact_id v"
  shows "spec_inv seen (sp_map \<sigma>0) (sp_used \<sigma>0) \<sigma>"
  using assms(2)
proof (induction rule: rtranclp_induct)
  case base
  show ?case by (rule spec_inv_start [OF assms(1)])
next
  case (step \<sigma>1 \<sigma>2)
  have "\<forall>k v. sp_map \<sigma>0 k = Some v \<longrightarrow> v_xact_id v \<in> sp_used \<sigma>0" using assms(1) by (simp add: spec_start_def)
  from spec_inv_step [OF step(2,3) assms(3) this] show ?case .
qed

text \<open>The contents a list of transactions leaves: the value of the last writer.\<close>

definition contents_after ::
  "(nram_value \<Rightarrow> nram_value) \<Rightarrow> (nram_key \<Rightarrow> nram_value option) \<Rightarrow> u32 set \<Rightarrow> nram_xact list \<Rightarrow> nram_key \<Rightarrow> nram_value option" where
  "contents_after seen m0 C H k =
     (case rev (writers C H k) of
        [] \<Rightarrow> m0 k | y # _ \<Rightarrow> map_option (\<lambda>opt. seen (opt_value opt)) (find_write_set y k))"

lemma run_serially_snoc:
  "run_serially seen m (xs @ [x]) =
     (case run_serially seen m xs of
        None \<Rightarrow> None
      | Some m' \<Rightarrow> if \<forall>opt \<in> set (read_set x). is_current m' opt then Some (with_writes seen (write_set x) m') else None)"
  by (induction xs arbitrary: m) auto

lemma current_after:
  assumes "last_version m0 C H (opt_key opt) = Some (opt_xact_id opt)" "\<forall>y \<in> set H. own_writes y"
    and "\<forall>v. v_xact_id (seen v) = v_xact_id v"
  shows "is_current (contents_after seen m0 C H) opt"
proof (cases "rev (writers C H (opt_key opt))")
  case Nil
  then show ?thesis using assms(1) by (auto simp: last_version_def contents_after_def is_current_def)
next
  case (Cons y ys)
  then have "y \<in> set (writers C H (opt_key opt))" by (metis list.set_intros(1) set_rev)
  then have y: "y \<in> set H" "find_write_set y (opt_key opt) \<noteq> None" by (auto simp: writers_def writes_def)
  then obtain w where w: "find_write_set y (opt_key opt) = Some w" by blast
  then have "v_xact_id (seen (opt_value w)) = xact_id y"
    using find_opt_Some [of "write_set y" "opt_key opt" w] assms(2,3) y(1) by (auto simp: own_writes_def find_write_set_def)
  with Cons w assms(1) show ?thesis by (simp add: last_version_def contents_after_def is_current_def)
qed

lemma contents_after_snoc:
  assumes "own_writes x"
  shows "contents_after seen m0 C (H @ [x]) =
    (if xact_id x \<in> C then with_writes seen (write_set x) (contents_after seen m0 C H) else contents_after seen m0 C H)"
proof
  fix k
  have "distinct (map opt_key (write_set x))" using assms by (simp add: own_writes_def)
  from with_writes_lookup [OF this, of seen "contents_after seen m0 C H" k]
  show "contents_after seen m0 C (H @ [x]) k =
    (if xact_id x \<in> C then with_writes seen (write_set x) (contents_after seen m0 C H) else contents_after seen m0 C H) k"
    by (auto simp: contents_after_def writers_def writes_def find_write_set_def split: option.split)
qed

lemma serial_prefix:
  assumes "spec_inv seen m0 U0 \<sigma>" "\<forall>v. v_xact_id (seen v) = v_xact_id v" "sp_order \<sigma> = B @ R"
  shows "run_serially seen m0 (filter (\<lambda>x. xact_id x \<in> sp_done \<sigma>) B) = Some (contents_after seen m0 (sp_done \<sigma>) B)"
  using assms(3)
proof (induction B arbitrary: R rule: rev_induct)
  case Nil
  show ?case by (auto simp: contents_after_def writers_def)
next
  case (snoc x B)
  let ?C = "sp_done \<sigma>" and ?m = "contents_after seen m0 (sp_done \<sigma>) B"
  have IH: "run_serially seen m0 (filter (\<lambda>x. xact_id x \<in> ?C) B) = Some ?m" using snoc by auto
  have x: "x \<in> set (sp_order \<sigma>)" and own: "\<forall>y \<in> set (B @ [x]). own_writes y"
    using snoc.prems assms(1) by (auto simp: spec_inv_def phases_ok_def)
  have "distinct (map xact_id (sp_order \<sigma>))" using assms(1) by (simp add: spec_inv_def ids_ok_def)
  then have "before (sp_order \<sigma>) x = B"
    using before_append [of x "B @ [x]" R] before_fresh [of x B] snoc.prems by simp
  then have "is_current ?m opt" if "xact_id x \<in> ?C" "opt \<in> set (read_set x)" for opt
    using assms(1) x that own assms(2) by (intro current_after) (auto simp: spec_inv_def reads_ok_def good_read_def)
  with IH own show ?case by (simp add: run_serially_snoc contents_after_snoc)
qed

text \<open>
  The committed transactions, one after the other in the order of their lock points, read the
  versions they read and, when no commit is in progress, leave the storage as it is, apart
  from private rows.
\<close>

definition quiet :: "spec_state \<Rightarrow> bool" where
  "quiet \<sigma> = (\<forall>p. \<not> (\<exists>x todo. sp_view \<sigma> p = Inst x todo \<or> sp_view \<sigma> p = Und x todo))"

lemma spec_serializable:
  assumes "spec_start \<sigma>0" "(spec_step seen)\<^sup>*\<^sup>* \<sigma>0 \<sigma>" "\<forall>v. v_xact_id (seen v) = v_xact_id v"
  shows "\<exists>m. run_serially seen (sp_map \<sigma>0) (committed_order \<sigma>) = Some m \<and>
           (quiet \<sigma> \<longrightarrow> (\<forall>k. sp_map \<sigma> k = m k \<or> m k = None \<and> (\<exists>v. sp_map \<sigma> k = Some v \<and> NRAMValueIsPrivate v)))"
proof -
  let ?m0 = "sp_map \<sigma>0" and ?C = "sp_done \<sigma>" and ?H = "sp_order \<sigma>"
  have inv: "spec_inv seen ?m0 (sp_used \<sigma>0) \<sigma>" by (rule spec_inv_reachable [OF assms])
  have "sp_map \<sigma> k = contents_after seen ?m0 ?C ?H k \<or>
      contents_after seen ?m0 ?C ?H k = None \<and> (\<exists>v. sp_map \<sigma> k = Some v \<and> NRAMValueIsPrivate v)" if "quiet \<sigma>" for k
  proof -
    have "\<not> claims (sp_view \<sigma> p) k y" for p y using that by (cases "sp_view \<sigma> p") (auto simp: quiet_def)
    then have "installed \<sigma> k = writers ?C ?H k" by (simp add: settled_def)
    moreover have "stored_ok seen ?m0 k (sp_map \<sigma> k) (installed \<sigma> k)" using inv unfolding spec_inv_def map_ok_def by blast
    ultimately show ?thesis by (auto simp: stored_ok_def contents_after_def split: list.splits)
  qed
  then show ?thesis
    using serial_prefix [OF inv assms(3), of ?H "[]"] by (simp add: committed_order_def)
qed

end
