(* ===== verification/NR_Commit.thy ===== *)
theory NR_Commit
  imports NR_Serial
begin

text \<open>
  Concurrent commits: the commit protocol of \<^verbatim>\<open>nram_xact_callback\<close> (\<^verbatim>\<open>nram_xact/xact.c\<close>) in many
  backends at once, against one lock table and one storage.

  Each backend is in a phase of its transaction. A step is one call of a backend that other
  backends can observe: a storage call, or a call of the lock manager, with the functions of
  the transaction and lock theories. Any interleaving of the steps is a run.

  The order of the lock points and the set of validated transactions are history variables:
  no step depends on them.
\<close>

section \<open>Granted locks are not lost\<close>

definition keeps_locks :: "(locktag \<times> nat \<times> u32 \<Rightarrow> bool) \<Rightarrow> lock_table \<Rightarrow> lock_table \<Rightarrow> bool" where
  "keeps_locks P lt lt' = (\<forall>g. P g \<longrightarrow> count_list (lt_granted lt) g \<le> count_list (lt_granted lt') g)"

lemma keeps_locks_refl [simp]: "keeps_locks P lt lt"
  by (simp add: keeps_locks_def)

lemma keeps_locks_trans: "keeps_locks P lt lt1 \<Longrightarrow> keeps_locks P lt1 lt2 \<Longrightarrow> keeps_locks P lt lt2"
  unfolding keeps_locks_def by (meson le_trans)

lemma keeps_locks_weaken: "keeps_locks P lt lt' \<Longrightarrow> (\<And>g. Q g \<Longrightarrow> P g) \<Longrightarrow> keeps_locks Q lt lt'"
  by (simp add: keeps_locks_def)

lemma holds_count: "holds lt t m p \<longleftrightarrow> 0 < count_list (lt_granted lt) (t, m, p)"
  using count_list_0_iff [of "lt_granted lt" "(t, m, p)"] unfolding holds_def by (metis neq0_conv)

lemma keeps_locks_holds:
  assumes "keeps_locks P lt lt'" "P (t, m, p)" "holds lt t m p"
  shows "holds lt' t m p"
proof -
  have "count_list (lt_granted lt) (t, m, p) \<le> count_list (lt_granted lt') (t, m, p)"
    using assms(1,2) unfolding keeps_locks_def by blast
  with assms(3) show ?thesis unfolding holds_count by linarith
qed

lemma keeps_GrantLock: "keeps_locks P lt (GrantLock tag m pid lt)"
  by (simp add: keeps_locks_def GrantLock_def)

lemma keeps_wakeup_scan: "wakeup_scan lt tag ahead ws = (q, lt') \<Longrightarrow> keeps_locks P lt lt'"
proof (induction lt tag ahead ws arbitrary: q rule: wakeup_scan.induct)
  case (2 lt tag ahead w ws)
  then show ?case
    by (auto split: if_splits prod.splits intro: keeps_locks_trans [OF keeps_GrantLock])
qed simp

lemma keeps_waiters [simp]: "keeps_locks P lt (lt'\<lparr>lt_waiters := q\<rparr>) = keeps_locks P lt lt'"
  by (simp add: keeps_locks_def)

lemma keeps_ProcLockWakeup: "keeps_locks P lt (ProcLockWakeup tag lt)"
proof -
  obtain q lt' where scan: "wakeup_scan lt tag 0 (lt_waiters lt tag) = (q, lt')" by force
  from keeps_wakeup_scan [OF scan] show ?thesis by (simp add: ProcLockWakeup_def scan)
qed

lemma keeps_CleanUpLock: "keeps_locks P lt (CleanUpLock tag b lt)"
  by (simp add: CleanUpLock_def keeps_ProcLockWakeup)

lemma keeps_nDep: "keeps_locks P (lt\<lparr>nDep := f\<rparr>) lt' = keeps_locks P lt lt'"
  by (simp add: keeps_locks_def)

lemma keeps_ProcSleep:
  assumes "ProcSleep pid rank tag m lt = (r, lt')"
  shows "keeps_locks P lt lt'"
proof -
  obtain d deps where scan: "queue_scan (\<lambda>m. LockCheckConflicts m lt tag pid) m (holdMask lt tag pid) rank 0 0 (lt_waiters lt tag) = (d, deps)"
    by force
  let ?lt1 = "lt\<lparr>nDep := fold (\<lambda>p f. f(p := f p + 1)) deps (nDep lt)\<rparr>"
  have "keeps_locks P ?lt1 lt'"
    using assms keeps_GrantLock [of P ?lt1] keeps_ProcLockWakeup [of P ?lt1]
    unfolding ProcSleep_def Let_def scan by (cases d) (auto simp: keeps_locks_def)
  then show ?thesis by (simp only: keeps_nDep)
qed

lemma keeps_LockAcquire: "LockAcquire pid rank tag m dontWait lt = (r, lt') \<Longrightarrow> keeps_locks P lt lt'"
  by (erule LockAcquire_cases) (auto intro: keeps_GrantLock keeps_ProcSleep)

lemma count_remove1: "count_list (remove1 x xs) y = count_list xs y - (if x = y then 1 else 0)"
  by (induction xs) auto

lemma count_filter_self: "count_list (filter (\<lambda>g. g \<noteq> x) xs) x = 0"
  by (induction xs) auto

lemma count_filter_other: "y \<noteq> x \<Longrightarrow> count_list (filter (\<lambda>g. g \<noteq> x) xs) y = count_list xs y"
  by (induction xs) auto

text \<open>A release takes one acquisition of the caller and nothing else.\<close>

lemma LockRelease_count:
  assumes "LockRelease pid tag m lt = (r, lt')"
  shows "count_list (lt_granted lt) g - (if g = (tag, m, pid) then 1 else 0) \<le> count_list (lt_granted lt') g"
proof -
  let ?lt1 = "lt\<lparr>lt_granted := remove1 (tag, m, pid) (lt_granted lt)\<rparr>"
  let ?lt2 = "?lt1\<lparr>lt_granted := filter (\<lambda>g. g \<noteq> (tag, m, pid)) (lt_granted ?lt1)\<rparr>"
  have one: "count_list (lt_granted ?lt1) g = count_list (lt_granted lt) g - (if g = (tag, m, pid) then 1 else 0)"
    by (auto simp: count_remove1)
  consider "lt' = lt" | "lt' = ?lt1" | w where "lt' = CleanUpLock tag w ?lt2" "\<not> holds ?lt1 tag m pid"
    using assms by (auto simp: LockRelease_def UnGrantLock_def Let_def split: if_splits)
  then show ?thesis
  proof cases
    case 3
    have "count_list (lt_granted ?lt1) g = count_list (lt_granted ?lt2) g"
    proof (cases "g = (tag, m, pid)")
      case True
      with 3(2) have "count_list (lt_granted ?lt1) g = 0" by (simp only: holds_count not_gr_zero)
      with True show ?thesis by (simp add: count_filter_self)
    next
      case False
      then show ?thesis by (simp add: count_filter_other)
    qed
    also have "\<dots> \<le> count_list (lt_granted lt') g"
      using keeps_CleanUpLock [of "\<lambda>_. True" ?lt2 tag w] unfolding 3(1) keeps_locks_def by blast
    finally show ?thesis unfolding one .
  qed (use one in \<open>simp_all\<close>)
qed

lemma keeps_ungrant_modes: "ungrant_modes tag pid ms (w, lt) = (w', lt') \<Longrightarrow> keeps_locks (\<lambda>(t, m, p). p \<noteq> pid) lt lt'"
proof (induction ms arbitrary: w lt)
  case (Cons i ms)
  let ?lt1 = "lt\<lparr>lt_granted := filter (\<lambda>g. g \<noteq> (tag, i, pid)) (lt_granted lt)\<rparr>"
  have "keeps_locks (\<lambda>(t, m, p). p \<noteq> pid) lt ?lt1" by (auto simp: keeps_locks_def count_filter_other)
  with Cons show ?case by (auto simp: UnGrantLock_def split: if_splits intro: keeps_locks_trans)
qed simp

lemma keeps_release_tag: "keeps_locks (\<lambda>(t, m, p). p \<noteq> pid) lt (release_tag pid tag lt)"
proof -
  obtain w lt' where un: "ungrant_modes tag pid [1..<9] (False, lt) = (w, lt')" by force
  show ?thesis
    unfolding release_tag_def un using keeps_locks_trans [OF keeps_ungrant_modes [OF un] keeps_CleanUpLock] by simp
qed

lemma keeps_LockReleaseAll: "keeps_locks (\<lambda>(t, m, p). p \<noteq> pid) lt (LockReleaseAll user pid lt)"
proof -
  have "keeps_locks (\<lambda>(t, m, p). p \<noteq> pid) lt (fold (release_tag pid) tags lt)" for tags
    by (induction tags arbitrary: lt) (auto intro: keeps_locks_trans [OF keeps_release_tag])
  then show ?thesis by (simp add: LockReleaseAll_def)
qed

lemma keeps_LockErrorCleanup: "keeps_locks P lt (LockErrorCleanup pid awaited lt)"
proof (cases awaited)
  case (Some tag)
  have "keeps_locks P (lt\<lparr>lt_waiters := q\<rparr>) (CleanUpLock tag True (lt\<lparr>lt_waiters := q\<rparr>))" for q by (rule keeps_CleanUpLock)
  then show ?thesis using Some by (simp add: LockErrorCleanup_def RemoveFromWaitQueue_def keeps_locks_def)
qed (simp add: LockErrorCleanup_def)

lemma keeps_ProcReleaseLocks: "keeps_locks (\<lambda>(t, m, p). p \<noteq> pid) lt (ProcReleaseLocks pid awaited lt)"
  unfolding ProcReleaseLocks_def
  by (intro keeps_locks_trans [OF keeps_LockErrorCleanup keeps_locks_trans [OF keeps_LockReleaseAll keeps_LockReleaseAll]])

lemma ProcReleaseLocks_ok: "lock_ok lt \<Longrightarrow> lock_ok (ProcReleaseLocks pid awaited lt)"
  unfolding ProcReleaseLocks_def LockErrorCleanup_def
  by (intro LockReleaseAll_ok) (auto split: option.split intro: RemoveFromWaitQueue_ok)

text \<open>A granted request counts.\<close>

lemma ProcSleep_granted:
  assumes "ProcSleep pid rank tag m lt = (Inr u, lt')"
  shows "count_list (lt_granted lt') (tag, m, pid) = Suc (count_list (lt_granted lt) (tag, m, pid))"
proof -
  obtain d deps where scan: "queue_scan (\<lambda>m. LockCheckConflicts m lt tag pid) m (holdMask lt tag pid) rank 0 0 (lt_waiters lt tag) = (d, deps)"
    by force
  show ?thesis using assms unfolding ProcSleep_def Let_def scan by (cases d) (auto simp: GrantLock_def)
qed

lemma LockAcquire_granted:
  assumes "LockAcquire pid rank tag m dontWait lt = (Inr r, lt')" "r \<noteq> LOCKACQUIRE_NOT_AVAIL"
  shows "count_list (lt_granted lt') (tag, m, pid) = Suc (count_list (lt_granted lt) (tag, m, pid))"
proof -
  obtain s lt1 where s: "ProcSleep pid rank tag m lt = (s, lt1)" by force
  consider "lt' = GrantLock tag m pid lt" | "s = Inr ()" "lt' = lt1"
    using assms s by (auto simp: LockAcquire_def Let_def split: if_splits sum.splits)
  then show ?thesis
  proof cases
    case 1
    then show ?thesis by (simp add: GrantLock_def)
  next
    case 2
    with s ProcSleep_granted show ?thesis by blast
  qed
qed

section \<open>The machine\<close>

text \<open>
  The phases of a backend in the order of the code: statements run; the write set is locked
  in order, maybe waiting for a lock; the reads are checked one by one, each with the share
  lock of its key; the writes are installed and unlocked one by one. A failed backend waits
  for the end of its transaction.
\<close>

datatype phase =
    Idle
  | Running nram_xact
  | Locking nram_xact "nram_opt list" "nram_opt list"
  | Blocked nram_xact "nram_opt list" nram_opt "nram_opt list"
  | Validating nram_xact "nram_opt list"
  | Checking nram_xact nram_opt LockAcquireResult "nram_opt list"
  | Releasing nram_xact nram_opt LockAcquireResult "nram_opt list"
  | Installing nram_xact "nram_opt list"
  | Unlocking nram_xact nram_opt "nram_opt list"
  | Failing nram_xact

record 's commit_sys =
  sys_phase :: "u32 \<Rightarrow> phase"
  sys_locks :: lock_table
  sys_store :: 's
  sys_xids :: "u32 set"
  sys_order :: "nram_xact list"
  sys_valid :: "u32 set"

abbreviation goto :: "'s commit_sys \<Rightarrow> u32 \<Rightarrow> phase \<Rightarrow> 's commit_sys" where
  "goto \<sigma> pid ph \<equiv> \<sigma>\<lparr>sys_phase := (sys_phase \<sigma>)(pid := ph)\<rparr>"

text \<open>The lock a backend waits for when its transaction ends.\<close>

fun awaited :: "phase \<Rightarrow> locktag option" where
  "awaited (Blocked x locked opt todo) = Some (validation_tag (opt_key opt))"
| "awaited _ = None"

fun abortable :: "phase \<Rightarrow> bool" where
  "abortable Idle = False"
| "abortable (Installing x todo) = False"
| "abortable (Unlocking x opt todo) = False"
| "abortable _ = True"

text \<open>
  A running transaction reads rows with \<^verbatim>\<open>RocksClientGet\<close> and records those it shows, writes
  to its write set, inserts private rows with new identifiers (\<open>stored\<close> is what the storage
  has), and takes locks of its own on relations and tuples. Values fit a message (\<open>fits\<close>).
\<close>

inductive commit_step ::
  "'s kv_client \<Rightarrow> ('s \<Rightarrow> nram_key \<Rightarrow> nram_value option) \<Rightarrow> (nram_value \<Rightarrow> bool) \<Rightarrow> 's commit_sys \<Rightarrow> 's commit_sys \<Rightarrow> bool"
  for io stored fits where
  begin_xact: "commit_step io stored fits \<sigma> (goto \<sigma> pid (Running x)\<lparr>sys_xids := insert xid (sys_xids \<sigma>)\<rparr>)"
    if "sys_phase \<sigma> pid = Idle" "xid \<notin> sys_xids \<sigma>" "NewNRAMXactState xid = Some x"
| get_row: "commit_step io stored fits \<sigma> (\<sigma>\<lparr>sys_store := s'\<rparr>)"
    if "sys_phase \<sigma> pid = Running x" "cl_get io pid k (sys_store \<sigma>) = (Inr r, s')"
| read_row: "commit_step io stored fits \<sigma> (goto \<sigma> pid (Running x')\<lparr>sys_store := s'\<rparr>)"
    if "sys_phase \<sigma> pid = Running x" "find_write_set x k = None" "cl_get io pid k (sys_store \<sigma>) = (Inr (Some v), s')"
      "v_xact_id v = xact_id x \<or> \<not> NRAMValueIsPrivate v" "add_read_set x k v = Inr x'"
| write_row: "commit_step io stored fits \<sigma> (goto \<sigma> pid (Running x'))"
    if "sys_phase \<sigma> pid = Running x" "v_xact_id v = xact_id x" "\<not> NRAMValueIsPrivate v" "fits v" "add_write_set x k v = Inr x'"
| insert_row: "commit_step io stored fits \<sigma> (goto \<sigma> pid (Running x')\<lparr>sys_store := s'\<rparr>)"
    if "sys_phase \<sigma> pid = Running x" "v_xact_id v = xact_id x" "\<not> NRAMValueIsPrivate v" "fits v"
      "fits (v\<lparr>v_flags := v_flags v OR NRAMF_PRIVATE\<rparr>)" "stored (sys_store \<sigma>) k = None"
      "cl_put io pid k (v\<lparr>v_flags := v_flags v OR NRAMF_PRIVATE\<rparr>) (sys_store \<sigma>) = (Inr True, s')" "add_write_set x k v = Inr x'"
| table_lock: "commit_step io stored fits \<sigma> (\<sigma>\<lparr>sys_locks := lt'\<rparr>)"
    if "sys_phase \<sigma> pid = Running x" "\<not> is_user_lock tag" "LockAcquire pid rank tag m dontWait (sys_locks \<sigma>) = (r, lt')"
| start_commit: "commit_step io stored fits \<sigma> (goto \<sigma> pid (Locking (x\<lparr>write_set := list_sort (write_set x)\<rparr>) [] (list_sort (write_set x))))"
    if "sys_phase \<sigma> pid = Running x"
| lock_write: "commit_step io stored fits \<sigma> (goto \<sigma> pid (Locking x (locked @ [opt]) todo)\<lparr>sys_locks := lt'\<rparr>)"
    if "sys_phase \<sigma> pid = Locking x locked (opt # todo)"
      "nram_validation_lock pid rank (opt_key opt) ExclusiveLock (tmo, sys_locks \<sigma>) = (Inr (), tmo', lt')"
| lock_waits: "commit_step io stored fits \<sigma> (goto \<sigma> pid (Blocked x locked opt todo)\<lparr>sys_locks := lt'\<rparr>)"
    if "sys_phase \<sigma> pid = Locking x locked (opt # todo)"
      "nram_validation_lock pid rank (opt_key opt) ExclusiveLock (tmo, sys_locks \<sigma>) = (Inl Would_block, tmo', lt')"
| lock_granted: "commit_step io stored fits \<sigma> (goto \<sigma> pid (Locking x (locked @ [opt]) todo))"
    if "sys_phase \<sigma> pid = Blocked x locked opt todo" "pid \<notin> w_pid ` set (lt_waiters (sys_locks \<sigma>) (validation_tag (opt_key opt)))"
      "holds (sys_locks \<sigma>) (validation_tag (opt_key opt)) ExclusiveLock pid"
| lock_fails: "commit_step io stored fits \<sigma> (goto \<sigma> pid (Failing x)\<lparr>sys_locks := lt'\<rparr>)"
    if "sys_phase \<sigma> pid = Locking x locked (opt # todo)" "e \<noteq> Would_block"
      "nram_validation_lock pid rank (opt_key opt) ExclusiveLock (tmo, sys_locks \<sigma>) = (Inl e, tmo', lt')"
| lock_point: "commit_step io stored fits \<sigma> (goto \<sigma> pid (Validating x (read_set x))\<lparr>sys_order := sys_order \<sigma> @ [x]\<rparr>)"
    if "sys_phase \<sigma> pid = Locking x locked []"
| try_read: "commit_step io stored fits \<sigma> (goto \<sigma> pid (Checking x opt r todo)\<lparr>sys_locks := lt'\<rparr>)"
    if "sys_phase \<sigma> pid = Validating x (opt # todo)" "r \<noteq> LOCKACQUIRE_NOT_AVAIL"
      "nram_try_validation_lock pid rank (opt_key opt) ShareLock (sys_locks \<sigma>) = (Inr r, lt')"
| try_fails: "commit_step io stored fits \<sigma> (goto \<sigma> pid (Failing x)\<lparr>sys_locks := lt'\<rparr>)"
    if "sys_phase \<sigma> pid = Validating x (opt # todo)"
      "nram_try_validation_lock pid rank (opt_key opt) ShareLock (sys_locks \<sigma>) = (Inr LOCKACQUIRE_NOT_AVAIL, lt')"
| check_current: "commit_step io stored fits \<sigma> (goto \<sigma> pid (Releasing x opt r todo)\<lparr>sys_store := s'\<rparr>)"
    if "sys_phase \<sigma> pid = Checking x opt r todo" "cl_get io pid (opt_key opt) (sys_store \<sigma>) = (Inr (Some v), s')"
      "v_xact_id v = opt_xact_id opt"
| check_fails: "commit_step io stored fits \<sigma> (goto \<sigma> pid (Failing x)\<lparr>sys_store := s'\<rparr>)"
    if "sys_phase \<sigma> pid = Checking x opt r todo" "cl_get io pid (opt_key opt) (sys_store \<sigma>) = (Inr cur, s')"
      "\<forall>v. cur = Some v \<longrightarrow> v_xact_id v \<noteq> opt_xact_id opt"
| release_read: "commit_step io stored fits \<sigma> (goto \<sigma> pid (Validating x todo)\<lparr>sys_locks := lt'\<rparr>)"
    if "sys_phase \<sigma> pid = Releasing x opt r todo"
      "lt' = (if r = LOCKACQUIRE_OK then snd (nram_validation_release pid (opt_key opt) ShareLock (sys_locks \<sigma>)) else sys_locks \<sigma>)"
| reads_valid: "commit_step io stored fits \<sigma> (goto \<sigma> pid (Installing x (write_set x))\<lparr>sys_valid := insert (xact_id x) (sys_valid \<sigma>)\<rparr>)"
    if "sys_phase \<sigma> pid = Validating x []"
| install_write: "commit_step io stored fits \<sigma> (goto \<sigma> pid (Unlocking x opt todo)\<lparr>sys_store := s'\<rparr>)"
    if "sys_phase \<sigma> pid = Installing x (opt # todo)" "cl_put io pid (opt_key opt) (opt_value opt) (sys_store \<sigma>) = (Inr r, s')"
| unlock_write: "commit_step io stored fits \<sigma> (goto \<sigma> pid (Installing x todo)\<lparr>sys_locks := lt'\<rparr>)"
    if "sys_phase \<sigma> pid = Unlocking x opt todo" "lt' = snd (nram_validation_release pid (opt_key opt) ExclusiveLock (sys_locks \<sigma>))"
| end_commit: "commit_step io stored fits \<sigma> (goto \<sigma> pid Idle\<lparr>sys_locks := ProcReleaseLocks pid None (sys_locks \<sigma>)\<rparr>)"
    if "sys_phase \<sigma> pid = Installing x []"
| abort_xact: "commit_step io stored fits \<sigma> (goto \<sigma> pid Idle\<lparr>sys_locks := ProcReleaseLocks pid (awaited (sys_phase \<sigma> pid)) (sys_locks \<sigma>)\<rparr>)"
    if "abortable (sys_phase \<sigma> pid)"

definition commit_start :: "'s commit_sys \<Rightarrow> bool" where
  "commit_start \<sigma> = ((\<forall>pid. sys_phase \<sigma> pid = Idle) \<and> sys_locks \<sigma> = no_locks \<and> sys_order \<sigma> = [] \<and> sys_valid \<sigma> = {})"

section \<open>The locks of a backend\<close>

text \<open>
  The writes a backend has locked. Two keys can have the same lock, so the locks are counted:
  a backend has each of them as often as it has writes with this lock.
\<close>

fun held :: "phase \<Rightarrow> nram_opt list" where
  "held (Locking x locked todo) = locked"
| "held (Blocked x locked opt todo) = locked"
| "held (Validating x todo) = write_set x"
| "held (Checking x opt r todo) = write_set x"
| "held (Releasing x opt r todo) = write_set x"
| "held (Installing x todo) = todo"
| "held (Unlocking x opt todo) = opt # todo"
| "held _ = []"

definition tag_count :: "locktag \<Rightarrow> nram_opt list \<Rightarrow> nat" where
  "tag_count t opts = length (filter (\<lambda>opt. validation_tag (opt_key opt) = t) opts)"

fun phase_locks :: "u32 \<Rightarrow> phase \<Rightarrow> lock_table \<Rightarrow> bool" where
  "phase_locks p (Locking x locked todo) lt = (write_set x = locked @ todo)"
| "phase_locks p (Blocked x locked opt todo) lt =
     (write_set x = locked @ opt # todo \<and> tag_count (validation_tag (opt_key opt)) locked = 0)"
| "phase_locks p (Checking x opt r todo) lt = holds lt (validation_tag (opt_key opt)) ShareLock p"
| "phase_locks p _ lt = True"

definition lock_inv :: "'s commit_sys \<Rightarrow> bool" where
  "lock_inv \<sigma> \<longleftrightarrow>
     lock_ok (sys_locks \<sigma>) \<and>
     (\<forall>p t. tag_count t (held (sys_phase \<sigma> p)) \<le> count_list (lt_granted (sys_locks \<sigma>)) (t, ExclusiveLock, p)) \<and>
     (\<forall>p. phase_locks p (sys_phase \<sigma> p) (sys_locks \<sigma>))"

lemma lock_invD:
  assumes "lock_inv \<sigma>"
  shows "lock_ok (sys_locks \<sigma>)"
    and "tag_count t (held (sys_phase \<sigma> p)) \<le> count_list (lt_granted (sys_locks \<sigma>)) (t, ExclusiveLock, p)"
    and "phase_locks p (sys_phase \<sigma> p) (sys_locks \<sigma>)"
  using assms by (simp_all add: lock_inv_def)

lemma phase_locks_keeps:
  assumes "phase_locks p ph lt" "keeps_locks P lt lt'" "\<And>t m. P (t, m, p)"
  shows "phase_locks p ph lt'"
  using assms by (cases ph) (auto intro: keeps_locks_holds)

text \<open>A step of process \<open>p\<close> that keeps the locks of the others only has to account for its own.\<close>

lemma lock_invI:
  assumes "lock_inv \<sigma>" "sys_phase \<sigma>' = (sys_phase \<sigma>)(p := ph)" "lock_ok (sys_locks \<sigma>')"
    and "keeps_locks (\<lambda>(t, m, q). q \<noteq> p) (sys_locks \<sigma>) (sys_locks \<sigma>')"
    and "\<And>t. tag_count t (held ph) \<le> count_list (lt_granted (sys_locks \<sigma>')) (t, ExclusiveLock, p)"
    and "phase_locks p ph (sys_locks \<sigma>')"
  shows "lock_inv \<sigma>'"
proof -
  have "tag_count t (held (sys_phase \<sigma>' q)) \<le> count_list (lt_granted (sys_locks \<sigma>')) (t, ExclusiveLock, q)" for q t
  proof (cases "q = p")
    case False
    then have "count_list (lt_granted (sys_locks \<sigma>)) (t, ExclusiveLock, q) \<le> count_list (lt_granted (sys_locks \<sigma>')) (t, ExclusiveLock, q)"
      using assms(4) unfolding keeps_locks_def by blast
    with lock_invD(2) [OF assms(1), of t q] False show ?thesis by (simp add: assms(2))
  qed (use assms(2,5) in \<open>simp\<close>)
  moreover have "phase_locks q (sys_phase \<sigma>' q) (sys_locks \<sigma>')" for q
  proof (cases "q = p")
    case False
    then have "phase_locks q (sys_phase \<sigma> q) (sys_locks \<sigma>')"
      by (intro phase_locks_keeps [OF lock_invD(3) [OF assms(1)] assms(4)]) auto
    with False show ?thesis by (simp add: assms(2))
  qed (use assms(2,6) in \<open>simp\<close>)
  ultimately show ?thesis using assms(3) unfolding lock_inv_def by blast
qed

text \<open>A step that keeps all locks and the locked writes.\<close>

lemma lock_inv_keeps:
  assumes "lock_inv \<sigma>" "sys_phase \<sigma>' = (sys_phase \<sigma>)(p := ph)" "lock_ok (sys_locks \<sigma>')"
    and "keeps_locks (\<lambda>_. True) (sys_locks \<sigma>) (sys_locks \<sigma>')"
    and "\<And>t. tag_count t (held ph) \<le> tag_count t (held (sys_phase \<sigma> p))" "phase_locks p ph (sys_locks \<sigma>')"
  shows "lock_inv \<sigma>'"
proof (rule lock_invI [OF assms(1-3) _ _ assms(6)])
  show "keeps_locks (\<lambda>(t, m, q). q \<noteq> p) (sys_locks \<sigma>) (sys_locks \<sigma>')" by (rule keeps_locks_weaken [OF assms(4)]) simp
  show "tag_count t (held ph) \<le> count_list (lt_granted (sys_locks \<sigma>')) (t, ExclusiveLock, p)" for t
    using assms(4,5) lock_invD(2) [OF assms(1), of t p] unfolding keeps_locks_def by (meson le_trans)
qed

lemma validation_lock_effect:
  assumes "nram_validation_lock pid rank key m (tmo, lt) = (q, tmo', lt')"
  shows "keeps_locks P lt lt'" "lock_ok lt \<Longrightarrow> lock_ok lt'"
    and "q = Inr () \<Longrightarrow> count_list (lt_granted lt') (validation_tag key, m, pid) = Suc (count_list (lt_granted lt) (validation_tag key, m, pid))"
    and "q = Inl Would_block \<Longrightarrow> m = ExclusiveLock \<Longrightarrow> \<not> holds lt (validation_tag key) m pid"
proof -
  obtain a where acq: "LockAcquire pid rank (validation_tag key) m False lt = (a, lt')"
    using assms by (auto simp: nram_validation_lock_def split: prod.splits sum.splits LockAcquireResult.splits)
  show "keeps_locks P lt lt'" by (rule keeps_LockAcquire [OF acq])
  show "lock_ok lt \<Longrightarrow> lock_ok lt'" by (rule LockAcquire_ok [OF _ acq])
  show "count_list (lt_granted lt') (validation_tag key, m, pid) = Suc (count_list (lt_granted lt) (validation_tag key, m, pid))" if q: "q = Inr ()"
  proof -
    obtain r where "a = Inr r" "r \<noteq> LOCKACQUIRE_NOT_AVAIL"
      using assms acq q by (auto simp: nram_validation_lock_def split: sum.splits LockAcquireResult.splits)
    with acq LockAcquire_granted show ?thesis by blast
  qed
  show "\<not> holds lt (validation_tag key) m pid" if "q = Inl Would_block" "m = ExclusiveLock"
    using assms that by (auto simp: nram_validation_lock_def LockAcquire_def ExclusiveLock_def)
qed

lemma try_lock_effect:
  assumes "nram_try_validation_lock pid rank key m lt = (q, lt')"
  shows "keeps_locks P lt lt'" "lock_ok lt \<Longrightarrow> lock_ok lt'"
    and "q = Inr r \<Longrightarrow> r \<noteq> LOCKACQUIRE_NOT_AVAIL \<Longrightarrow> holds lt' (validation_tag key) m pid"
proof -
  have acq: "LockAcquire pid rank (validation_tag key) m True lt = (q, lt')" using assms by (simp add: nram_try_validation_lock_def)
  show "keeps_locks P lt lt'" by (rule keeps_LockAcquire [OF acq])
  show "lock_ok lt \<Longrightarrow> lock_ok lt'" by (rule LockAcquire_ok [OF _ acq])
  show "q = Inr r \<Longrightarrow> r \<noteq> LOCKACQUIRE_NOT_AVAIL \<Longrightarrow> holds lt' (validation_tag key) m pid"
    using acq LockAcquire_granted [of pid rank "validation_tag key" m True lt r lt'] by (simp add: holds_count)
qed

lemma release_effect:
  assumes "lt' = snd (nram_validation_release pid key m lt)"
  shows "keeps_locks (\<lambda>g. g \<noteq> (validation_tag key, m, pid)) lt lt'" "lock_ok lt \<Longrightarrow> lock_ok lt'"
    and "count_list (lt_granted lt) (validation_tag key, m, pid) - 1 \<le> count_list (lt_granted lt') (validation_tag key, m, pid)"
proof -
  obtain b where rel: "LockRelease pid (validation_tag key) m lt = (b, lt')"
    unfolding assms nram_validation_release_def by (metis surjective_pairing)
  show "keeps_locks (\<lambda>g. g \<noteq> (validation_tag key, m, pid)) lt lt'"
    unfolding keeps_locks_def
  proof (intro allI impI)
    fix g assume "g \<noteq> (validation_tag key, m, pid)"
    then show "count_list (lt_granted lt) g \<le> count_list (lt_granted lt') g" using LockRelease_count [OF rel, of g] by simp
  qed
  show "lock_ok lt \<Longrightarrow> lock_ok lt'" by (rule LockRelease_ok [OF _ rel])
  show "count_list (lt_granted lt) (validation_tag key, m, pid) - 1 \<le> count_list (lt_granted lt') (validation_tag key, m, pid)"
    using LockRelease_count [OF rel, of "(validation_tag key, m, pid)"] by simp
qed

lemma tag_count_simps [simp]:
  "tag_count t [] = 0" "tag_count t (opt # opts) = (if validation_tag (opt_key opt) = t then Suc (tag_count t opts) else tag_count t opts)"
  "tag_count t (xs @ ys) = tag_count t xs + tag_count t ys"
  by (simp_all add: tag_count_def)

text \<open>The end of a transaction.\<close>

lemma lock_inv_end:
  assumes "lock_inv \<sigma>" "sys_phase \<sigma>' = (sys_phase \<sigma>)(p := Idle)" "sys_locks \<sigma>' = ProcReleaseLocks p a (sys_locks \<sigma>)"
  shows "lock_inv \<sigma>'"
  using assms(3) by (intro lock_invI [OF assms(1,2)]) (auto intro: ProcReleaseLocks_ok lock_invD(1) [OF assms(1)] keeps_ProcReleaseLocks)

lemma lock_inv_start: "commit_start \<sigma> \<Longrightarrow> lock_inv \<sigma>"
  by (simp add: commit_start_def lock_inv_def lock_ok_def no_locks_def holds_def tag_count_def)

lemma lock_inv_step:
  assumes "commit_step io stored fits \<sigma> \<sigma>'" "lock_inv \<sigma>"
  shows "lock_inv \<sigma>'"
proof -
  note ok = lock_invD(1) [OF assms(2)] and phase = lock_invD(3) [OF assms(2)] and counts = lock_invD(2) [OF assms(2)]
  note keeps = lock_inv_keeps [OF assms(2)]
  show ?thesis
    using assms(1)
  proof cases
    case (get_row pid x k r s')
    then show ?thesis using assms(2) by (simp add: lock_inv_def)
  next
    case (table_lock pid x tag rank m dontWait r lt')
    have "keeps_locks (\<lambda>_. True) (sys_locks \<sigma>) lt'" by (rule keeps_LockAcquire [OF table_lock(4)])
    moreover have "lock_ok lt'" by (rule LockAcquire_ok [OF ok table_lock(4)])
    ultimately show ?thesis using table_lock(1,2) by (intro keeps [of _ pid "Running x"]) auto
  next
    case (start_commit pid x)
    then show ?thesis using ok by (intro keeps [of _ pid]) auto
  next
    case (lock_write pid x locked opt todo rank tmo tmo' lt')
    note lock = validation_lock_effect [OF lock_write(3)]
    have ws: "write_set x = locked @ opt # todo" using phase [of pid] lock_write(2) by simp
    have "tag_count t (locked @ [opt]) \<le> count_list (lt_granted lt') (t, ExclusiveLock, pid)" for t
      using counts [of t pid] lock(3) lock(1) [of "\<lambda>_. True"] lock_write(2)
      by (cases "validation_tag (opt_key opt) = t") (auto simp: keeps_locks_def intro: le_trans)
    with ws show ?thesis
      using lock_write lock(1,2) ok by (intro lock_invI [OF assms(2), of _ pid]) auto
  next
    case (lock_waits pid x locked opt todo rank tmo tmo' lt')
    note lock = validation_lock_effect [OF lock_waits(3)]
    have "count_list (lt_granted (sys_locks \<sigma>)) (validation_tag (opt_key opt), ExclusiveLock, pid) = 0"
      using lock(4) unfolding holds_count by simp
    then have "tag_count (validation_tag (opt_key opt)) locked = 0"
      using counts [of "validation_tag (opt_key opt)" pid] lock_waits(2) by simp
    then show ?thesis using lock_waits lock(1,2) ok phase [of pid] by (intro keeps [of _ pid]) auto
  next
    case (lock_granted pid x locked opt todo)
    have "tag_count t (locked @ [opt]) \<le> count_list (lt_granted (sys_locks \<sigma>)) (t, ExclusiveLock, pid)" for t
      using counts [of t pid] phase [of pid] lock_granted(2,4) unfolding holds_count by (cases "validation_tag (opt_key opt) = t") auto
    then show ?thesis using lock_granted(1,2) ok phase [of pid] by (intro lock_invI [OF assms(2), of _ pid]) auto
  next
    case (unlock_write pid x opt todo lt')
    note rel = release_effect [OF unlock_write(3)]
    have "tag_count t todo \<le> count_list (lt_granted lt') (t, ExclusiveLock, pid)" for t
    proof (cases "validation_tag (opt_key opt) = t")
      case True
      then show ?thesis using counts [of t pid] rel(3) unlock_write(2) by simp
    next
      case False
      then have "count_list (lt_granted (sys_locks \<sigma>)) (t, ExclusiveLock, pid) \<le> count_list (lt_granted lt') (t, ExclusiveLock, pid)"
        using rel(1) unfolding keeps_locks_def by auto
      then show ?thesis using counts [of t pid] False unlock_write(2) by simp
    qed
    moreover have "keeps_locks (\<lambda>(t, m, q). q \<noteq> pid) (sys_locks \<sigma>) lt'" by (rule keeps_locks_weaken [OF rel(1)]) auto
    ultimately show ?thesis using unlock_write rel(2) ok by (intro lock_invI [OF assms(2), of _ pid]) auto
  next
    case (release_read pid x opt r todo lt')
    have rel: "keeps_locks (\<lambda>g. g \<noteq> (validation_tag (opt_key opt), ShareLock, pid)) (sys_locks \<sigma>) lt'" "lock_ok lt'"
      using release_effect [of lt' pid "opt_key opt" ShareLock "sys_locks \<sigma>"] ok release_read(3)
      by (cases "r = LOCKACQUIRE_OK"; simp)+
    have "tag_count t (write_set x) \<le> count_list (lt_granted lt') (t, ExclusiveLock, pid)" for t
    proof -
      have "count_list (lt_granted (sys_locks \<sigma>)) (t, ExclusiveLock, pid) \<le> count_list (lt_granted lt') (t, ExclusiveLock, pid)"
        using rel(1) unfolding keeps_locks_def by (auto simp: ShareLock_def ExclusiveLock_def)
      then show ?thesis using counts [of t pid] release_read(2) by simp
    qed
    moreover have "keeps_locks (\<lambda>(t, m, q). q \<noteq> pid) (sys_locks \<sigma>) lt'" by (rule keeps_locks_weaken [OF rel(1)]) auto
    ultimately show ?thesis using release_read(1,2) rel(2) by (intro lock_invI [OF assms(2), of _ pid]) auto
  next
    case (end_commit pid x)
    then show ?thesis by (intro lock_inv_end [OF assms(2)]) auto
  next
    case (abort_xact pid)
    then show ?thesis by (intro lock_inv_end [OF assms(2)]) auto
  next
    case (try_read pid x opt r todo rank lt')
    note lock = try_lock_effect [OF try_read(4)]
    show ?thesis using try_read ok lock by (intro keeps [of _ pid]) auto
  next
    case (try_fails pid x opt todo rank lt')
    then show ?thesis using ok try_lock_effect [OF try_fails(3)] by (intro keeps [of _ pid]) auto
  next
    case (lock_fails pid x locked opt todo e rank tmo tmo' lt')
    then show ?thesis using ok validation_lock_effect [OF lock_fails(4)] by (intro keeps [of _ pid]) auto
  next
    case (begin_xact pid xid x)
    then show ?thesis using ok by (intro keeps [of _ pid]) auto
  next
    case (read_row pid x k v s' x')
    then show ?thesis using ok by (intro keeps [of _ pid]) auto
  next
    case (write_row pid x v k x')
    then show ?thesis using ok by (intro keeps [of _ pid]) auto
  next
    case (insert_row pid x v k s' x')
    then show ?thesis using ok by (intro keeps [of _ pid]) auto
  next
    case (lock_point pid x locked)
    then show ?thesis using ok phase [of pid] by (intro keeps [of _ pid]) auto
  next
    case (check_current pid x opt r todo v s')
    then show ?thesis using ok by (intro keeps [of _ pid]) auto
  next
    case (check_fails pid x opt r todo cur s')
    then show ?thesis using ok by (intro keeps [of _ pid]) auto
  next
    case (reads_valid pid x)
    then show ?thesis using ok by (intro keeps [of _ pid]) auto
  next
    case (install_write pid x opt todo r s')
    then show ?thesis using ok by (intro keeps [of _ pid]) auto
  qed
qed

section \<open>Refinement of the abstract machine\<close>

fun view_of :: "phase \<Rightarrow> view" where
  "view_of (Running x) = Pre x"
| "view_of (Locking x locked todo) = Pre x"
| "view_of (Blocked x locked opt todo) = Pre x"
| "view_of (Validating x todo) = Und x todo"
| "view_of (Checking x opt r todo) = Und x (opt # todo)"
| "view_of (Releasing x opt r todo) = Und x todo"
| "view_of (Installing x todo) = Inst x todo"
| "view_of (Unlocking x opt todo) = Inst x todo"
| "view_of _ = Out"

definition abs_sys :: "('s \<Rightarrow> nram_key \<Rightarrow> nram_value option) \<Rightarrow> 's commit_sys \<Rightarrow> spec_state" where
  "abs_sys stored \<sigma> =
     \<lparr>sp_view = (\<lambda>p. view_of (sys_phase \<sigma> p)), sp_order = sys_order \<sigma>, sp_done = sys_valid \<sigma>,
      sp_map = stored (sys_store \<sigma>), sp_used = sys_xids \<sigma>\<rparr>"

lemma abs_sys_simps [simp]:
  "sp_view (abs_sys stored \<sigma>) p = view_of (sys_phase \<sigma> p)" "sp_order (abs_sys stored \<sigma>) = sys_order \<sigma>"
  "sp_done (abs_sys stored \<sigma>) = sys_valid \<sigma>" "sp_map (abs_sys stored \<sigma>) = stored (sys_store \<sigma>)"
  "sp_used (abs_sys stored \<sigma>) = sys_xids \<sigma>"
  by (simp_all add: abs_sys_def)

text \<open>A write that is claimed is locked.\<close>

lemma held_locked:
  assumes "lock_inv \<sigma>" "opt \<in> set (held (sys_phase \<sigma> p))"
  shows "holds (sys_locks \<sigma>) (validation_tag (opt_key opt)) ExclusiveLock p"
proof -
  have "0 < tag_count (validation_tag (opt_key opt)) (held (sys_phase \<sigma> p))"
    using assms(2) by (auto simp: tag_count_def filter_empty_conv)
  with lock_invD(2) [OF assms(1), of "validation_tag (opt_key opt)" p] show ?thesis unfolding holds_count by linarith
qed

lemma claimed_locked:
  assumes "lock_inv \<sigma>" "claims (view_of (sys_phase \<sigma> p)) k y"
  shows "holds (sys_locks \<sigma>) (validation_tag k) ExclusiveLock p"
proof -
  have "\<exists>opt \<in> set (held (sys_phase \<sigma> p)). opt_key opt = k"
    using assms(2) by (cases "sys_phase \<sigma> p") (auto simp: writes_iff)
  with held_locked [OF assms(1)] show ?thesis by blast
qed

lemma exclusive_holder:
  assumes "lock_ok lt" "holds lt t ExclusiveLock p" "holds lt t m q" "m = ExclusiveLock \<or> m = ShareLock"
  shows "p = q"
proof -
  have "conflicting ExclusiveLock m" using assms(4) by (auto simp: mode_defs conflicting_table)
  with assms(1-3) show ?thesis unfolding lock_ok_def by blast
qed

text \<open>
  What the machine needs of the storage beyond the contract of transactions: a get that
  returns shows the stored value, and values that fit can be copied and keep their flags.
\<close>

locale commit_store = kv_store +
  assumes get_exact: "good s \<Longrightarrow> cl_get io pid k s = (Inr r, s') \<Longrightarrow> r = contents s k \<and> good s' \<and> contents s' = contents s"
    and seen_flags: "v_flags (seen v) = v_flags v"
    and copy_fits: "fits v \<Longrightarrow> copy_nram_value v = Inr v"

text \<open>The write sets of all transactions fit.\<close>

definition fits_inv :: "(nram_value \<Rightarrow> bool) \<Rightarrow> 's commit_sys \<Rightarrow> bool" where
  "fits_inv fits \<sigma> = (\<forall>p x. view_xact (view_of (sys_phase \<sigma> p)) = Some x \<longrightarrow> (\<forall>opt \<in> set (write_set x). fits (opt_value opt)))"

lemma add_write_set_values:
  assumes "add_write_set x k v = Inr x'" "copy_nram_value v = Inr v" "opt \<in> set (write_set x')"
  shows "opt_value opt = v \<or> (\<exists>o' \<in> set (write_set x). opt_value opt = opt_value o')"
proof -
  have "opt_value o1 = v \<or> (\<exists>o' \<in> set opts. opt_value o1 = opt_value o')" if "o1 \<in> set (replace_value opts k v)" for o1 opts
    using that by (induction opts) (auto split: if_splits)
  note replaced = this [of opt "write_set x"]
  show ?thesis using assms replaced by (auto simp: add_write_set_def split: option.splits)
qed

lemma add_write_set_own:
  assumes "add_write_set x k v = Inr x'" "copy_nram_value v = Inr v" "own_writes x" "v_xact_id v = xact_id x" "\<not> NRAMValueIsPrivate v"
  shows "own_writes x'" "xact_id x' = xact_id x" "read_set x' = read_set x" "writes x' k" "writes x j \<Longrightarrow> writes x' j"
proof -
  obtain x'' where ok: "add_write_set x k v = Inr x''" "distinct (map opt_key (write_set x''))"
      "read_own_write x'' k = Inr (Some v)" "\<forall>j. j \<noteq> k \<longrightarrow> find_write_set x'' j = find_write_set x j" "read_set x'' = read_set x"
    using add_write_set_ok [OF _ assms(2), of x k] assms(3) unfolding own_writes_def by blast
  with assms(1) have eq: "x'' = x'" by simp
  show id: "xact_id x' = xact_id x" using assms(1,2) by (auto simp: add_write_set_def split: option.splits)
  show "read_set x' = read_set x" using ok(5) eq by simp
  show k: "writes x' k" using ok(3) eq by (auto simp: read_own_write_def writes_def split: option.splits)
  show "writes x j \<Longrightarrow> writes x' j" using ok(4) eq k by (cases "j = k") (auto simp: writes_def)
  have "v_xact_id (opt_value opt) = xact_id x \<and> \<not> NRAMValueIsPrivate (opt_value opt)" if "opt \<in> set (write_set x')" for opt
    using add_write_set_values [OF assms(1,2) that] assms(3-5) by (auto simp: own_writes_def)
  with ok(2) eq id show "own_writes x'" by (simp add: own_writes_def)
qed

lemma fits_invI:
  assumes "fits_inv fits \<sigma>" "sys_phase \<sigma>' = (sys_phase \<sigma>)(p := ph)"
    and "\<And>x opt. view_xact (view_of ph) = Some x \<Longrightarrow> opt \<in> set (write_set x) \<Longrightarrow> fits (opt_value opt)"
  shows "fits_inv fits \<sigma>'"
  using assms unfolding fits_inv_def by (simp add: fun_upd_apply)

lemma fits_invD:
  assumes "fits_inv fits \<sigma>" "view_xact (view_of (sys_phase \<sigma> p)) = Some x" "opt \<in> set (write_set x)"
  shows "fits (opt_value opt)"
  using assms unfolding fits_inv_def by blast

lemma fits_inv_keep:
  assumes "fits_inv fits \<sigma>" "sys_phase \<sigma>' = (sys_phase \<sigma>)(p := ph)"
    and "view_xact (view_of ph) = None \<or> view_xact (view_of ph) = view_xact (view_of (sys_phase \<sigma> p))"
  shows "fits_inv fits \<sigma>'"
  by (rule fits_invI [OF assms(1,2)]) (metis assms(3) fits_invD [OF assms(1)] option.distinct(1))

lemma abs_goto:
  assumes "sys_phase \<sigma>' = (sys_phase \<sigma>)(p := ph)"
  shows "abs_sys stored \<sigma>' =
     (abs_sys stored \<sigma>)\<lparr>sp_view := (sp_view (abs_sys stored \<sigma>))(p := view_of ph), sp_order := sys_order \<sigma>', sp_done := sys_valid \<sigma>',
        sp_map := stored (sys_store \<sigma>'), sp_used := sys_xids \<sigma>'\<rparr>"
  using assms by (simp add: abs_sys_def fun_eq_iff)

text \<open>A step of the code that the abstract machine does not see.\<close>

lemma abs_same:
  assumes "sys_phase \<sigma>' = (sys_phase \<sigma>)(p := ph)" "view_of ph = view_of (sys_phase \<sigma> p)"
    and "sys_order \<sigma>' = sys_order \<sigma>" "sys_valid \<sigma>' = sys_valid \<sigma>" "sys_xids \<sigma>' = sys_xids \<sigma>" "stored (sys_store \<sigma>') = stored (sys_store \<sigma>)"
  shows "abs_sys stored \<sigma>' = abs_sys stored \<sigma>"
  using assms by (simp add: abs_sys_def fun_eq_iff)

lemma own_writes_sort: "own_writes (x\<lparr>write_set := list_sort (write_set x)\<rparr>) = own_writes x"
proof -
  have "distinct (map opt_key (list_sort (write_set x))) = distinct (map opt_key (write_set x))"
    using mset_list_sort [of "write_set x"] by (intro mset_eq_imp_distinct_iff) simp
  then show ?thesis by (simp add: own_writes_def)
qed

context commit_store
begin

abbreviation spec_of where "spec_of \<equiv> abs_sys contents"

text \<open>The guards of the abstract machine come from the locks.\<close>

lemma lock_point_guard:
  assumes "lock_inv \<sigma>" "sys_phase \<sigma> p = Locking x locked []" "q \<noteq> p" "writes x k"
  shows "\<not> claims (sp_view (spec_of \<sigma>) q) k y"
proof
  assume "claims (sp_view (spec_of \<sigma>) q) k y"
  with claimed_locked [OF assms(1), of q k y] have q: "holds (sys_locks \<sigma>) (validation_tag k) ExclusiveLock q" by simp
  from assms(4) obtain opt where opt: "opt \<in> set (write_set x)" "opt_key opt = k" by (auto simp: writes_iff)
  with lock_invD(3) [OF assms(1), of p] assms(2) have "opt \<in> set (held (sys_phase \<sigma> p))" by simp
  from held_locked [OF assms(1) this] opt(2) have "holds (sys_locks \<sigma>) (validation_tag k) ExclusiveLock p" by simp
  with exclusive_holder [OF lock_invD(1) [OF assms(1)] q] assms(3) show False by blast
qed

lemma check_guard:
  assumes "lock_inv \<sigma>" "sys_phase \<sigma> p = Checking x opt r todo" "q \<noteq> p"
  shows "\<not> claims (sp_view (spec_of \<sigma>) q) (opt_key opt) y"
proof
  assume "claims (sp_view (spec_of \<sigma>) q) (opt_key opt) y"
  with claimed_locked [OF assms(1), of q "opt_key opt" y] have q: "holds (sys_locks \<sigma>) (validation_tag (opt_key opt)) ExclusiveLock q" by simp
  have "holds (sys_locks \<sigma>) (validation_tag (opt_key opt)) ShareLock p" using lock_invD(3) [OF assms(1), of p] assms(2) by simp
  with exclusive_holder [OF lock_invD(1) [OF assms(1)] q] assms(3) show False by blast
qed

lemma put_exact:
  assumes "good s" "fits v" "cl_put io pid k v s = (r, s')"
  shows "good s' \<and> contents s' = (contents s)(k \<mapsto> seen v)"
  using put_fits [OF assms(1,2), of pid k] assms(3) by auto

lemma running_own:
  assumes "phases_ok (spec_of \<sigma>)" "view_of (sys_phase \<sigma> p) = Pre x"
  shows "own_writes x"
proof -
  have "view_ok (sp_order (spec_of \<sigma>)) (sp_done (spec_of \<sigma>)) (sp_map (spec_of \<sigma>)) (sp_view (spec_of \<sigma>) p)"
    using assms(1) unfolding phases_ok_def by blast
  with assms(2) show ?thesis by simp
qed

lemma installing_subset:
  assumes "phases_ok (spec_of \<sigma>)" "view_of (sys_phase \<sigma> p) = Inst x todo"
  shows "set todo \<subseteq> set (write_set x)"
proof -
  have "view_ok (sp_order (spec_of \<sigma>)) (sp_done (spec_of \<sigma>)) (sp_map (spec_of \<sigma>)) (sp_view (spec_of \<sigma>) p)"
    using assms(1) unfolding phases_ok_def by blast
  with assms(2) show ?thesis by simp
qed

text \<open>A write of a running transaction.\<close>

lemma write_keeps:
  assumes "sys_phase \<sigma> p = Running x" "phases_ok (spec_of \<sigma>)" "fits_inv fits \<sigma>" "fits v" "v_xact_id v = xact_id x" "\<not> NRAMValueIsPrivate v"
    and "add_write_set x k v = Inr x'" "sys_phase \<sigma>' = (sys_phase \<sigma>)(p := Running x')"
  shows "own_writes x'" "xact_id x' = xact_id x" "read_set x' = read_set x" "writes x' k" "\<forall>j. writes x j \<longrightarrow> writes x' j" "fits_inv fits \<sigma>'"
proof -
  have own: "own_writes x" using running_own [OF assms(2), of p] assms(1) by simp
  note w = add_write_set_own [OF assms(7) copy_fits [OF assms(4)] own assms(5,6)]
  show "own_writes x'" "xact_id x' = xact_id x" "read_set x' = read_set x" "writes x' k" by (rule w)+
  show "\<forall>j. writes x j \<longrightarrow> writes x' j" using w(5) by blast
  show "fits_inv fits \<sigma>'"
  proof (rule fits_invI [OF assms(3,8)])
    fix y opt assume "view_xact (view_of (Running x')) = Some y" "opt \<in> set (write_set y)"
    then have opt: "opt \<in> set (write_set x')" by simp
    show "fits (opt_value opt)"
      using add_write_set_values [OF assms(7) copy_fits [OF assms(4)] opt] assms(4) fits_invD [OF assms(3), of p x] assms(1) by auto
  qed
qed

text \<open>Every step is a step of the abstract machine or invisible there.\<close>

lemma commit_refines:
  assumes "commit_step io contents fits \<sigma> \<sigma>'" "lock_inv \<sigma>" "good (sys_store \<sigma>)" "fits_inv fits \<sigma>" "phases_ok (spec_of \<sigma>)"
  shows "(spec_of \<sigma>' = spec_of \<sigma> \<or> spec_step seen (spec_of \<sigma>) (spec_of \<sigma>')) \<and> good (sys_store \<sigma>') \<and> fits_inv fits \<sigma>'"
proof -
  have quiet_step: ?thesis
    if "sys_phase \<sigma>' = (sys_phase \<sigma>)(p := ph)" "view_of ph = view_of (sys_phase \<sigma> p)" "sys_order \<sigma>' = sys_order \<sigma>"
      "sys_valid \<sigma>' = sys_valid \<sigma>" "sys_xids \<sigma>' = sys_xids \<sigma>" "good (sys_store \<sigma>')" "contents (sys_store \<sigma>') = contents (sys_store \<sigma>)" for p ph
    using abs_same [OF that(1-5,7)] fits_inv_keep [OF assms(4) that(1)] that(2,6) by simp
  have end_step: ?thesis
    if "sys_phase \<sigma>' = (sys_phase \<sigma>)(p := ph)" "view_of ph = Out" "sys_order \<sigma>' = sys_order \<sigma>"
      "sys_valid \<sigma>' = sys_valid \<sigma>" "sys_xids \<sigma>' = sys_xids \<sigma>" "good (sys_store \<sigma>')" "contents (sys_store \<sigma>') = contents (sys_store \<sigma>)"
      "\<forall>x todo. view_of (sys_phase \<sigma> p) = Inst x todo \<longrightarrow> todo = []" for p ph
  proof -
    have "spec_of \<sigma>' = (spec_of \<sigma>)\<lparr>sp_view := (sp_view (spec_of \<sigma>))(p := Out)\<rparr>"
      using abs_goto [OF that(1), of contents] that(2-7) by (simp add: abs_sys_def)
    moreover have "spec_of \<sigma>' = spec_of \<sigma> \<or> spec_step seen (spec_of \<sigma>) ((spec_of \<sigma>)\<lparr>sp_view := (sp_view (spec_of \<sigma>))(p := Out)\<rparr>)"
      using abs_same [OF that(1) _ that(3-5), of contents] that(2,7,8) by (cases "view_of (sys_phase \<sigma> p)") (auto intro: spec_end spec_abort)
    ultimately show ?thesis using fits_inv_keep [OF assms(4) that(1)] that(2,6) by simp
  qed
  show ?thesis
    using assms(1)
  proof cases
    case (begin_xact pid xid x)
    have new: "xact_id x = xid" "read_set x = []" "write_set x = []" using begin_xact(4) by (auto simp: NewNRAMXactState_def split: if_splits)
    have "spec_of \<sigma>' = (spec_of \<sigma>)\<lparr>sp_view := (sp_view (spec_of \<sigma>))(pid := Pre x), sp_used := insert (xact_id x) (sp_used (spec_of \<sigma>))\<rparr>" using begin_xact(1) new(1) by (simp add: abs_sys_def fun_eq_iff)
    moreover have "spec_step seen (spec_of \<sigma>) ((spec_of \<sigma>)\<lparr>sp_view := (sp_view (spec_of \<sigma>))(pid := Pre x), sp_used := insert (xact_id x) (sp_used (spec_of \<sigma>))\<rparr>)"
      using new begin_xact(2,3) by (intro spec_begin) auto
    moreover have "fits_inv fits \<sigma>'" by (rule fits_invI [OF assms(4), of _ pid "Running x"]) (use begin_xact new in auto)
    ultimately show ?thesis using begin_xact assms(3) by simp
  next
    case (get_row pid x k r s')
    then show ?thesis using get_exact [OF assms(3) get_row(3)] assms(4) by (auto simp: abs_sys_def fits_inv_def)
  next
    case (read_row pid x k v s' x')
    have new: "write_set x' = write_set x" "xact_id x' = xact_id x" "read_set x' = read_set x @ [last (read_set x')]"
      "opt_key (last (read_set x')) = k" "opt_xact_id (last (read_set x')) = v_xact_id v"
      using read_row(6) by (auto simp: add_read_set_def ebind_def copy_nram_key_def split: sum.splits)
    have get: "contents (sys_store \<sigma>) k = Some v" "good s'" "contents s' = contents (sys_store \<sigma>)"
      using get_exact [OF assms(3) read_row(4)] by auto
    have "spec_of \<sigma>' = (spec_of \<sigma>)\<lparr>sp_view := (sp_view (spec_of \<sigma>))(pid := Pre x')\<rparr>" using read_row get by (simp add: abs_sys_def fun_eq_iff)
    moreover have "spec_step seen (spec_of \<sigma>) ((spec_of \<sigma>)\<lparr>sp_view := (sp_view (spec_of \<sigma>))(pid := Pre x')\<rparr>)"
      using new get read_row(2,3,5)
      by (intro spec_read [where opt = "last (read_set x')"]) (auto simp: writes_def visible_to_def)
    moreover have "fits_inv fits \<sigma>'" by (rule fits_invI [OF assms(4), of _ pid "Running x'"]) (use read_row(1,2) new(1) fits_invD [OF assms(4), of pid x] in auto)
    ultimately show ?thesis using read_row get by simp
  next
    case (write_row pid x v k x')
    have ph: "sys_phase \<sigma>' = (sys_phase \<sigma>)(pid := Running x')" using write_row(1) by simp
    note w = write_keeps [OF write_row(2) assms(5,4) write_row(5,3,4,6) ph]
    have "spec_of \<sigma>' = (spec_of \<sigma>)\<lparr>sp_view := (sp_view (spec_of \<sigma>))(pid := Pre x')\<rparr>" using write_row by (simp add: abs_sys_def fun_eq_iff)
    moreover have "spec_step seen (spec_of \<sigma>) ((spec_of \<sigma>)\<lparr>sp_view := (sp_view (spec_of \<sigma>))(pid := Pre x')\<rparr>)"
      using w(1-3,5) write_row(2) by (intro spec_write) auto
    moreover have "fits_inv fits \<sigma>'" by (rule w(6))
    ultimately show ?thesis using write_row assms(3) by simp
  next
    case (insert_row pid x v k s' x')
    let ?v = "v\<lparr>v_flags := v_flags v OR NRAMF_PRIVATE\<rparr>"
    have ph: "sys_phase \<sigma>' = (sys_phase \<sigma>)(pid := Running x')" using insert_row(1) by simp
    note w = write_keeps [OF insert_row(2) assms(5,4) insert_row(5,3,4,9) ph]
    have put: "good s'" "contents s' = (contents (sys_store \<sigma>))(k \<mapsto> seen ?v)"
      using put_exact [OF assms(3) insert_row(6,8)] by simp_all
    have priv: "NRAMValueIsPrivate (seen ?v)" by (simp add: NRAMValueIsPrivate_def seen_flags NRAMF_PRIVATE_def)
    have "spec_of \<sigma>' = (spec_of \<sigma>)\<lparr>sp_view := (sp_view (spec_of \<sigma>))(pid := Pre x'), sp_map := (sp_map (spec_of \<sigma>))(k \<mapsto> seen ?v)\<rparr>" using insert_row put by (simp add: abs_sys_def fun_eq_iff)
    moreover have "spec_step seen (spec_of \<sigma>) ((spec_of \<sigma>)\<lparr>sp_view := (sp_view (spec_of \<sigma>))(pid := Pre x'), sp_map := (sp_map (spec_of \<sigma>))(k \<mapsto> seen ?v)\<rparr>)"
      using w(1-5) insert_row(2,3,7) priv
      by (intro spec_insert) (auto simp: seen_version)
    moreover have "fits_inv fits \<sigma>'" by (rule w(6))
    ultimately show ?thesis using insert_row put by simp
  next
    case (table_lock pid x tag rank m dontWait r lt')
    then show ?thesis using assms(3,4) by (auto simp: abs_sys_def fits_inv_def)
  next
    case (start_commit pid x)
    have own: "own_writes x" using running_own [OF assms(5), of pid] start_commit(2) by simp
    have "spec_of \<sigma>' = (spec_of \<sigma>)\<lparr>sp_view := (sp_view (spec_of \<sigma>))(pid := Pre (x\<lparr>write_set := list_sort (write_set x)\<rparr>))\<rparr>" using start_commit by (simp add: abs_sys_def fun_eq_iff)
    moreover have "spec_step seen (spec_of \<sigma>) ((spec_of \<sigma>)\<lparr>sp_view := (sp_view (spec_of \<sigma>))(pid := Pre (x\<lparr>write_set := list_sort (write_set x)\<rparr>))\<rparr>)"
      using own start_commit(2) by (intro spec_write) (auto simp: own_writes_sort writes_iff)
    moreover have "fits_inv fits \<sigma>'" by (rule fits_invI [OF assms(4), of _ pid]) (use start_commit fits_invD [OF assms(4), of pid x] in auto)
    ultimately show ?thesis using start_commit assms(3) by simp
  next
    case (lock_write pid x locked opt todo rank tmo tmo' lt')
    then show ?thesis using assms(3) by (intro quiet_step [of pid]) auto
  next
    case (lock_waits pid x locked opt todo rank tmo tmo' lt')
    then show ?thesis using assms(3) by (intro quiet_step [of pid]) auto
  next
    case (lock_granted pid x locked opt todo)
    then show ?thesis using assms(3) by (intro quiet_step [of pid]) auto
  next
    case (lock_fails pid x locked opt todo e rank tmo tmo' lt')
    then show ?thesis using assms(3) by (intro end_step [of pid]) auto
  next
    case (lock_point pid x locked)
    have "spec_of \<sigma>' = (spec_of \<sigma>)\<lparr>sp_view := (sp_view (spec_of \<sigma>))(pid := Und x (read_set x)), sp_order := sp_order (spec_of \<sigma>) @ [x]\<rparr>" using lock_point by (simp add: abs_sys_def fun_eq_iff)
    moreover have "spec_step seen (spec_of \<sigma>) ((spec_of \<sigma>)\<lparr>sp_view := (sp_view (spec_of \<sigma>))(pid := Und x (read_set x)), sp_order := sp_order (spec_of \<sigma>) @ [x]\<rparr>)"
      using lock_point_guard [OF assms(2) lock_point(2)] lock_point(2) by (intro spec_lock_point) auto
    moreover have "fits_inv fits \<sigma>'" by (rule fits_inv_keep [OF assms(4), of _ pid]) (use lock_point in auto)
    ultimately show ?thesis using lock_point assms(3) by simp
  next
    case (try_read pid x opt todo r rank lt')
    then show ?thesis using assms(3) by (intro quiet_step [of pid]) auto
  next
    case (try_fails pid x opt todo rank lt')
    then show ?thesis using assms(3) by (intro end_step [of pid]) auto
  next
    case (check_current pid x opt r todo v s')
    have get: "contents (sys_store \<sigma>) (opt_key opt) = Some v" "good s'" "contents s' = contents (sys_store \<sigma>)"
      using get_exact [OF assms(3) check_current(3)] by auto
    have "spec_of \<sigma>' = (spec_of \<sigma>)\<lparr>sp_view := (sp_view (spec_of \<sigma>))(pid := Und x todo)\<rparr>" using check_current get by (simp add: abs_sys_def fun_eq_iff)
    moreover have "spec_step seen (spec_of \<sigma>) ((spec_of \<sigma>)\<lparr>sp_view := (sp_view (spec_of \<sigma>))(pid := Und x todo)\<rparr>)"
      using check_guard [OF assms(2) check_current(2)] check_current(2,4) get
      by (intro spec_check [where opt = opt and v = v]) auto
    moreover have "fits_inv fits \<sigma>'" by (rule fits_inv_keep [OF assms(4), of _ pid]) (use check_current in auto)
    ultimately show ?thesis using check_current get by simp
  next
    case (check_fails pid x opt r todo cur s')
    then show ?thesis using get_exact [OF assms(3) check_fails(3)] by (intro end_step [of pid]) auto
  next
    case (release_read pid x opt r todo lt')
    then show ?thesis using assms(3) by (intro quiet_step [of pid]) auto
  next
    case (reads_valid pid x)
    have "spec_of \<sigma>' = (spec_of \<sigma>)\<lparr>sp_view := (sp_view (spec_of \<sigma>))(pid := Inst x (write_set x)), sp_done := insert (xact_id x) (sp_done (spec_of \<sigma>))\<rparr>" using reads_valid by (simp add: abs_sys_def fun_eq_iff)
    moreover have "spec_step seen (spec_of \<sigma>) ((spec_of \<sigma>)\<lparr>sp_view := (sp_view (spec_of \<sigma>))(pid := Inst x (write_set x)), sp_done := insert (xact_id x) (sp_done (spec_of \<sigma>))\<rparr>)"
      using reads_valid(2) by (intro spec_valid) auto
    moreover have "fits_inv fits \<sigma>'" by (rule fits_inv_keep [OF assms(4), of _ pid]) (use reads_valid in auto)
    ultimately show ?thesis using reads_valid assms(3) by simp
  next
    case (install_write pid x opt todo r s')
    have "set (opt # todo) \<subseteq> set (write_set x)" using installing_subset [OF assms(5), of pid] install_write(2) by simp
    then have "fits (opt_value opt)" using fits_invD [OF assms(4), of pid x opt] install_write(2) by simp
    from put_exact [OF assms(3) this install_write(3)]
    have put: "good s'" "contents s' = (contents (sys_store \<sigma>))(opt_key opt \<mapsto> seen (opt_value opt))" by simp_all
    have "spec_of \<sigma>' = (spec_of \<sigma>)\<lparr>sp_view := (sp_view (spec_of \<sigma>))(pid := Inst x todo), sp_map := (sp_map (spec_of \<sigma>))(opt_key opt \<mapsto> seen (opt_value opt))\<rparr>" using install_write put by (simp add: abs_sys_def fun_eq_iff)
    moreover have "spec_step seen (spec_of \<sigma>) ((spec_of \<sigma>)\<lparr>sp_view := (sp_view (spec_of \<sigma>))(pid := Inst x todo), sp_map := (sp_map (spec_of \<sigma>))(opt_key opt \<mapsto> seen (opt_value opt))\<rparr>)"
      using install_write(2) by (intro spec_install) auto
    moreover have "fits_inv fits \<sigma>'" by (rule fits_inv_keep [OF assms(4), of _ pid]) (use install_write in auto)
    ultimately show ?thesis using install_write put by simp
  next
    case (unlock_write pid x opt todo lt')
    then show ?thesis using assms(3) by (intro quiet_step [of pid]) auto
  next
    case (end_commit pid x)
    then show ?thesis using assms(3) by (intro end_step [of pid]) auto
  next
    case (abort_xact pid)
    have "\<forall>x todo. view_of (sys_phase \<sigma> pid) = Inst x todo \<longrightarrow> todo = []" using abort_xact(2) by (cases "sys_phase \<sigma> pid") auto
    then show ?thesis using abort_xact assms(3) by (intro end_step [of pid]) auto
  qed
qed

text \<open>Along every run the invariant holds and the abstract machine makes the same run.\<close>

lemma commit_run:
  assumes "commit_start \<sigma>0" "good (sys_store \<sigma>0)" "spec_start (spec_of \<sigma>0)" "(commit_step io contents fits)\<^sup>*\<^sup>* \<sigma>0 \<sigma>"
  shows "(spec_step seen)\<^sup>*\<^sup>* (spec_of \<sigma>0) (spec_of \<sigma>) \<and> lock_inv \<sigma> \<and> good (sys_store \<sigma>) \<and> fits_inv fits \<sigma>"
  using assms(4)
proof (induction rule: rtranclp_induct)
  case base
  show ?case using assms(1,2) by (simp add: lock_inv_start fits_inv_def commit_start_def)
next
  case (step \<sigma>1 \<sigma>2)
  then have path: "(spec_step seen)\<^sup>*\<^sup>* (spec_of \<sigma>0) (spec_of \<sigma>1)" and inv: "lock_inv \<sigma>1" "good (sys_store \<sigma>1)" "fits_inv fits \<sigma>1" by blast+
  have "phases_ok (spec_of \<sigma>1)"
    using spec_inv_reachable [OF assms(3) path] seen_version unfolding spec_inv_def by blast
  from commit_refines [OF step(2) inv this] path lock_inv_step [OF step(2) inv(1)]
  show ?case by (auto intro: rtranclp.rtrancl_into_rtrancl)
qed

lemma commit_run_serializable:
  assumes "commit_start \<sigma>0" "good (sys_store \<sigma>0)" "spec_start (spec_of \<sigma>0)" "(commit_step io contents fits)\<^sup>*\<^sup>* \<sigma>0 \<sigma>"
  shows "\<exists>m. run_serially seen (contents (sys_store \<sigma>0)) (committed_order (spec_of \<sigma>)) = Some m \<and>
           (quiet (spec_of \<sigma>) \<longrightarrow> (\<forall>k. contents (sys_store \<sigma>) k = m k \<or>
              m k = None \<and> (\<exists>v. contents (sys_store \<sigma>) k = Some v \<and> NRAMValueIsPrivate v)))"
  using spec_serializable [OF assms(3) conjunct1 [OF commit_run [OF assms]]] seen_version by simp

text \<open>A backend whose reads are valid finishes its commit by its own steps.\<close>

lemma installing_completes:
  assumes "sys_phase \<sigma> p = Installing x todo" "good (sys_store \<sigma>)" "\<forall>opt \<in> set todo. fits (opt_value opt)"
  shows "\<exists>\<sigma>'. (commit_step io contents fits)\<^sup>*\<^sup>* \<sigma> \<sigma>' \<and> sys_phase \<sigma>' p = Idle \<and>
           contents (sys_store \<sigma>') = with_writes seen todo (contents (sys_store \<sigma>))"
  using assms
proof (induction todo arbitrary: \<sigma>)
  case Nil
  let ?\<sigma>' = "goto \<sigma> p Idle\<lparr>sys_locks := ProcReleaseLocks p None (sys_locks \<sigma>)\<rparr>"
  have "commit_step io contents fits \<sigma> ?\<sigma>'" by (rule end_commit [OF Nil(1)])
  then show ?case by (intro exI [of _ ?\<sigma>'] conjI) auto
next
  case (Cons opt todo)
  have "fits (opt_value opt)" using Cons.prems(3) by simp
  from put_fits [OF Cons.prems(2) this, of p "opt_key opt"] obtain s' where
    put: "cl_put io p (opt_key opt) (opt_value opt) (sys_store \<sigma>) = (Inr True, s')" "good s'"
      "contents s' = (contents (sys_store \<sigma>))(opt_key opt \<mapsto> seen (opt_value opt))" by blast
  let ?\<sigma>1 = "goto \<sigma> p (Unlocking x opt todo)\<lparr>sys_store := s'\<rparr>"
  let ?\<sigma>2 = "goto ?\<sigma>1 p (Installing x todo)\<lparr>sys_locks := snd (nram_validation_release p (opt_key opt) ExclusiveLock (sys_locks ?\<sigma>1))\<rparr>"
  have s1: "commit_step io contents fits \<sigma> ?\<sigma>1" by (rule install_write [OF Cons.prems(1) put(1)])
  have s2: "commit_step io contents fits ?\<sigma>1 ?\<sigma>2" by (rule unlock_write [where opt = opt]) simp_all
  have "\<exists>\<sigma>'. (commit_step io contents fits)\<^sup>*\<^sup>* ?\<sigma>2 \<sigma>' \<and> sys_phase \<sigma>' p = Idle \<and>
      contents (sys_store \<sigma>') = with_writes seen todo (contents (sys_store ?\<sigma>2))"
    by (rule Cons.IH) (use put(2) Cons.prems(3) in simp_all)
  then obtain \<sigma>' where \<sigma>': "(commit_step io contents fits)\<^sup>*\<^sup>* ?\<sigma>2 \<sigma>'" "sys_phase \<sigma>' p = Idle"
      "contents (sys_store \<sigma>') = with_writes seen todo (contents s')" by auto
  show ?case
    using converse_rtranclp_into_rtranclp [OF s1 converse_rtranclp_into_rtranclp [OF s2 \<sigma>'(1)]] \<sigma>'(2,3) put(3)
    by (intro exI [of _ \<sigma>']) simp
qed

lemma valid_commit_completes:
  assumes "commit_start \<sigma>0" "good (sys_store \<sigma>0)" "spec_start (spec_of \<sigma>0)" "(commit_step io contents fits)\<^sup>*\<^sup>* \<sigma>0 \<sigma>"
    and "sys_phase \<sigma> p = Installing x todo"
  shows "\<exists>\<sigma>'. (commit_step io contents fits)\<^sup>*\<^sup>* \<sigma> \<sigma>' \<and> sys_phase \<sigma>' p = Idle \<and>
           contents (sys_store \<sigma>') = with_writes seen todo (contents (sys_store \<sigma>))"
proof -
  note run = commit_run [OF assms(1-4)]
  have "phases_ok (spec_of \<sigma>)" using spec_inv_reachable [OF assms(3) conjunct1 [OF run]] seen_version unfolding spec_inv_def by blast
  from installing_subset [OF this, of p] assms(5) have "set todo \<subseteq> set (write_set x)" by simp
  with fits_invD [of fits \<sigma> p x] run assms(5) have "\<forall>opt \<in> set todo. fits (opt_value opt)" by auto
  with installing_completes [OF assms(5)] run show ?thesis by blast
qed

end

section \<open>The commit of one backend is a run of the machine\<close>

lemma goto_same: "sys_phase \<sigma> pid = ph \<Longrightarrow> goto \<sigma> pid ph = \<sigma>"
  by (simp add: fun_upd_idem)

lemma lock_path:
  assumes "lock_write_set pid rank todo (tmo, sys_locks \<sigma>) = (Inr (), tmo', lt')" "sys_phase \<sigma> pid = Locking x locked todo"
  shows "(commit_step io stored fits)\<^sup>*\<^sup>* \<sigma> (goto \<sigma> pid (Locking x (locked @ todo) [])\<lparr>sys_locks := lt'\<rparr>)"
  using assms
proof (induction todo arbitrary: locked tmo \<sigma>)
  case (Cons opt todo)
  obtain tmo1 lt1 where lock: "nram_validation_lock pid rank (opt_key opt) ExclusiveLock (tmo, sys_locks \<sigma>) = (Inr (), tmo1, lt1)"
      and rest: "lock_write_set pid rank todo (tmo1, lt1) = (Inr (), tmo', lt')"
    using Cons.prems(1) by (auto split: prod.splits sum.splits)
  let ?\<sigma>1 = "goto \<sigma> pid (Locking x (locked @ [opt]) todo)\<lparr>sys_locks := lt1\<rparr>"
  have s1: "commit_step io stored fits \<sigma> ?\<sigma>1" by (rule lock_write [OF Cons.prems(2) lock])
  have path: "(commit_step io stored fits)\<^sup>*\<^sup>* ?\<sigma>1 (goto ?\<sigma>1 pid (Locking x ((locked @ [opt]) @ todo) [])\<lparr>sys_locks := lt'\<rparr>)"
    by (rule Cons.IH [of tmo1]) (simp_all add: rest)
  have eq: "goto ?\<sigma>1 pid (Locking x ((locked @ [opt]) @ todo) [])\<lparr>sys_locks := lt'\<rparr> =
      goto \<sigma> pid (Locking x (locked @ opt # todo) [])\<lparr>sys_locks := lt'\<rparr>" by (cases \<sigma>) simp
  show ?case using converse_rtranclp_into_rtranclp [OF s1 path] unfolding eq .
qed (auto simp: goto_same)

lemma validate_path:
  assumes "validate_reads io pid rank todo (sys_locks \<sigma>, sys_store \<sigma>) = (Inr (), lt', s')" "sys_phase \<sigma> pid = Validating x todo"
  shows "(commit_step io stored fits)\<^sup>*\<^sup>* \<sigma> (goto \<sigma> pid (Validating x [])\<lparr>sys_locks := lt', sys_store := s'\<rparr>)"
  using assms
proof (induction todo arbitrary: \<sigma>)
  case (Cons opt todo)
  obtain r lt1 lt2 s1 where att: "nram_try_validation_lock pid rank (opt_key opt) ShareLock (sys_locks \<sigma>) = (Inr r, lt1)" "r \<noteq> LOCKACQUIRE_NOT_AVAIL"
      and check: "check_read io pid opt r (lt1, sys_store \<sigma>) = (Inr (), lt2, s1)"
      and rest: "validate_reads io pid rank todo (lt2, s1) = (Inr (), lt', s')"
    using Cons.prems(1) by (auto split: prod.splits sum.splits LockAcquireResult.splits)
  from check obtain v where v: "cl_get io pid (opt_key opt) (sys_store \<sigma>) = (Inr (Some v), s1)" "v_xact_id v = opt_xact_id opt"
      and lt2: "lt2 = (if r = LOCKACQUIRE_OK then snd (nram_validation_release pid (opt_key opt) ShareLock lt1) else lt1)"
    by (auto simp: check_read_def split: prod.splits sum.splits option.splits if_splits)
  let ?\<sigma>1 = "goto \<sigma> pid (Checking x opt r todo)\<lparr>sys_locks := lt1\<rparr>"
  let ?\<sigma>2 = "goto ?\<sigma>1 pid (Releasing x opt r todo)\<lparr>sys_store := s1\<rparr>"
  let ?\<sigma>3 = "goto ?\<sigma>2 pid (Validating x todo)\<lparr>sys_locks := lt2\<rparr>"
  have s1: "commit_step io stored fits \<sigma> ?\<sigma>1" by (rule try_read [OF Cons.prems(2) att(2,1)])
  have s2: "commit_step io stored fits ?\<sigma>1 ?\<sigma>2" by (rule check_current [where v = v]) (simp_all add: v)
  have s3: "commit_step io stored fits ?\<sigma>2 ?\<sigma>3" by (rule release_read [where opt = opt and r = r]) (simp_all add: lt2)
  have path: "(commit_step io stored fits)\<^sup>*\<^sup>* ?\<sigma>3 (goto ?\<sigma>3 pid (Validating x [])\<lparr>sys_locks := lt', sys_store := s'\<rparr>)"
    by (rule Cons.IH) (simp_all add: rest)
  have eq: "goto ?\<sigma>3 pid (Validating x [])\<lparr>sys_locks := lt', sys_store := s'\<rparr> =
      goto \<sigma> pid (Validating x [])\<lparr>sys_locks := lt', sys_store := s'\<rparr>" by (cases \<sigma>) simp
  show ?case using converse_rtranclp_into_rtranclp [OF s1 converse_rtranclp_into_rtranclp [OF s2 converse_rtranclp_into_rtranclp [OF s3 path]]] unfolding eq .
qed (auto simp: goto_same)

lemma install_path:
  assumes "install_writes io pid todo (sys_locks \<sigma>, sys_store \<sigma>) = (Inr (), lt', s')" "sys_phase \<sigma> pid = Installing x todo"
  shows "(commit_step io stored fits)\<^sup>*\<^sup>* \<sigma> (goto \<sigma> pid (Installing x [])\<lparr>sys_locks := lt', sys_store := s'\<rparr>)"
  using assms
proof (induction todo arbitrary: \<sigma>)
  case (Cons opt todo)
  let ?lt1 = "snd (nram_validation_release pid (opt_key opt) ExclusiveLock (sys_locks \<sigma>))"
  obtain r s1 where put: "cl_put io pid (opt_key opt) (opt_value opt) (sys_store \<sigma>) = (Inr r, s1)"
      and rest: "install_writes io pid todo (?lt1, s1) = (Inr (), lt', s')"
    using Cons.prems(1) by (auto split: prod.splits sum.splits)
  let ?\<sigma>1 = "goto \<sigma> pid (Unlocking x opt todo)\<lparr>sys_store := s1\<rparr>"
  let ?\<sigma>2 = "goto ?\<sigma>1 pid (Installing x todo)\<lparr>sys_locks := ?lt1\<rparr>"
  have s1: "commit_step io stored fits \<sigma> ?\<sigma>1" by (rule install_write [OF Cons.prems(2) put])
  have s2: "commit_step io stored fits ?\<sigma>1 ?\<sigma>2" by (rule unlock_write [where opt = opt]) simp_all
  have path: "(commit_step io stored fits)\<^sup>*\<^sup>* ?\<sigma>2 (goto ?\<sigma>2 pid (Installing x [])\<lparr>sys_locks := lt', sys_store := s'\<rparr>)"
    by (rule Cons.IH) (simp_all add: rest)
  have eq: "goto ?\<sigma>2 pid (Installing x [])\<lparr>sys_locks := lt', sys_store := s'\<rparr> =
      goto \<sigma> pid (Installing x [])\<lparr>sys_locks := lt', sys_store := s'\<rparr>" by (cases \<sigma>) simp
  show ?case using converse_rtranclp_into_rtranclp [OF s1 converse_rtranclp_into_rtranclp [OF s2 path]] unfolding eq .
qed (auto simp: goto_same)

text \<open>The state of the machine that the backend \<open>env\<close> sees.\<close>

definition runs_as :: "'s nram_env \<Rightarrow> nram_xact \<Rightarrow> 's commit_sys \<Rightarrow> bool" where
  "runs_as env x \<sigma> = (sys_phase \<sigma> (be_pid env) = Running x \<and> sys_locks \<sigma> = env_locks env \<and> sys_store \<sigma> = env_store env)"

definition after_commit :: "'s nram_env \<Rightarrow> nram_xact \<Rightarrow> 's commit_sys \<Rightarrow> 's commit_sys" where
  "after_commit env x \<sigma> =
     goto \<sigma> (be_pid env) (Installing x [])\<lparr>sys_locks := env_locks env, sys_store := env_store env,
        sys_order := sys_order \<sigma> @ [x], sys_valid := insert (xact_id x) (sys_valid \<sigma>)\<rparr>"

lemma pre_commit_run:
  assumes "pre_commit io x env = (Inr (), env')" "be_serializable env" "runs_as env x \<sigma>"
  shows "(commit_step io stored fits)\<^sup>*\<^sup>* \<sigma> (after_commit env' (x\<lparr>write_set := list_sort (write_set x)\<rparr>) \<sigma>)"
proof -
  let ?pid = "be_pid env" and ?ws = "list_sort (write_set x)" and ?x = "x\<lparr>write_set := list_sort (write_set x)\<rparr>"
  obtain tmo lt lt2 s2 lt3 s3 where
    lock: "lock_write_set ?pid (be_rank env) ?ws (LockTimeout env, env_locks env) = (Inr (), tmo, lt)"
    and val: "validate_reads io ?pid (be_rank env) (read_set x) (lt, env_store env) = (Inr (), lt2, s2)"
    and ins: "install_writes io ?pid ?ws (lt2, s2) = (Inr (), lt3, s3)"
    and env': "be_pid env' = ?pid" "env_locks env' = lt3" "env_store env' = s3"
    using assms(1,2) by (auto simp: pre_commit_def validation_phase_def Let_def split: if_splits prod.splits sum.splits)
  let ?\<sigma>1 = "goto \<sigma> ?pid (Locking ?x [] ?ws)"
  let ?\<sigma>2 = "goto ?\<sigma>1 ?pid (Locking ?x ?ws [])\<lparr>sys_locks := lt\<rparr>"
  let ?\<sigma>3 = "goto ?\<sigma>2 ?pid (Validating ?x (read_set ?x))\<lparr>sys_order := sys_order ?\<sigma>2 @ [?x]\<rparr>"
  let ?\<sigma>4 = "goto ?\<sigma>3 ?pid (Validating ?x [])\<lparr>sys_locks := lt2, sys_store := s2\<rparr>"
  let ?\<sigma>5 = "goto ?\<sigma>4 ?pid (Installing ?x (write_set ?x))\<lparr>sys_valid := insert (xact_id ?x) (sys_valid ?\<sigma>4)\<rparr>"
  let ?\<sigma>6 = "goto ?\<sigma>5 ?pid (Installing ?x [])\<lparr>sys_locks := lt3, sys_store := s3\<rparr>"
  have st: "sys_phase \<sigma> ?pid = Running x" "sys_locks \<sigma> = env_locks env" "sys_store \<sigma> = env_store env"
    using assms(3) by (simp_all add: runs_as_def)
  have "commit_step io stored fits \<sigma> ?\<sigma>1" by (rule start_commit [OF st(1)])
  moreover have "(commit_step io stored fits)\<^sup>*\<^sup>* ?\<sigma>1 ?\<sigma>2"
    using lock_path [of ?pid "be_rank env" ?ws "LockTimeout env" ?\<sigma>1 tmo lt ?x "[]"] lock st by simp
  moreover have "commit_step io stored fits ?\<sigma>2 ?\<sigma>3" by (rule lock_point [where locked = ?ws]) simp
  moreover have "(commit_step io stored fits)\<^sup>*\<^sup>* ?\<sigma>3 ?\<sigma>4"
    by (rule validate_path [where rank = "be_rank env"]) (simp_all add: val st)
  moreover have "commit_step io stored fits ?\<sigma>4 ?\<sigma>5" by (rule reads_valid) simp
  moreover have "(commit_step io stored fits)\<^sup>*\<^sup>* ?\<sigma>5 ?\<sigma>6" by (rule install_path) (simp_all add: ins)
  ultimately have "(commit_step io stored fits)\<^sup>*\<^sup>* \<sigma> ?\<sigma>6"
    by (meson r_into_rtranclp rtranclp_trans)
  moreover have "?\<sigma>6 = after_commit env' ?x \<sigma>" by (cases \<sigma>) (simp add: after_commit_def env')
  ultimately show ?thesis by simp
qed

section \<open>The storage process\<close>

lemma rocks_commit_store:
  assumes api: "rocksdb_ok api ents view" and sl: "2 \<le> length slack"
  shows "commit_store (rocks_client api slack ws ws' sched) (rocks_contents ents slack) (rocks_good ents) small_value (read_row slack)"
proof -
  let ?io = "rocks_client api slack ws ws' sched" and ?con = "rocks_contents ents slack"
  have kv: "kv_store ?io ?con (rocks_good ents) small_value (read_row slack)" by (rule rocks_kv_store [OF assms])
  show ?thesis
  proof (intro commit_store.intro [OF kv] commit_store_axioms.intro)
    fix s pid k r s' assume good: "rocks_good ents s" and get: "cl_get ?io pid k s = (Inr r, s')"
    show "r = ?con s k \<and> rocks_good ents s' \<and> ?con s' = ?con s"
    proof (cases "?con s k")
      case None
      have "map_of (ents (sv_db (rs_service s))) (tkey_serialize k) = None"
      proof (cases "map_of (ents (sv_db (rs_service s))) (tkey_serialize k)")
        case (Some b)
        with good obtain w where "small_value w" "b = encoded w" unfolding rocks_good_def by blast
        with None Some decode_small [OF _ sl, of w] show ?thesis by (simp add: rocks_contents_def)
      qed
      moreover have "client_ready (rs_client pid s) (rs_service s)" using good by (simp add: rocks_good_def)
      ultimately have "fst (cl_get ?io pid k s) = Inl Would_block"
        using get_missing_blocks [OF api, of "rs_client pid s" "rs_service s" k slack ws ws' sched]
        by (auto simp: rocks_client_def rs_return_def Let_def split: prod.splits)
      with get show ?thesis by simp
    next
      case (Some v)
      from kv_store.get_present [OF kv good Some, of pid] get Some show ?thesis by auto
    qed
  next
    show "v_flags (read_row slack v) = v_flags v" for v by (simp add: read_row_def)
    show "copy_nram_value v = Inr v" if "small_value v" for v
      using that copy_nram_value_slack [of v "[]"] by (simp add: small_value_def storable_def)
  qed
qed

interpretation logc: commit_store "rocks_client log_store [0, 0] [] [] (\<lambda>_. [])" "rocks_contents log_entries [0, 0]"
    "rocks_good log_entries" small_value "read_row [0, 0]"
  by (rule rocks_commit_store [OF log_store_ok]) simp

section \<open>Serializability\<close>

definition committed :: "'s commit_sys \<Rightarrow> nram_xact list" where
  "committed \<sigma> = filter (\<lambda>x. xact_id x \<in> sys_valid \<sigma>) (sys_order \<sigma>)"

fun in_commit :: "phase \<Rightarrow> bool" where
  "in_commit Idle = False"
| "in_commit (Running x) = False"
| "in_commit (Locking x locked todo) = False"
| "in_commit (Blocked x locked opt todo) = False"
| "in_commit (Failing x) = False"
| "in_commit _ = True"

lemma committed_abs: "committed_order (abs_sys stored \<sigma>) = committed \<sigma>"
  by (simp add: committed_order_def committed_def)

lemma quiet_abs: "(\<forall>p. \<not> in_commit (sys_phase \<sigma> p)) \<Longrightarrow> quiet (abs_sys stored \<sigma>)"
proof -
  assume a: "\<forall>p. \<not> in_commit (sys_phase \<sigma> p)"
  have "\<not> (\<exists>x todo. view_of (sys_phase \<sigma> p) = Inst x todo \<or> view_of (sys_phase \<sigma> p) = Und x todo)" for p
    using spec [OF a, of p] by (cases "sys_phase \<sigma> p") auto
  then show ?thesis by (simp add: quiet_def)
qed

text \<open>A run of one backend that writes a row and commits.\<close>

definition sample_write :: nram_opt where
  "sample_write = \<lparr>opt_type = XACT_OP_WRITE, opt_xact_id = 9, opt_key = \<lparr>tableOid = 1, tid = 2\<rparr>, opt_value = sample_value 9\<rparr>"

definition sample_writer :: nram_xact where
  "sample_writer = \<lparr>xact_id = 9, validated = False, feature = None, action = None, cur_cmdtype = CMD_UNKNOWN, cmdtype_depth = 0,
     cmdtype_stack = replicate NRAM_CMD_STACK_MAX CMD_UNKNOWN, read_set = [], write_set = [sample_write]\<rparr>"

definition sample_sys :: "write_log rocks_state commit_sys" where
  "sample_sys = \<lparr>sys_phase = (\<lambda>_. Idle), sys_locks = no_locks, sys_store = sample_store, sys_xids = {7, 8}, sys_order = [], sys_valid = {}\<rparr>"

definition sample_io :: "write_log rocks_state kv_client" where
  "sample_io = rocks_client log_store [0, 0] [] [] (\<lambda>_. [])"

lemma sample_commit:
  "\<exists>env'. pre_commit sample_io sample_writer (sample_backend 5 sample_writer) = (Inr (), env') \<and> be_pid env' = 5"
proof -
  obtain tmo lt where lock: "lock_write_set 5 0 [sample_write] (1000, no_locks) = (Inr (), tmo, lt)"
    by (simp add: nram_validation_lock_def ExclusiveLock_def lock_eval split: prod.split)
  obtain lt3 s3 where ins: "install_writes sample_io 5 [sample_write] (lt, sample_store) = (Inr (), lt3, s3)"
    using log.install_writes_spec [OF sample_store_good, of "[sample_write]" 5 lt] sample_small
    by (auto simp: sample_write_def sample_io_def)
  show ?thesis
    using lock ins by (simp add: pre_commit_def sample_writer_def sample_backend_def list_sort_def validation_phase_def)
qed

lemma sample_started:
  "(commit_step sample_io stored small_value)\<^sup>*\<^sup>* sample_sys (goto sample_sys 5 (Running sample_writer)\<lparr>sys_xids := {7, 8, 9}\<rparr>)"
proof -
  obtain x where x: "NewNRAMXactState 9 = Some x" "xact_id x = 9"
      "add_write_set x \<lparr>tableOid = 1, tid = 2\<rparr> (sample_value 9) = Inr sample_writer"
    using copy_nram_value_slack [of "sample_value 9" "[]"] sample_storable [of 9]
    by (simp add: NewNRAMXactState_def add_write_set_def find_write_set_def find_opt_def sample_writer_def sample_write_def storable_def copy_nram_key_def)
  let ?\<sigma>1 = "goto sample_sys 5 (Running x)\<lparr>sys_xids := insert 9 (sys_xids sample_sys)\<rparr>"
  have s1: "commit_step sample_io stored small_value sample_sys ?\<sigma>1"
    by (rule begin_xact) (simp_all add: sample_sys_def x)
  have s2: "commit_step sample_io stored small_value ?\<sigma>1 (goto ?\<sigma>1 5 (Running sample_writer))"
    by (rule write_row [where x = x and v = "sample_value 9" and k = "\<lparr>tableOid = 1, tid = 2\<rparr>"])
      (simp_all add: x sample_small, simp_all add: sample_value_def NRAMValueIsPrivate_def)
  have eq: "goto ?\<sigma>1 5 (Running sample_writer) = goto sample_sys 5 (Running sample_writer)\<lparr>sys_xids := {7, 8, 9}\<rparr>"
    by (auto simp: sample_sys_def)
  show ?thesis using converse_rtranclp_into_rtranclp [OF s1 r_into_rtranclp [of "commit_step sample_io stored small_value", OF s2]] unfolding eq .
qed

lemma sample_versions: "rocks_contents log_entries [0, 0] sample_store k = Some v \<Longrightarrow> v_xact_id v \<in> {7, 8}"
proof -
  assume a: "rocks_contents log_entries [0, 0] sample_store k = Some v"
  have db: "sv_db (rs_service sample_store) = sample_db" by (simp add: sample_store_def run_rocks_start_def)
  from a obtain b where b: "map_of (log_entries sample_db) (tkey_serialize k) = Some b"
      "tvalue_deserialize (b @ [0, 0]) (length b) = Inr v"
    by (auto simp: rocks_contents_def db split: option.splits sum.splits)
  from map_of_SomeD [OF b(1)] obtain w where w: "(k, w) \<in> set sample_rows" "b = encoded w"
    using sample_holds_rows by (auto simp: holds_rows_def)
  then have "small_value w" using sample_small by (auto simp: sample_rows_def)
  from decode_small [OF this, of "[0, 0]"] b(2) w have "v = read_row [0, 0] w" by simp
  with w(1) show ?thesis by (auto simp: sample_rows_def read_row_def sample_value_def)
qed

lemma sample_committed:
  "\<exists>\<sigma>. (commit_step sample_io stored small_value)\<^sup>*\<^sup>* sample_sys \<sigma> \<and> sys_phase \<sigma> 5 = Installing sample_writer [] \<and>
     committed \<sigma> = [sample_writer] \<and> (\<forall>p. p \<noteq> 5 \<longrightarrow> sys_phase \<sigma> p = Idle)"
proof -
  let ?\<sigma>1 = "goto sample_sys 5 (Running sample_writer)\<lparr>sys_xids := {7, 8, 9}\<rparr>"
  obtain env' where env': "pre_commit sample_io sample_writer (sample_backend 5 sample_writer) = (Inr (), env')" "be_pid env' = 5"
    using sample_commit by blast
  have sorted: "sample_writer\<lparr>write_set := list_sort (write_set sample_writer)\<rparr> = sample_writer"
    by (simp add: sample_writer_def list_sort_def)
  let ?\<sigma>2 = "after_commit env' sample_writer ?\<sigma>1"
  have "runs_as (sample_backend 5 sample_writer) sample_writer ?\<sigma>1"
    by (simp add: runs_as_def sample_backend_def sample_sys_def)
  from pre_commit_run [OF env'(1) _ this, of stored small_value] sorted
  have "(commit_step sample_io stored small_value)\<^sup>*\<^sup>* ?\<sigma>1 ?\<sigma>2" by (simp add: sample_backend_def)
  with sample_started [of stored] have "(commit_step sample_io stored small_value)\<^sup>*\<^sup>* sample_sys ?\<sigma>2" by (rule rtranclp_trans)
  moreover have "committed ?\<sigma>2 = [sample_writer]" by (simp add: committed_def after_commit_def sample_sys_def sample_writer_def)
  moreover have "sys_phase ?\<sigma>2 5 = Installing sample_writer []" "\<forall>p. p \<noteq> 5 \<longrightarrow> sys_phase ?\<sigma>2 p = Idle"
    by (simp_all add: after_commit_def sample_sys_def env'(2))
  ultimately show ?thesis by blast
qed







section \<open>Termination\<close>

text \<open>
  The steps a backend has left from where it is in its commit: one per lock, or two if it has to wait;
  three per read; two per write; one for each change of the phase.
\<close>

fun work :: "phase \<Rightarrow> nat" where
  "work Idle = 0"
| "work (Running x) = 0"
| "work (Failing x) = 1"
| "work (Unlocking x opt todo) = 2 * length todo + 2"
| "work (Installing x todo) = 2 * length todo + 1"
| "work (Validating x todo) = 3 * length todo + 2 * length (write_set x) + 2"
| "work (Releasing x opt r todo) = 3 * length todo + 2 * length (write_set x) + 3"
| "work (Checking x opt r todo) = 3 * length todo + 2 * length (write_set x) + 4"
| "work (Locking x locked todo) = 2 * length todo + 3 * length (read_set x) + 2 * length (write_set x) + 3"
| "work (Blocked x locked opt todo) = 2 * length todo + 3 * length (read_set x) + 2 * length (write_set x) + 4"

text \<open>A step of a backend that is in its commit or failed.\<close>

definition commit_move :: "'s kv_client \<Rightarrow> ('s \<Rightarrow> nram_key \<Rightarrow> nram_value option) \<Rightarrow> (nram_value \<Rightarrow> bool) \<Rightarrow> 's commit_sys \<Rightarrow> 's commit_sys \<Rightarrow> bool" where
  "commit_move io stored fits \<sigma> \<sigma>' = (commit_step io stored fits \<sigma> \<sigma>' \<and> (\<exists>p. 0 < work (sys_phase \<sigma> p) \<and> sys_phase \<sigma>' p \<noteq> sys_phase \<sigma> p))"

lemma sum_fun_upd:
  fixes f :: "u32 \<Rightarrow> 'a" and w :: "'a \<Rightarrow> nat"
  shows "(\<Sum>p\<in>UNIV. w ((f(q := v)) p)) + w (f q) = (\<Sum>p\<in>UNIV. w (f p)) + w v"
proof -
  have "(\<Sum>p\<in>UNIV. w (g p)) = w (g q) + (\<Sum>p\<in>UNIV - {q}. w (g p))" for g :: "u32 \<Rightarrow> 'a" by (rule sum.remove) auto
  moreover have "(\<Sum>p\<in>UNIV - {q}. w ((f(q := v)) p)) = (\<Sum>p\<in>UNIV - {q}. w (f p))" by (rule sum.cong) auto
  ultimately show ?thesis by simp
qed

lemma one_phase_changes:
  assumes "commit_step io stored fits \<sigma> \<sigma>'"
  shows "\<exists>p ph. sys_phase \<sigma>' = (sys_phase \<sigma>)(p := ph) \<and> (0 < work (sys_phase \<sigma> p) \<longrightarrow> work ph < work (sys_phase \<sigma> p))"
  using assms
proof cases
  case (get_row pid x k r s')
  then show ?thesis by (intro exI [of _ pid] exI [of _ "Running x"]) (simp add: fun_upd_idem)
next
  case (table_lock pid x tag rank m dontWait r lt')
  then show ?thesis by (intro exI [of _ pid] exI [of _ "Running x"]) (simp add: fun_upd_idem)
next
  case (abort_xact pid)
  then show ?thesis by (intro exI [of _ pid] exI [of _ Idle]) simp
qed (fastforce simp del: fun_upd_apply)+

lemma commit_move_work:
  assumes "commit_move io stored fits \<sigma> \<sigma>'"
  shows "(\<Sum>p\<in>UNIV. work (sys_phase \<sigma>' p)) < (\<Sum>p\<in>UNIV. work (sys_phase \<sigma> p))"
proof -
  have "commit_step io stored fits \<sigma> \<sigma>'" using assms by (simp add: commit_move_def)
  from one_phase_changes [OF this] obtain p ph where
    ph: "sys_phase \<sigma>' = (sys_phase \<sigma>)(p := ph)" "0 < work (sys_phase \<sigma> p) \<longrightarrow> work ph < work (sys_phase \<sigma> p)" by (elim exE conjE)
  obtain q where q: "0 < work (sys_phase \<sigma> q)" "sys_phase \<sigma>' q \<noteq> sys_phase \<sigma> q" using assms unfolding commit_move_def by blast
  from q(2) ph(1) have "q = p" by (auto split: if_splits)
  with q(1) ph(2) sum_fun_upd [of work "sys_phase \<sigma>" p ph] show ?thesis unfolding ph(1) by simp
qed



end
