(* ===== verification/NR_Session.thy ===== *)
theory NR_Session
  imports NR_Executor NR_Commit
begin

text \<open>
  The life of a backend: any sequence of the calls the core makes to the access method, its
  executor hooks and its transaction callback, with results and errors. The state they share
  stays well-formed, whatever the storage answers.
\<close>

section \<open>Calls\<close>

datatype backend_call =
    Assign_xid u32
  | Begin_scan nram_relation
  | Next_slot kv_scan ScanDirection
  | End_scan kv_scan
  | Index_fetch nram_relation ItemPointerData
  | Fetch_row_version nram_relation ItemPointerData
  | Tuple_insert nram_relation tuple_columns
  | Multi_insert nram_relation "tuple_columns list"
  | Tuple_update nram_relation ItemPointerData tuple_columns
  | Tuple_delete nram_relation ItemPointerData
  | Executor_start "CmdType option"
  | Executor_end
  | Load_policy string
  | Xact_event XactEvent
  | Release_locks "locktag option"

text \<open>
  \<open>Assign_xid\<close> and \<open>Release_locks\<close> are of the core: a transaction gets its identifier, and its
  locks are released when it ends.
\<close>

definition ignore :: "('s, 'a) nram_m \<Rightarrow> ('s, unit) nram_m" where
  "ignore m = nbind m (\<lambda>_. nret ())"

fun backend_step :: "'s kv_client \<Rightarrow> (byte list \<Rightarrow> byte list) \<Rightarrow> (string \<Rightarrow> string option) \<Rightarrow> backend_call \<Rightarrow> ('s, unit) nram_m" where
  "backend_step io eoh fs (Assign_xid xid) = (\<lambda>env. (Inr (), env\<lparr>be_xid := xid\<rparr>))"
| "backend_step io eoh fs (Begin_scan rel) = ignore (nram_beginscan io rel)"
| "backend_step io eoh fs (Next_slot sscan d) = ignore (nram_getnextslot io sscan d)"
| "backend_step io eoh fs (End_scan sscan) = nram_endscan sscan"
| "backend_step io eoh fs (Index_fetch rel ip) = ignore (nram_index_fetch_tuple io rel ip)"
| "backend_step io eoh fs (Fetch_row_version rel ip) = ignore (nram_fetch_row_version io rel ip)"
| "backend_step io eoh fs (Tuple_insert rel cols) = ignore (nram_tuple_insert io eoh rel cols)"
| "backend_step io eoh fs (Multi_insert rel slots) = ignore (nram_multi_insert io eoh rel slots)"
| "backend_step io eoh fs (Tuple_update rel ip cols) = nram_tuple_update eoh rel ip cols"
| "backend_step io eoh fs (Tuple_delete rel ip) = nram_tuple_delete rel ip"
| "backend_step io eoh fs (Executor_start qd) = nram_ExecutorStart qd"
| "backend_step io eoh fs Executor_end = nram_ExecutorEnd"
| "backend_step io eoh fs (Load_policy path) = nram_load_policy fs path"
| "backend_step io eoh fs (Xact_event ev) = nram_xact_callback io ev"
| "backend_step io eoh fs (Release_locks wait) =
     (\<lambda>env. (Inr (), env\<lparr>env_locks := ProcReleaseLocks (be_pid env) wait (env_locks env)\<rparr>))"

text \<open>An error ends its call; the backend goes on with the next one.\<close>

fun backend_run ::
  "'s kv_client \<Rightarrow> (byte list \<Rightarrow> byte list) \<Rightarrow> (string \<Rightarrow> string option) \<Rightarrow> backend_call list \<Rightarrow> 's nram_env \<Rightarrow> 's nram_env" where
  "backend_run io eoh fs [] env = env"
| "backend_run io eoh fs (c # cs) env = backend_run io eoh fs cs (snd (backend_step io eoh fs c env))"

section \<open>Well-formed states\<close>

definition xact_typed :: "nram_xact \<Rightarrow> bool" where
  "xact_typed x \<longleftrightarrow>
     (\<forall>opt \<in> set (read_set x). opt_type opt = XACT_OP_READ) \<and>
     (\<forall>opt \<in> set (write_set x). opt_type opt = XACT_OP_WRITE \<and> opt_xact_id opt = xact_id x) \<and>
     distinct (map opt_key (write_set x)) \<and> sets_copied x \<and>
     length (cmdtype_stack x) = NRAM_CMD_STACK_MAX \<and> cmdtype_depth x \<le> NRAM_CMD_STACK_MAX \<and>
     (\<forall>i. action x = Some i \<longrightarrow> i < MAX_XACT_FEATURE_SPACE)"

definition env_typed :: "'s nram_env \<Rightarrow> bool" where
  "env_typed env \<longleftrightarrow>
     (\<forall>x. current_nram_xact env = Some x \<longrightarrow> xact_typed x) \<and> lock_ok (env_locks env) \<and>
     (\<forall>act. env_policy env = Some act \<longrightarrow> length act = MAX_XACT_FEATURE_SPACE)"

lemma env_typedD: "env_typed env \<Longrightarrow> current_nram_xact env = Some x \<Longrightarrow> xact_typed x"
  by (simp add: env_typed_def)

lemma env_typed_simps [simp]:
  "env_typed (env\<lparr>env_store := s\<rparr>) = env_typed env" "env_typed (env\<lparr>be_xid := xid\<rparr>) = env_typed env"
  "env_typed (env\<lparr>be_seq := n\<rparr>) = env_typed env" "env_typed (env\<lparr>be_rank := rank\<rparr>) = env_typed env"
  "env_typed (env\<lparr>LockTimeout := tmo\<rparr>) = env_typed env"
  by (simp_all add: env_typed_def)

lemma env_typed_locks: "env_typed env \<Longrightarrow> lock_ok lt \<Longrightarrow> env_typed (env\<lparr>env_locks := lt\<rparr>)"
  by (simp add: env_typed_def)

lemma env_typed_xact: "env_typed env \<Longrightarrow> (\<And>x. xo = Some x \<Longrightarrow> xact_typed x) \<Longrightarrow> env_typed (env\<lparr>current_nram_xact := xo\<rparr>)"
  by (simp add: env_typed_def)

subsection \<open>Transactions\<close>

lemma new_xact_typed: "NewNRAMXactState xid = Some x \<Longrightarrow> xact_typed x"
  by (auto simp: NewNRAMXactState_def xact_typed_def sets_copied_def split: if_splits)

lemma add_read_set_typed: "xact_typed x \<Longrightarrow> add_read_set x k v = Inr x' \<Longrightarrow> xact_typed x'"
  by (auto simp: add_read_set_def xact_typed_def sets_copied_def ebind_def copy_nram_value_idem split: sum.splits)

lemma replace_value_entries:
  "opt \<in> set (replace_value opts k v) \<Longrightarrow> opt \<in> set opts \<or> (\<exists>o' \<in> set opts. opt = o'\<lparr>opt_value := v\<rparr>)"
  by (induction opts) (auto split: if_splits)

lemma add_write_set_typed:
  assumes "xact_typed x" "add_write_set x k v = Inr x'"
  shows "xact_typed x'"
proof -
  obtain c where c: "copy_nram_value v = Inr c" using assms(2) by (auto simp: add_write_set_def ebind_def split: sum.splits)
  note copy = copy_nram_value_idem [OF c]
  show ?thesis
  proof (cases "find_write_set x k")
    case None
    then have "k \<notin> opt_key ` set (write_set x)" by (simp add: find_write_set_def find_opt_None)
    with None assms c copy show ?thesis by (auto simp: add_write_set_def xact_typed_def sets_copied_def copy_nram_key_def)
  next
    case (Some o')
    with assms(2) c have x': "x' = x\<lparr>write_set := replace_value (write_set x) k c\<rparr>" by (simp add: add_write_set_def)
    have "opt_type opt = XACT_OP_WRITE \<and> opt_xact_id opt = xact_id x \<and> copy_nram_value (opt_value opt) = Inr (opt_value opt)"
      if "opt \<in> set (replace_value (write_set x) k c)" for opt
      using replace_value_entries [OF that] assms(1) copy by (auto simp: xact_typed_def sets_copied_def)
    with assms(1) show ?thesis unfolding x' by (simp add: xact_typed_def sets_copied_def ball_Un)
  qed
qed

lemma sorted_typed: "xact_typed (x\<lparr>write_set := list_sort (write_set x)\<rparr>) = xact_typed x"
  by (simp add: xact_typed_def sets_copied_def distinct_list_sort)

subsection \<open>Programs that keep the state well-formed\<close>

named_theorems keeps_typed

definition keeps :: "('s, 'a) nram_m \<Rightarrow> bool" where
  "keeps m = (\<forall>env. env_typed env \<longrightarrow> env_typed (snd (m env)))"

lemma keepsD: "keeps m \<Longrightarrow> env_typed env \<Longrightarrow> m env = (r, env') \<Longrightarrow> env_typed env'"
  unfolding keeps_def by (metis snd_conv)

lemma keeps_basic [keeps_typed]:
  "keeps (nret x)" "keeps (nraise e)" "keeps (nlift r)" "keeps (nstore f)" "keeps nxact" "keeps next_tid" "keeps (tuple_value eoh cols)"
  by (simp_all add: keeps_def nram_m_defs next_tid_def tuple_value_def split: prod.split option.split)

lemma keeps_bind [keeps_typed]: "keeps m \<Longrightarrow> (\<And>x. keeps (f x)) \<Longrightarrow> keeps (nbind m f)"
  by (auto simp: keeps_def nbind_def split: prod.split sum.split dest: keepsD)

lemma keeps_bind_xact: "(\<And>x. xact_typed x \<Longrightarrow> keeps (f x)) \<Longrightarrow> keeps (nbind nxact f)"
  by (auto simp: keeps_def nbind_def nxact_def split: option.split dest: env_typedD)

lemma keeps_bind_lift: "(\<And>x. r = Inr x \<Longrightarrow> keeps (f x)) \<Longrightarrow> keeps (nbind (nlift r) f)"
  by (auto simp: keeps_def nbind_def nlift_def split: sum.split)

lemma keeps_set_xact: "xact_typed x \<Longrightarrow> keeps (nset_xact x)"
  by (auto simp: keeps_def nset_xact_def intro: env_typed_xact)

lemma keeps_if [keeps_typed]: "keeps m \<Longrightarrow> keeps n \<Longrightarrow> keeps (if b then m else n)"
  by simp

lemma keeps_option [keeps_typed]: "keeps m \<Longrightarrow> (\<And>x. keeps (f x)) \<Longrightarrow> keeps (case xo of None \<Rightarrow> m | Some x \<Rightarrow> f x)"
  by (cases xo) auto

lemma refresh_typed: "env_typed env \<Longrightarrow> env_typed (refresh_nram_xact env)"
  by (auto simp: refresh_nram_xact_def intro: env_typed_xact new_xact_typed split: option.split)

lemma keeps_refresh [keeps_typed]: "keeps nrefresh"
  by (simp add: keeps_def nrefresh_def refresh_typed)

lemma keeps_lock:
  assumes "\<And>pid rank lt. lock_ok lt \<Longrightarrow> lock_ok (snd (f pid rank lt))"
  shows "keeps (nlock f)"
  using assms by (auto simp: keeps_def nlock_def env_typed_def split: prod.split) (metis snd_conv)

lemma lock_functions_ok:
  assumes "lock_ok lt"
  shows "lock_ok (snd (nram_lock_for_scan pid rank db rel lt))" "lock_ok (snd (nram_lock_for_write pid rank db rel ip lt))"
    and "lock_ok (snd (nram_lock_for_read pid rank db rel ip lt))"
proof -
  have rel: "lock_ok (snd (LockRelation pid rank db rel m lt))" if "lock_ok lt" for m lt
    using LockAcquire_ok [OF that] by (auto simp: LockRelation_def split: prod.split sum.split LockAcquireResult.split)
  have tup: "lock_ok (snd (LockTuple pid rank db rel ip m lt))" if "lock_ok lt" for m lt
    using LockAcquire_ok [OF that] by (auto simp: LockTuple_def split: prod.split sum.split)
  show "lock_ok (snd (nram_lock_for_scan pid rank db rel lt))" using rel [OF assms] by (simp add: nram_lock_for_scan_def)
  show "lock_ok (snd (nram_lock_for_write pid rank db rel ip lt))" "lock_ok (snd (nram_lock_for_read pid rank db rel ip lt))"
    using rel [OF assms] tup by (auto simp: nram_lock_for_write_def nram_lock_for_read_def split: prod.split sum.split) (metis snd_conv)+
qed

lemma keeps_helpers [keeps_typed]:
  "keeps detects_all" "keeps (lock_write rel ip)" "keeps (lock_read rel ip)"
  "keeps (nlock (\<lambda>pid rank. nram_lock_for_scan pid rank db r))" "keeps (own_value k)" "keeps (store_slot rel k v)"
proof -
  show "keeps detects_all" by (auto simp: keeps_def detects_all_def nbind_def nxact_def split: option.split)
  show "keeps (lock_write rel ip)" "keeps (lock_read rel ip)" "keeps (nlock (\<lambda>pid rank. nram_lock_for_scan pid rank db r))"
    unfolding lock_write_def lock_read_def by (rule keeps_lock, simp add: lock_functions_ok)+
  show "keeps (own_value k)" "keeps (store_slot rel k v)" unfolding own_value_def store_slot_def by (intro keeps_typed)+
qed

lemma keeps_records [keeps_typed]: "keeps (record_read k v)" "keeps (record_write k v)"
  unfolding record_read_def record_write_def
  by (auto intro!: keeps_bind_xact keeps_bind_lift keeps_set_xact intro: add_read_set_typed add_write_set_typed)

lemma keeps_lock_access [keeps_typed]: "keeps (lock_access rel ip)"
  unfolding lock_access_def by (intro keeps_typed)

lemma keeps_reload_row [keeps_typed]: "keeps (reload_row io rel k v)"
  unfolding reload_row_def by (intro keeps_typed)

lemma keeps_next_row [keeps_typed]: "keeps (next_row io rel rows)"
  by (induction rows) (auto intro!: keeps_typed)

lemma keeps_insert_row [keeps_typed]: "keeps (insert_row io eoh failed rel cols)"
  unfolding insert_row_def Let_def by (intro keeps_typed)

lemma keeps_multi_insert [keeps_typed]: "keeps (multi_insert_loop io eoh rel slots)"
  by (induction slots) (auto intro!: keeps_typed)

subsection \<open>The callbacks\<close>

lemma keeps_store_found [keeps_typed]: "keeps (nbind (store_slot rel k v) (\<lambda>slot. nret (f slot)))"
  by (intro keeps_typed)

lemma keeps_callbacks:
  "keeps (nram_beginscan io rel)" "keeps (nram_getnextslot io sscan d)" "keeps (nram_endscan sscan)"
  "keeps (nram_index_fetch_tuple io rel ip)" "keeps (nram_fetch_row_version io rel ip)"
  "keeps (nram_tuple_insert io eoh rel cols)" "keeps (nram_multi_insert io eoh rel slots)"
  "keeps (nram_tuple_update eoh rel ip cols)" "keeps (nram_tuple_delete rel ip)"
proof -
  show "keeps (nram_getnextslot io sscan d)"
    unfolding nram_getnextslot_def by (intro keeps_typed) (simp split: prod.split, intro allI impI keeps_typed)
  show "keeps (nram_beginscan io rel)" "keeps (nram_endscan sscan)"
    unfolding nram_beginscan_def nram_endscan_def Let_def by (intro keeps_typed)+
  show "keeps (nram_index_fetch_tuple io rel ip)" "keeps (nram_fetch_row_version io rel ip)"
    unfolding nram_index_fetch_tuple_def nram_fetch_row_version_def Let_def by (intro keeps_typed)+
  show "keeps (nram_tuple_insert io eoh rel cols)" "keeps (nram_multi_insert io eoh rel slots)" "keeps (nram_tuple_update eoh rel ip cols)"
      "keeps (nram_tuple_delete rel ip)"
    unfolding nram_tuple_insert_def nram_insert_def nram_multi_insert_def nram_tuple_update_def Let_def
      nram_tuple_delete_def nram_unsupported_def by (intro keeps_typed)+
qed

lemma encode_feature_bound: "unat (encode_feature_10bit f) < MAX_XACT_FEATURE_SPACE"
  by (auto simp: encode_feature_value MAX_XACT_FEATURE_SPACE_def min_def)

lemma keeps_before_access:
  assumes "xact_typed x"
  shows "keeps (before_access x)"
proof -
  have "xact_typed (x\<lparr>feature := f\<rparr>)" "xact_typed (x\<lparr>feature := f, action := Some (unat (encode_feature_10bit g))\<rparr>)" for f g
    using assms encode_feature_bound [of g] by (simp_all add: xact_typed_def sets_copied_def)
  then show ?thesis
    by (auto simp: keeps_def before_access_def Let_def env_typed_def split: sum.split)
qed

lemma keeps_executor: "keeps (nram_ExecutorStart qd)" "keeps nram_ExecutorEnd"
proof -
  have "xact_typed (x\<lparr>cmdtype_stack := (if cmdtype_depth x < NRAM_CMD_STACK_MAX then (cmdtype_stack x)[cmdtype_depth x := ct] else cmdtype_stack x),
      cmdtype_depth := min (cmdtype_depth x + 1) NRAM_CMD_STACK_MAX, cur_cmdtype := ct\<rparr>)" if "xact_typed x" for x ct
    using that by (simp add: xact_typed_def sets_copied_def)
  then show "keeps (nram_ExecutorStart qd)"
    unfolding nram_ExecutorStart_def Let_def
    by (intro keeps_bind keeps_refresh keeps_bind_xact keeps_before_access)
  have "xact_typed (x\<lparr>cmdtype_depth := cmdtype_depth x - 1, cur_cmdtype := ct\<rparr>)" if "xact_typed x" for x ct
    using that by (auto simp: xact_typed_def sets_copied_def)
  then show "keeps nram_ExecutorEnd"
    unfolding nram_ExecutorEnd_def Let_def
    by (intro keeps_bind keeps_refresh keeps_bind_xact keeps_if keeps_set_xact keeps_basic(1))
qed

lemma keeps_load_policy: "keeps (nram_load_policy fs path)"
proof -
  have "length act' = MAX_XACT_FEATURE_SPACE"
    if "env_typed env" "load_agent_function fs (Some path) (env_policy env) = (r, Some act')" for env :: "'s nram_env" and r act'
  proof (cases "env_policy env")
    case None
    with that(2) show ?thesis by (simp add: load_agent_function_def)
  next
    case (Some act)
    with that load_agent_function_length [of fs "Some path" act r act'] show ?thesis by (simp add: env_typed_def)
  qed
  then show ?thesis by (auto simp: keeps_def nram_load_policy_def env_typed_def split: prod.split)
qed

subsection \<open>The transaction callback\<close>

lemma lock_write_set_ok: "lock_ok lt \<Longrightarrow> lock_write_set pid rank opts (tmo, lt) = (r, tmo', lt') \<Longrightarrow> lock_ok lt'"
proof (induction opts arbitrary: tmo lt)
  case (Cons opt opts)
  obtain q tmo1 lt1 where lock: "nram_validation_lock pid rank (opt_key opt) ExclusiveLock (tmo, lt) = (q, tmo1, lt1)" by (metis prod.exhaust)
  with validation_lock_effect(2) [OF lock Cons.prems(1)] Cons show ?case by (cases q) auto
qed simp

lemma check_read_ok: "lock_ok lt \<Longrightarrow> check_read io pid opt r (lt, s) = (q, lt', s') \<Longrightarrow> lock_ok lt'"
  using release_effect(2) [OF refl, of lt pid "opt_key opt" ShareLock]
  by (auto simp: check_read_def split: prod.splits sum.splits option.splits if_splits)

lemma validate_reads_ok: "lock_ok lt \<Longrightarrow> validate_reads io pid rank opts (lt, s) = (q, lt', s') \<Longrightarrow> lock_ok lt'"
proof (induction opts arbitrary: lt s)
  case (Cons opt opts)
  obtain r lt1 where att: "nram_try_validation_lock pid rank (opt_key opt) ShareLock lt = (r, lt1)" by force
  have ok: "lock_ok lt1" by (rule try_lock_effect(2) [OF att Cons.prems(1)])
  show ?case
  proof (cases "\<exists>a. r = Inr a \<and> a \<noteq> LOCKACQUIRE_NOT_AVAIL")
    case True
    then obtain a where a: "r = Inr a" "a \<noteq> LOCKACQUIRE_NOT_AVAIL" by blast
    obtain c lt2 s2 where c: "check_read io pid opt a (lt1, s) = (c, lt2, s2)" by (metis prod.exhaust)
    have "(q, lt', s') = (case c of Inl e \<Rightarrow> (Inl e, lt2, s2) | Inr _ \<Rightarrow> validate_reads io pid rank opts (lt2, s2))"
      using Cons.prems(2) att a c by (cases a) (auto split: sum.splits)
    with Cons.IH [OF check_read_ok [OF ok c]] check_read_ok [OF ok c] show ?thesis by (cases c) auto
  next
    case False
    with Cons.prems(2) att ok show ?thesis by (auto split: sum.splits LockAcquireResult.splits)
  qed
qed simp

lemma install_writes_ok: "lock_ok lt \<Longrightarrow> install_writes io pid opts (lt, s) = (q, lt', s') \<Longrightarrow> lock_ok lt'"
proof (induction opts arbitrary: lt s)
  case (Cons opt opts)
  with release_effect(2) [OF refl, of lt pid "opt_key opt" ExclusiveLock] show ?case by (auto split: prod.splits sum.splits)
qed simp

lemma pre_commit_typed:
  assumes "env_typed env" "xact_typed x" "pre_commit io x env = (r, env')"
  shows "env_typed env'"
proof -
  let ?ws = "list_sort (write_set x)" and ?pid = "be_pid env"
  obtain q tmo lt where lock: "lock_write_set ?pid (be_rank env) ?ws (LockTimeout env, env_locks env) = (q, tmo, lt)" by (metis prod.exhaust)
  obtain q2 lt2 s2 where val: "validation_phase io x env lt = (q2, lt2, s2)" by (metis prod.exhaust)
  obtain q3 lt3 s3 where ins: "install_writes io ?pid ?ws (lt2, s2) = (q3, lt3, s3)" by (metis prod.exhaust)
  have x: "xact_typed (x\<lparr>write_set := ?ws\<rparr>)" "xact_typed (x\<lparr>write_set := ?ws, validated := True\<rparr>)"
    using assms(2) sorted_typed [of x] by (simp_all add: xact_typed_def sets_copied_def)
  have lt: "lock_ok lt" using lock_write_set_ok [OF _ lock] assms(1) by (simp add: env_typed_def)
  then have lt2: "lock_ok lt2" using val validate_reads_ok [of lt] by (auto simp: validation_phase_def split: if_splits)
  have lt3: "lock_ok lt3" by (rule install_writes_ok [OF lt2 ins])
  show ?thesis
    using assms lock val ins x lt lt2 lt3
    by (cases q; cases q2) (auto simp: pre_commit_def env_typed_def split: if_splits)
qed

lemma xact_callback_typed:
  assumes typed: "env_typed env"
  shows "env_typed (snd (nram_xact_callback io ev env))"
proof -
  have ref: "env_typed (refresh_nram_xact env)" by (rule refresh_typed [OF typed])
  have pre: "env_typed (snd (pre_commit io x (refresh_nram_xact env)))" if "current_nram_xact (refresh_nram_xact env) = Some x" for x
    using pre_commit_typed [OF ref env_typedD [OF ref that]] by (metis prod.collapse)
  have "env_typed (clear_nram_xact (refresh_nram_xact env))" using ref by (simp add: clear_nram_xact_def env_typed_def)
  with typed ref pre show ?thesis
    by (cases ev) (auto simp: nram_xact_callback_def Let_def split: option.split)
qed

lemma keeps_xact_callback: "keeps (nram_xact_callback io ev)"
  by (simp add: keeps_def xact_callback_typed)

lemma keeps_backend_step: "keeps (backend_step io eoh fs c)"
proof (cases c)
  case (Release_locks tag)
  then show ?thesis by (simp add: keeps_def env_typed_def ProcReleaseLocks_ok)
qed (simp_all add: ignore_def keeps_bind keeps_basic keeps_callbacks keeps_executor keeps_load_policy keeps_xact_callback,
  simp_all add: keeps_def)

text \<open>
  C8: whatever calls the core makes in whatever order, and whatever the storage answers, the
  state of a backend keeps its types. The read set has reads and the write set has writes of the
  transaction, one for each key, with values of their own; the stack of commands has its size and
  its depth stays inside of it; the action points into the policy, which has its 32 entries; and
  no two processes hold conflicting locks.
\<close>

theorem backend_state_typed:
  assumes "env_typed env"
  shows "env_typed (backend_run io eoh fs calls env)"
  using assms
proof (induction calls arbitrary: env)
  case (Cons c calls)
  from keeps_backend_step Cons.prems have "env_typed (snd (backend_step io eoh fs c env))" unfolding keeps_def by blast
  from Cons.IH [OF this] show ?case by simp
qed simp

theorem backend_state_typed_witness:
  "env_typed (backend_run (rocks_client log_store [0, 0] [] [] (\<lambda>_. [])) id (\<lambda>_. None)
     [Executor_start (Some CMD_INSERT), Tuple_insert sample_rel sample_cols, Executor_end, Xact_event XACT_EVENT_PRE_COMMIT,
      Xact_event XACT_EVENT_COMMIT, Release_locks None]
     (sample_backend 5 (the (NewNRAMXactState 9))))"
proof (rule backend_state_typed)
  have "xact_typed (the (NewNRAMXactState 9))" by (rule new_xact_typed [of 9]) (simp add: NewNRAMXactState_def)
  then show "env_typed (sample_backend 5 (the (NewNRAMXactState 9)))"
    by (simp add: env_typed_def sample_backend_def lock_ok_def no_locks_def holds_def builtin_policy_def)
qed

end
