(* ===== verification/NS_Bits.thy ===== *)
theory NS_Bits
  imports NR_Prelude
begin

text \<open>
  Bit packing of quantized tensors in the model store:
  \<^verbatim>\<open>nr_store/src/neurstore/compress/utils/bit_utils.cpp\<close>. Each element of a vector of 32-bit
  integers is stored with \<open>nbits\<close> bits, low bit first, without padding.

  There are two implementations, one bit by bit and one in blocks of 64 bits for machines with
  AVX2. The vector registers only hold values between a masked load and a store; they are lists
  here. \<^verbatim>\<open>bit_offset\<close> is an \<^verbatim>\<open>int\<close> in the first writer and has 64 bits everywhere else.
\<close>

section \<open>Bit by bit\<close>

definition bit_mask :: "nat \<Rightarrow> u32" where
  "bit_mask nbits = (if nbits = 32 then 0xffffffff else push_bit nbits 1 - 1)"

definition total_bytes :: "nat \<Rightarrow> nat \<Rightarrow> nat" where
  "total_bytes nelements nbits = (nelements * nbits + 7) div 8"

definition set_packed :: "byte list \<Rightarrow> nat \<Rightarrow> nr_error + byte list" where
  "set_packed packed this_bit =
     (let byte_index = this_bit div 8; bit_in_byte = this_bit mod 8 in
      if byte_index < length packed
      then Inr (packed[byte_index := packed ! byte_index OR push_bit bit_in_byte 1])
      else Inl Bad_memory)"

text \<open>The loop over the bits \<open>b\<close> of one element.\<close>

fun write_element :: "u32 \<Rightarrow> nat \<Rightarrow> nat list \<Rightarrow> byte list \<Rightarrow> nr_error + byte list" where
  "write_element val bit_offset [] packed = Inr packed"
| "write_element val bit_offset (b # bs) packed =
     (if val AND push_bit b 1 \<noteq> 0
      then ebind (set_packed packed (bit_offset + b)) (write_element val bit_offset bs)
      else write_element val bit_offset bs packed)"

fun write_naive_loop :: "nat \<Rightarrow> u32 list \<Rightarrow> nat \<Rightarrow> byte list \<Rightarrow> nr_error + byte list" where
  "write_naive_loop nbits [] bit_offset packed = Inr packed"
| "write_naive_loop nbits (v # vs) bit_offset packed =
     (if bit_offset + nbits \<ge> 2 ^ 31 then Inl Bad_memory
      else ebind (write_element (v AND bit_mask nbits) bit_offset [0..<nbits] packed)
             (write_naive_loop nbits vs (bit_offset + nbits)))"

definition writeBitsNaive :: "u32 list \<Rightarrow> int \<Rightarrow> nr_error + byte list" where
  "writeBitsNaive vector nbits =
     (if nbits < 0 \<or> nbits > 32 then Inl (Elog ''BitUtil::writeBits: nbits must be between 0 and 32.'')
      else if vector = [] then Inr []
      else write_naive_loop (nat nbits) vector 0 (replicate (total_bytes (length vector) (nat nbits)) 0))"

fun read_element :: "byte list \<Rightarrow> nat \<Rightarrow> nat list \<Rightarrow> u32 \<Rightarrow> nr_error + u32" where
  "read_element packed bit_offset [] val = Inr val"
| "read_element packed bit_offset (b # bs) val =
     (let byte_index = (bit_offset + b) div 8; bit_in_byte = (bit_offset + b) mod 8 in
      if byte_index < length packed
      then read_element packed bit_offset bs
             (if packed ! byte_index AND push_bit bit_in_byte 1 \<noteq> 0 then val OR push_bit b 1 else val)
      else Inl Bad_memory)"

fun read_loop :: "byte list \<Rightarrow> nat \<Rightarrow> nat \<Rightarrow> nat \<Rightarrow> nr_error + u32 list" where
  "read_loop packed nbits bit_offset 0 = Inr []"
| "read_loop packed nbits bit_offset (Suc left) =
     ebind (read_element packed bit_offset [0..<nbits] 0) (\<lambda>val.
       ebind (read_loop packed nbits (bit_offset + nbits) left) (\<lambda>vals. Inr (val # vals)))"

definition readBitsNaive :: "byte list \<Rightarrow> int \<Rightarrow> nat \<Rightarrow> nr_error + u32 list" where
  "readBitsNaive packed nbits nelements =
     (if nbits < 0 \<or> nbits > 32 then Inl (Elog ''BitUtil::readBitsNaive: nbits must be between 0 and 32.'')
      else if length packed < total_bytes nelements (nat nbits)
      then Inl (Elog ''BitUtil::readBitsNaive: packed_bytes is too small for the given nbits*nelements'')
      else read_loop packed (nat nbits) 0 nelements)"

section \<open>In blocks of 64 bits\<close>

definition batch_size :: "nat \<Rightarrow> nat" where
  "batch_size nbits = (if nbits \<le> 8 then 8 else if nbits \<le> 16 then 4 else 2)"

fun pack_acc :: "nat \<Rightarrow> nat \<Rightarrow> u32 list \<Rightarrow> u64 \<Rightarrow> u64" where
  "pack_acc nbits k [] acc = acc"
| "pack_acc nbits k (v # vs) acc = pack_acc nbits (Suc k) vs (acc OR push_bit (k * nbits) (ucast v))"

text \<open>The \<^verbatim>\<open>memcpy\<close> of up to eight bytes from and to the position of the block.\<close>

definition load_block :: "byte list \<Rightarrow> nat \<Rightarrow> u64" where
  "load_block packed byte_index = (let bs = take 8 (drop byte_index packed) in le_word (bs @ replicate (8 - length bs) 0))"

definition store_block :: "byte list \<Rightarrow> nat \<Rightarrow> u64 \<Rightarrow> byte list" where
  "store_block packed byte_index w =
     take byte_index packed @ take (length packed - byte_index) (le_bytes w) @ drop (byte_index + 8) packed"

definition write_block :: "nat \<Rightarrow> u32 list \<Rightarrow> nat \<Rightarrow> byte list \<Rightarrow> byte list" where
  "write_block nbits vals bit_offset packed =
     (let acc = pack_acc nbits 0 (map (\<lambda>v. v AND bit_mask nbits) vals) 0;
          byte_index = bit_offset div 8; local_shift = bit_offset mod 8;
          merged = load_block packed byte_index OR push_bit local_shift acc
      in store_block packed byte_index merged)"

fun write_tail :: "nat \<Rightarrow> u32 list \<Rightarrow> nat \<Rightarrow> byte list \<Rightarrow> nr_error + byte list" where
  "write_tail nbits [] bit_offset packed = Inr packed"
| "write_tail nbits (v # vs) bit_offset packed =
     ebind (write_element (v AND bit_mask nbits) bit_offset [0..<nbits] packed) (write_tail nbits vs (bit_offset + nbits))"

lemma batch_size_pos [simp]: "0 < batch_size nbits"
  by (simp add: batch_size_def)

function write_blocks :: "nat \<Rightarrow> u32 list \<Rightarrow> nat \<Rightarrow> byte list \<Rightarrow> nr_error + byte list" where
  "write_blocks nbits vec bit_offset packed =
     (if length vec < batch_size nbits then write_tail nbits vec bit_offset packed
      else write_blocks nbits (drop (batch_size nbits) vec) (bit_offset + batch_size nbits * nbits)
             (write_block nbits (take (batch_size nbits) vec) bit_offset packed))"
  by pat_completeness auto
termination
proof (relation "measure (\<lambda>(nbits, vec, bit_offset, packed). length vec)")
  fix nbits :: nat and vec :: "u32 list" and bit_offset :: nat and packed :: "byte list"
  assume "\<not> length vec < batch_size nbits"
  then show "((nbits, drop (batch_size nbits) vec, bit_offset + batch_size nbits * nbits,
        write_block nbits (take (batch_size nbits) vec) bit_offset packed), nbits, vec, bit_offset, packed)
      \<in> measure (\<lambda>(nbits, vec, bit_offset, packed). length vec)"
    using batch_size_pos [of nbits] by (simp del: batch_size_pos)
qed simp

declare write_blocks.simps [simp del]

definition writeBitsAVX2 :: "u32 list \<Rightarrow> int \<Rightarrow> nr_error + byte list" where
  "writeBitsAVX2 vec nbits =
     (if nbits < 0 \<or> nbits > 32 then Inl (Elog ''writeBits: nbits must be in [0..32]'')
      else if vec = [] then Inr []
      else write_blocks (nat nbits) vec 0 (replicate (total_bytes (length vec) (nat nbits)) 0))"

text \<open>\<open>avx2\<close>: whether the program is compiled for AVX2.\<close>

definition writeBits :: "bool \<Rightarrow> u32 list \<Rightarrow> int \<Rightarrow> nr_error + byte list" where
  "writeBits avx2 vector nbits = (if avx2 then writeBitsAVX2 vector nbits else writeBitsNaive vector nbits)"

definition read_block :: "byte list \<Rightarrow> nat \<Rightarrow> nat \<Rightarrow> u32 list" where
  "read_block packed nbits bit_offset =
     (let acc = drop_bit (bit_offset mod 8) (load_block packed (bit_offset div 8)) in
      map (\<lambda>k. ucast (drop_bit (k * nbits) acc) AND bit_mask nbits) [0..<batch_size nbits])"

function read_blocks :: "byte list \<Rightarrow> nat \<Rightarrow> nat \<Rightarrow> nat \<Rightarrow> nr_error + u32 list" where
  "read_blocks packed nbits bit_offset left =
     (if left < batch_size nbits then read_loop packed nbits bit_offset left
      else ebind (read_blocks packed nbits (bit_offset + batch_size nbits * nbits) (left - batch_size nbits)) (\<lambda>vals.
             Inr (read_block packed nbits bit_offset @ vals)))"
  by pat_completeness auto
termination
proof (relation "measure (\<lambda>(packed, nbits, bit_offset, left). left)")
  fix nbits left bit_offset :: nat and packed :: "byte list"
  assume "\<not> left < batch_size nbits"
  then show "((packed, nbits, bit_offset + batch_size nbits * nbits, left - batch_size nbits), packed, nbits, bit_offset, left)
      \<in> measure (\<lambda>(packed, nbits, bit_offset, left). left)"
    using batch_size_pos [of nbits] by (simp del: batch_size_pos)
qed simp

declare read_blocks.simps [simp del]

definition readBitsAVX2 :: "byte list \<Rightarrow> int \<Rightarrow> nat \<Rightarrow> nr_error + u32 list" where
  "readBitsAVX2 packed nbits nelements =
     (if nbits < 0 \<or> nbits > 32 then Inl (Elog ''readBitsAVX2: nbits must be in [0..32]'')
      else if nelements = 0 then Inr []
      else if length packed < total_bytes nelements (nat nbits) then Inl (Elog ''readBitsAVX2: input buffer too small'')
      else read_blocks packed (nat nbits) 0 nelements)"

definition readBits :: "bool \<Rightarrow> byte list \<Rightarrow> int \<Rightarrow> nat \<Rightarrow> nr_error + u32 list" where
  "readBits avx2 packed nbits nelements =
     (if avx2 then readBitsAVX2 packed nbits nelements else readBitsNaive packed nbits nelements)"

section \<open>The bits of a byte array\<close>

definition packed_bit :: "byte list \<Rightarrow> nat \<Rightarrow> bool" where
  "packed_bit packed j = bit (packed ! (j div 8)) (j mod 8)"

text \<open>Bit \<open>j\<close> of the elements when they are packed from bit \<open>off\<close> on.\<close>

definition value_bit :: "nat \<Rightarrow> u32 list \<Rightarrow> nat \<Rightarrow> nat \<Rightarrow> bool" where
  "value_bit n vs off j = (off \<le> j \<and> j - off < n * length vs \<and> bit (vs ! ((j - off) div n)) ((j - off) mod n))"

text \<open>The second array is the first with these bits added.\<close>

definition adds :: "nat \<Rightarrow> u32 list \<Rightarrow> nat \<Rightarrow> byte list \<Rightarrow> byte list \<Rightarrow> bool" where
  "adds n vs off packed packed' = (length packed' = length packed \<and>
     (\<forall>j < 8 * length packed. packed_bit packed' j = (packed_bit packed j \<or> value_bit n vs off j)))"

lemma bit_mask_eq: "n \<le> 32 \<Longrightarrow> bit_mask n = mask n"
  by (auto simp: bit_mask_def mask_eq_exp_minus_1 push_bit_eq_mult)

lemma bit_masked: "n \<le> 32 \<Longrightarrow> bit (v AND bit_mask n) b \<longleftrightarrow> b < n \<and> bit v b"
  by (auto simp: bit_mask_eq bit_simps dest: bit_imp_le_length)

lemma packed_ext:
  assumes "length a = length b" "\<forall>j < 8 * length a. packed_bit a j = packed_bit b j"
  shows "a = b"
proof (rule nth_equalityI [OF assms(1)])
  fix i assume i: "i < length a"
  show "a ! i = b ! i"
  proof (rule bit_word_eqI)
    fix m assume m: "m < LENGTH(8)"
    then have "8 * i + m < 8 * length a" using i by simp
    with assms(2) have "packed_bit a (8 * i + m) = packed_bit b (8 * i + m)" by blast
    with m show "bit (a ! i) m = bit (b ! i) m" by (simp add: packed_bit_def)
  qed
qed

lemma adds_unique: "adds n vs off packed a \<Longrightarrow> adds n vs off packed b \<Longrightarrow> a = b"
  unfolding adds_def by (rule packed_ext) simp_all

lemma value_bit_append: "value_bit n (vs @ ws) off j \<longleftrightarrow> value_bit n vs off j \<or> value_bit n ws (off + n * length vs) j"
proof (cases "off \<le> j \<and> j - off < n * length vs")
  case True
  then have "(j - off) div n < length vs" by (simp add: less_mult_imp_div_less mult.commute)
  with True show ?thesis by (auto simp: value_bit_def nth_append add_mult_distrib2)
next
  case False
  show ?thesis
  proof (cases "off \<le> j \<and> n > 0")
    case True
    with False obtain d where d: "j - off = n * length vs + d" by (metis le_add_diff_inverse not_less)
    then have "(j - off) div n = length vs + d div n" "(j - off) mod n = d mod n" "j - (off + n * length vs) = d" "off + n * length vs \<le> j"
      using True by auto
    with d show ?thesis by (auto simp: value_bit_def nth_append add_mult_distrib2)
  qed (auto simp: value_bit_def)
qed

lemma value_bit_single: "value_bit n [v] off j \<longleftrightarrow> off \<le> j \<and> j - off < n \<and> bit v (j - off)"
  by (auto simp: value_bit_def)

lemma adds_append: "adds n vs off a b \<Longrightarrow> adds n ws (off + n * length vs) b c \<Longrightarrow> adds n (vs @ ws) off a c"
  by (simp add: adds_def value_bit_append)

section \<open>The writers add the bits\<close>

lemma set_packed_bit:
  assumes "t < 8 * length packed"
  shows "\<exists>packed'. set_packed packed t = Inr packed' \<and> length packed' = length packed \<and>
           (\<forall>j < 8 * length packed. packed_bit packed' j = (packed_bit packed j \<or> j = t))"
proof -
  let ?p = "packed[t div 8 := packed ! (t div 8) OR push_bit (t mod 8) 1]"
  have i: "t div 8 < length packed" using assms by auto
  have "packed_bit ?p j = (packed_bit packed j \<or> j = t)" for j
  proof (cases "j div 8 = t div 8")
    case True
    then have "j = t \<longleftrightarrow> j mod 8 = t mod 8" by (metis mult_div_mod_eq)
    with True i show ?thesis by (auto simp: packed_bit_def bit_simps)
  next
    case False
    then show ?thesis by (auto simp: packed_bit_def)
  qed
  with i show ?thesis by (auto simp: set_packed_def Let_def)
qed

lemma write_element_bits:
  assumes "\<forall>b \<in> set bs. off + b < 8 * length packed"
  shows "\<exists>packed'. write_element val off bs packed = Inr packed' \<and> length packed' = length packed \<and>
           (\<forall>j < 8 * length packed. packed_bit packed' j = (packed_bit packed j \<or> (\<exists>b \<in> set bs. bit val b \<and> j = off + b)))"
  using assms
proof (induction bs arbitrary: packed)
  case (Cons b bs)
  show ?case
  proof (cases "bit val b")
    case True
    obtain p1 where p1: "set_packed packed (off + b) = Inr p1" "length p1 = length packed"
        "\<forall>j < 8 * length packed. packed_bit p1 j = (packed_bit packed j \<or> j = off + b)"
      using set_packed_bit [of "off + b" packed] Cons.prems by auto
    obtain p2 where "write_element val off bs p1 = Inr p2" "length p2 = length p1"
        "\<forall>j < 8 * length p1. packed_bit p2 j = (packed_bit p1 j \<or> (\<exists>b \<in> set bs. bit val b \<and> j = off + b))"
      using Cons.IH [of p1] Cons.prems p1(2) by auto
    with p1 True show ?thesis by (intro exI [of _ p2]) (auto simp: bit_iff_and_push_bit_not_eq_0)
  next
    case False
    with Cons show ?thesis by (auto simp: bit_iff_and_push_bit_not_eq_0)
  qed
qed simp

lemma write_element_adds:
  assumes "n \<le> 32" "off + n \<le> 8 * length packed"
  shows "\<exists>packed'. write_element (v AND bit_mask n) off [0..<n] packed = Inr packed' \<and> adds n [v] off packed packed'"
proof -
  obtain p where p: "write_element (v AND bit_mask n) off [0..<n] packed = Inr p" "length p = length packed"
      "\<forall>j < 8 * length packed. packed_bit p j = (packed_bit packed j \<or> (\<exists>b \<in> set [0..<n]. bit (v AND bit_mask n) b \<and> j = off + b))"
    using write_element_bits [of "[0..<n]" off packed "v AND bit_mask n"] assms(2) by auto
  have "(\<exists>b \<in> set [0..<n]. bit (v AND bit_mask n) b \<and> j = off + b) = value_bit n [v] off j" for j
    using bit_masked [OF assms(1)] by (auto simp: value_bit_single intro: bexI [of _ "j - off"])
  with p show ?thesis by (auto simp: adds_def)
qed

lemma write_naive_adds:
  assumes "n \<le> 32" "off + n * length vs \<le> 8 * length packed" "off + n * length vs < 2 ^ 31"
  shows "\<exists>packed'. write_naive_loop n vs off packed = Inr packed' \<and> adds n vs off packed packed'"
  using assms
proof (induction vs arbitrary: off packed)
  case Nil
  then show ?case by (simp add: adds_def value_bit_def)
next
  case (Cons v vs)
  obtain p1 where p1: "write_element (v AND bit_mask n) off [0..<n] packed = Inr p1" "adds n [v] off packed p1"
    using write_element_adds [of n off packed v] Cons.prems by auto
  then have len: "length p1 = length packed" by (simp add: adds_def)
  obtain p2 where "write_naive_loop n vs (off + n) p1 = Inr p2" "adds n vs (off + n) p1 p2"
    using Cons.IH [of "off + n" p1] Cons.prems len by auto
  with p1 Cons.prems adds_append [OF p1(2), of vs p2] show ?case by auto
qed

lemma write_tail_adds:
  assumes "n \<le> 32" "off + n * length vs \<le> 8 * length packed"
  shows "\<exists>packed'. write_tail n vs off packed = Inr packed' \<and> adds n vs off packed packed'"
  using assms
proof (induction vs arbitrary: off packed)
  case Nil
  then show ?case by (simp add: adds_def value_bit_def)
next
  case (Cons v vs)
  obtain p1 where p1: "write_element (v AND bit_mask n) off [0..<n] packed = Inr p1" "adds n [v] off packed p1"
    using write_element_adds [of n off packed v] Cons.prems by auto
  then have len: "length p1 = length packed" by (simp add: adds_def)
  obtain p2 where "write_tail n vs (off + n) p1 = Inr p2" "adds n vs (off + n) p1 p2"
    using Cons.IH [of "off + n" p1] Cons.prems len by auto
  with p1 adds_append [OF p1(2), of vs p2] show ?case by auto
qed

section \<open>Blocks\<close>

lemma bit_bytes_nat: "bit (bytes_nat bs) j \<longleftrightarrow> j div 8 < length bs \<and> bit (bs ! (j div 8)) (j mod 8)"
proof (induction bs arbitrary: j)
  case (Cons b bs)
  have unat: "bit (unat b) m = bit b m" for m by (simp only: bit_unsigned_iff) simp
  have low: "\<not> bit (unat b) m" if "8 \<le> m" for m
    using that bit_imp_le_length [of b m] unfolding unat by auto
  have "unat b AND push_bit 8 (bytes_nat bs) = 0"
  proof (rule bit_eqI)
    fix m show "bit (unat b AND push_bit 8 (bytes_nat bs)) m = bit 0 m"
      using low [of m] by (simp only: bit_and_iff bit_push_bit_iff_nat bit_0_eq) auto
  qed
  then have "unat b + push_bit 8 (bytes_nat bs) = unat b OR push_bit 8 (bytes_nat bs)"
    by (rule disjunctive_add_eq_or)
  then have "bytes_nat (b # bs) = unat b OR push_bit 8 (bytes_nat bs)" by (simp add: push_bit_eq_mult mult.commute)
  then have "bit (bytes_nat (b # bs)) j \<longleftrightarrow> bit (unat b) j \<or> 8 \<le> j \<and> bit (bytes_nat bs) (j - 8)"
    by (simp only: bit_or_iff bit_push_bit_iff_nat)
  also have "\<dots> \<longleftrightarrow> j div 8 < length (b # bs) \<and> bit ((b # bs) ! (j div 8)) (j mod 8)"
  proof (cases "8 \<le> j")
    case True
    then have "j div 8 = Suc ((j - 8) div 8)" "j mod 8 = (j - 8) mod 8" by (simp_all add: le_div_geq le_mod_geq)
    with True low [of j] Cons.IH [of "j - 8"] show ?thesis by simp
  qed (simp add: unat)
  finally show ?case .
qed simp

lemma bit_of_nat_u64: "bit (of_nat x :: u64) j \<longleftrightarrow> j < 64 \<and> bit x j"
proof -
  have "bit (unat (of_nat x :: u64)) j = bit (of_nat x :: u64) j"
    by (simp only: bit_unsigned_iff) simp
  then show ?thesis by (simp add: unsigned_of_nat bit_take_bit_iff)
qed

lemma bit_le_word: "bit (le_word bs :: u64) j \<longleftrightarrow> j < 64 \<and> j div 8 < length bs \<and> bit (bs ! (j div 8)) (j mod 8)"
  by (simp add: le_word_def bit_of_nat_u64 bit_bytes_nat)

lemma bit_le_bytes: "i < 8 \<Longrightarrow> k < 8 \<Longrightarrow> bit (le_bytes (w :: u64) ! i) k = bit w (8 * i + k)"
  using bit_le_word [of "le_bytes w" "8 * i + k"] by simp

lemma bit_load_block:
  "bit (load_block packed bi) m \<longleftrightarrow> m < 64 \<and> 8 * bi + m < 8 * length packed \<and> packed_bit packed (8 * bi + m)"
proof (cases "m < 64")
  case True
  then have i: "m div 8 < 8" by auto
  have pos: "(8 * bi + m) div 8 = bi + m div 8" "(8 * bi + m) mod 8 = m mod 8" by simp_all
  have inside: "8 * bi + m < 8 * length packed \<longleftrightarrow> m div 8 < length packed - bi" by auto
  show ?thesis
  proof (cases "m div 8 < length packed - bi")
    case True
    then have "(take 8 (drop bi packed) @ rest) ! (m div 8) = packed ! (bi + m div 8)" for rest
      using i by (simp add: nth_append)
    with True i \<open>m < 64\<close> inside show ?thesis by (simp add: load_block_def Let_def bit_le_word packed_bit_def pos)
  next
    case False
    then have "(take 8 (drop bi packed) @ replicate (8 - length (take 8 (drop bi packed))) 0) ! (m div 8) = 0"
      using i by (simp add: nth_append)
    with False i \<open>m < 64\<close> inside show ?thesis by (simp add: load_block_def Let_def bit_le_word)
  qed
qed (simp add: load_block_def Let_def bit_le_word)

lemma store_block_bits:
  assumes "bi \<le> length packed" "j < 8 * length packed"
  shows "packed_bit (store_block packed bi w) j =
     (if 8 * bi \<le> j \<and> j < 8 * bi + 64 then bit w (j - 8 * bi) else packed_bit packed j)"
proof -
  have j: "j div 8 < length packed" using assms(2) by auto
  consider "j div 8 < bi" | "bi \<le> j div 8" "j div 8 < bi + 8" | "bi + 8 \<le> j div 8" by linarith
  then show ?thesis
  proof cases
    case 1
    then have "\<not> 8 * bi \<le> j" by auto
    with 1 assms(1) show ?thesis by (simp add: store_block_def packed_bit_def nth_append)
  next
    case 2
    then obtain i where i: "j div 8 = bi + i" "i < 8" "i < length packed - bi" using j by (metis add_diff_cancel_left' add_less_cancel_left diff_less_mono le_Suc_ex le_add1)
    have "j - 8 * bi = 8 * i + j mod 8" "8 * bi \<le> j" "j < 8 * bi + 64"
      using i mult_div_mod_eq [of 8 j] by auto
    moreover have "store_block packed bi w ! (j div 8) = le_bytes w ! i"
      using i j assms(1) by (simp add: store_block_def nth_append less_diff_conv2)
    ultimately show ?thesis using i(2) by (simp add: packed_bit_def bit_le_bytes)
  next
    case 3
    then have "\<not> j < 8 * bi + 64" by auto
    moreover have "\<not> j div 8 - bi < 8" "bi + 8 + (j div 8 - bi - 8) = j div 8" using 3 by linarith+
    then have "store_block packed bi w ! (j div 8) = packed ! (j div 8)"
      using 3 j by (simp add: store_block_def nth_append)
    ultimately show ?thesis by (simp add: packed_bit_def)
  qed
qed

lemma length_store_block: "bi \<le> length packed \<Longrightarrow> length (store_block packed bi w) = length packed"
  by (simp add: store_block_def min_def)

lemma bit_pack_acc:
  assumes "n \<le> 32" "\<forall>v \<in> set vs. \<forall>b. bit v b \<longrightarrow> b < n"
  shows "bit (pack_acc n k vs acc) j \<longleftrightarrow> bit acc j \<or> j < 64 \<and> value_bit n vs (k * n) j"
  using assms(2)
proof (induction vs arbitrary: k acc)
  case (Cons v vs)
  have "bit (push_bit (k * n) (ucast v :: u64)) j \<longleftrightarrow> j < 64 \<and> value_bit n [v] (k * n) j"
    using Cons.prems assms(1) by (auto simp: bit_simps value_bit_single)
  moreover have "value_bit n (v # vs) (k * n) j \<longleftrightarrow> value_bit n [v] (k * n) j \<or> value_bit n vs (Suc k * n) j"
    using value_bit_append [of n "[v]" vs "k * n" j] by (simp add: add.commute)
  ultimately show ?case using Cons.IH [of "Suc k" "acc OR push_bit (k * n) (ucast v)"] Cons.prems by (auto simp: bit_or_iff)
qed (simp add: value_bit_def)

lemma value_bit_masked: "n \<le> 32 \<Longrightarrow> value_bit n (map (\<lambda>v. v AND bit_mask n) vs) off j = value_bit n vs off j"
proof (cases "off \<le> j \<and> j - off < n * length vs")
  case True
  then have "0 < n" "(j - off) div n < length vs" by (auto simp: less_mult_imp_div_less mult.commute intro: Nat.gr0I)
  moreover assume "n \<le> 32"
  ultimately show ?thesis using True by (simp add: value_bit_def bit_masked)
qed (auto simp: value_bit_def)

lemma write_block_adds:
  assumes "n \<le> 32" "off mod 8 + n * length vals \<le> 64" "off + n * length vals \<le> 8 * length packed"
  shows "adds n vals off packed (write_block n vals off packed)"
proof -
  let ?bi = "off div 8" and ?s = "off mod 8" and ?vs = "map (\<lambda>v. v AND bit_mask n) vals"
  let ?acc = "pack_acc n 0 ?vs 0"
  have bi: "?bi \<le> length packed" using assms(3) by auto
  have off: "off = 8 * ?bi + ?s" by simp
  have acc: "bit ?acc m \<longleftrightarrow> m < 64 \<and> value_bit n vals 0 m" for m
  proof -
    have "\<forall>v \<in> set ?vs. \<forall>b. bit v b \<longrightarrow> b < n" using bit_masked [OF assms(1)] by auto
    from bit_pack_acc [OF assms(1) this, of 0 0 m] show ?thesis by (simp add: value_bit_masked [OF assms(1)])
  qed
  have "packed_bit (write_block n vals off packed) j = (packed_bit packed j \<or> value_bit n vals off j)" if j: "j < 8 * length packed" for j
  proof (cases "8 * ?bi \<le> j \<and> j < 8 * ?bi + 64")
    case True
    then obtain m where m: "j = 8 * ?bi + m" "m < 64" by (metis le_add_diff_inverse nat_add_left_cancel_less)
    have "bit (push_bit ?s ?acc) m \<longleftrightarrow> ?s \<le> m \<and> value_bit n vals 0 (m - ?s)" using m(2) by (auto simp: bit_push_bit_iff acc)
    also have "\<dots> \<longleftrightarrow> value_bit n vals off j"
    proof -
      have "j - off = m - ?s" "off \<le> j \<longleftrightarrow> ?s \<le> m" using m(1) off by linarith+
      then show ?thesis by (auto simp: value_bit_def)
    qed
    finally have shifted: "bit (push_bit ?s ?acc) m \<longleftrightarrow> value_bit n vals off j" .
    have "packed_bit (write_block n vals off packed) j = bit (load_block packed ?bi OR push_bit ?s ?acc) m"
      using store_block_bits [OF bi j, of "load_block packed ?bi OR push_bit ?s ?acc"] True m(1) by (simp add: write_block_def Let_def)
    also have "\<dots> = (packed_bit packed j \<or> value_bit n vals off j)"
      using bit_load_block [of packed ?bi m] shifted m j by (simp only: bit_or_iff) simp
    finally show ?thesis .
  next
    case False
    have "8 * ?bi \<le> j \<and> j < 8 * ?bi + 64" if "off \<le> j" "j - off < n * length vals"
      using that assms(2) off by linarith
    with False have "\<not> value_bit n vals off j" unfolding value_bit_def by blast
    moreover have "packed_bit (store_block packed ?bi w) j = packed_bit packed j" for w
      unfolding store_block_bits [OF bi j] using False by (simp only: if_False)
    ultimately show ?thesis by (simp add: write_block_def Let_def)
  qed
  then show ?thesis using length_store_block [OF bi] by (simp add: adds_def write_block_def Let_def)
qed

text \<open>A block fits 64 bits at every offset it is written at, unless an element has 31 bits.\<close>

lemma block_fits:
  assumes "n \<le> 32" "n \<noteq> 31" "batch_size n * n dvd off"
  shows "off mod 8 + n * batch_size n \<le> 64"
proof -
  obtain m where m: "off = batch_size n * n * m" using assms(3) by (rule dvdE)
  have "batch_size n * n \<le> 57 \<or> batch_size n * n = 58 \<or> batch_size n * n = 60 \<or> batch_size n * n = 64"
    using assms(1,2) by (cases "n \<le> 8"; cases "n \<le> 16") (simp_all add: batch_size_def, presburger+)
  then consider "batch_size n * n \<le> 57" | "batch_size n * n = 58" | "batch_size n * n = 60" | "batch_size n * n = 64" by blast
  then show ?thesis
  proof cases
    case 1
    have "off mod 8 \<le> 7" by (simp add: less_Suc_eq_le [symmetric])
    with 1 show ?thesis by (simp add: mult.commute)
  next
    case 2
    then have "off = 58 * m" by (simp add: m)
    then have "off mod 8 \<le> 6" by presburger
    with 2 show ?thesis by (simp add: mult.commute)
  next
    case 3
    then have "off = 60 * m" by (simp add: m)
    then have "off mod 8 \<le> 4" by presburger
    with 3 show ?thesis by (simp add: mult.commute)
  next
    case 4
    then have "off mod 8 = 0" by (simp add: m)
    with 4 show ?thesis by (simp add: mult.commute)
  qed
qed

lemma write_blocks_adds:
  assumes "n \<le> 32" "n \<noteq> 31" "batch_size n * n dvd off" "off + n * length vs \<le> 8 * length packed"
  shows "\<exists>packed'. write_blocks n vs off packed = Inr packed' \<and> adds n vs off packed packed'"
  using assms(3,4)
proof (induction "length vs" arbitrary: vs off packed rule: less_induct)
  case less
  show ?case
  proof (cases "length vs < batch_size n")
    case True
    with write_tail_adds [OF assms(1) less.prems(2)] show ?thesis by (simp add: write_blocks.simps)
  next
    case False
    let ?b = "batch_size n"
    let ?p1 = "write_block n (take ?b vs) off packed"
    have len: "length (take ?b vs) = ?b" using False by simp
    have shorter: "length (drop ?b vs) < length vs" unfolding length_drop using False batch_size_pos [of n] by linarith
    have all: "n * ?b + n * (length vs - ?b) = n * length vs" using False by (simp add: diff_mult_distrib2)
    have p1: "adds n (take ?b vs) off packed ?p1"
      using block_fits [OF assms(1,2) less.prems(1)] less.prems(2) len all by (intro write_block_adds [OF assms(1)]) simp_all
    then have same: "length ?p1 = length packed" by (simp add: adds_def)
    have "?b * n dvd off + ?b * n" using less.prems(1) by simp
    moreover have "off + ?b * n + n * length (drop ?b vs) \<le> 8 * length ?p1" using less.prems(2) all same by (simp add: mult.commute)
    ultimately obtain p2 where p2: "write_blocks n (drop ?b vs) (off + ?b * n) ?p1 = Inr p2" "adds n (drop ?b vs) (off + ?b * n) ?p1 p2"
      using less.hyps [OF shorter] by blast
    have "adds n (take ?b vs @ drop ?b vs) off packed p2"
      using p2(2) len by (intro adds_append [OF p1]) (simp add: mult.commute)
    with p2(1) False show ?thesis by (simp add: write_blocks.simps [of n vs])
  qed
qed

section \<open>The readers\<close>

text \<open>Element \<open>i\<close> of the packed vector.\<close>

definition packed_value :: "byte list \<Rightarrow> nat \<Rightarrow> nat \<Rightarrow> nat \<Rightarrow> u32 \<Rightarrow> bool" where
  "packed_value packed n off i w = (\<forall>b. bit w b = (b < n \<and> packed_bit packed (off + i * n + b)))"

lemma packed_value_unique: "packed_value packed n off i v \<Longrightarrow> packed_value packed n off i w \<Longrightarrow> v = w"
  by (auto simp: packed_value_def intro: bit_word_eqI)

lemma read_element_bits:
  assumes "\<forall>b \<in> set bs. off + b < 8 * length packed \<and> b < 32"
  shows "\<exists>w. read_element packed off bs val = Inr w \<and> (\<forall>b. bit w b = (bit val b \<or> b \<in> set bs \<and> packed_bit packed (off + b)))"
  using assms
proof (induction bs arbitrary: val)
  case (Cons b bs)
  let ?val = "if packed_bit packed (off + b) then val OR push_bit b 1 else val"
  have "(off + b) div 8 < length packed" using Cons.prems by auto
  then have step: "read_element packed off (b # bs) val = read_element packed off bs ?val"
    by (simp add: Let_def packed_bit_def bit_iff_and_push_bit_not_eq_0)
  have "b < 32" using Cons.prems by simp
  then have "bit ?val c = (bit val c \<or> c = b \<and> packed_bit packed (off + b))" for c
    by (auto simp: bit_or_iff bit_exp_iff push_bit_of_1)
  with Cons.IH [of ?val] Cons.prems show ?case unfolding step by auto
qed simp

lemma read_element_value:
  assumes "n \<le> 32" "off + n \<le> 8 * length packed"
  shows "\<exists>w. read_element packed off [0..<n] 0 = Inr w \<and> packed_value packed n off 0 w"
  using read_element_bits [of "[0..<n]" off packed 0] assms by (auto simp: packed_value_def)

definition read_values :: "byte list \<Rightarrow> nat \<Rightarrow> nat \<Rightarrow> u32 list \<Rightarrow> bool" where
  "read_values packed n off ws = (\<forall>i < length ws. packed_value packed n off i (ws ! i))"

lemma read_values_append:
  assumes "read_values packed n off vs" "read_values packed n (off + n * length vs) ws"
  shows "read_values packed n off (vs @ ws)"
  unfolding read_values_def
proof (intro allI impI)
  fix i assume i: "i < length (vs @ ws)"
  show "packed_value packed n off i ((vs @ ws) ! i)"
  proof (cases "i < length vs")
    case False
    then have "length vs * n + (i - length vs) * n = i * n" by (simp flip: add_mult_distrib)
    then have "off + n * length vs + (i - length vs) * n = off + i * n" by (simp add: mult.commute)
    then have same: "packed_value packed n (off + n * length vs) (i - length vs) w = packed_value packed n off i w" for w
      by (simp only: packed_value_def)
    have "i - length vs < length ws" using False i by simp
    with assms(2) have "packed_value packed n (off + n * length vs) (i - length vs) (ws ! (i - length vs))"
      unfolding read_values_def by blast
    then show ?thesis unfolding same using False by (simp add: nth_append)
  qed (use assms(1) in \<open>simp add: read_values_def nth_append\<close>)
qed

lemma read_values_unique:
  assumes "read_values packed n off vs" "read_values packed n off ws" "length vs = length ws"
  shows "vs = ws"
  using assms packed_value_unique by (auto simp: read_values_def intro!: nth_equalityI)

lemma read_loop_values:
  assumes "n \<le> 32" "off + n * left \<le> 8 * length packed"
  shows "\<exists>ws. read_loop packed n off left = Inr ws \<and> length ws = left \<and> read_values packed n off ws"
  using assms(2)
proof (induction left arbitrary: off)
  case (Suc left)
  obtain w where w: "read_element packed off [0..<n] 0 = Inr w" "packed_value packed n off 0 w"
    using read_element_value [OF assms(1), of off packed] Suc.prems by auto
  obtain ws where ws: "read_loop packed n (off + n) left = Inr ws" "length ws = left" "read_values packed n (off + n) ws"
    using Suc.IH [of "off + n"] Suc.prems by auto
  have "read_values packed n off ([w] @ ws)"
    using w(2) ws(3) by (intro read_values_append) (simp_all add: read_values_def)
  with w ws show ?case by simp
qed (simp add: read_values_def)

lemma read_block_values:
  assumes "n \<le> 32" "off mod 8 + n * batch_size n \<le> 64" "off + n * batch_size n \<le> 8 * length packed"
  shows "read_values packed n off (read_block packed n off)"
  unfolding read_values_def packed_value_def
proof (intro allI impI)
  fix i b assume "i < length (read_block packed n off)"
  then have i: "i < batch_size n" by (simp add: read_block_def Let_def)
  let ?acc = "drop_bit (off mod 8) (load_block packed (off div 8))"
  have ith: "read_block packed n off ! i = ucast (drop_bit (i * n) ?acc) AND bit_mask n"
    using i by (simp add: read_block_def Let_def)
  show "bit (read_block packed n off ! i) b = (b < n \<and> packed_bit packed (off + i * n + b))"
  proof (cases "b < n")
    case True
    have "Suc i * n \<le> batch_size n * n" using i by (intro mult_le_mono1) simp
    then have le: "i * n + b < n * batch_size n" using True by (simp add: mult.commute)
    have pos: "8 * (off div 8) + (off mod 8 + (i * n + b)) = off + i * n + b" by simp
    have "bit (load_block packed (off div 8)) (off mod 8 + (i * n + b)) = packed_bit packed (off + i * n + b)"
      unfolding bit_load_block pos using le assms(2,3) by auto
    then have "bit (ucast (drop_bit (i * n) ?acc) :: u32) b = packed_bit packed (off + i * n + b)"
      using True assms(1) by (simp add: bit_simps ac_simps)
    with True show ?thesis unfolding ith bit_masked [OF assms(1)] by blast
  qed (simp add: ith bit_masked [OF assms(1)])
qed

lemma read_blocks_values:
  assumes "n \<le> 32" "n \<noteq> 31" "batch_size n * n dvd off" "off + n * left \<le> 8 * length packed"
  shows "\<exists>ws. read_blocks packed n off left = Inr ws \<and> length ws = left \<and> read_values packed n off ws"
  using assms(3,4)
proof (induction left arbitrary: off rule: less_induct)
  case (less left)
  show ?case
  proof (cases "left < batch_size n")
    case True
    with read_loop_values [OF assms(1) less.prems(2)] show ?thesis by (simp add: read_blocks.simps)
  next
    case False
    let ?b = "batch_size n"
    have len: "length (read_block packed n off) = ?b" by (simp add: read_block_def Let_def)
    have all: "n * ?b + n * (left - ?b) = n * left" using False by (simp add: diff_mult_distrib2)
    have vs: "read_values packed n off (read_block packed n off)"
      using block_fits [OF assms(1,2) less.prems(1)] less.prems(2) all by (intro read_block_values [OF assms(1)]) simp_all
    have "left - ?b < left" using False batch_size_pos [of n] by linarith
    moreover have "?b * n dvd off + ?b * n" using less.prems(1) by simp
    moreover have "off + ?b * n + n * (left - ?b) \<le> 8 * length packed" using less.prems(2) all by (simp add: mult.commute)
    ultimately obtain ws where ws: "read_blocks packed n (off + ?b * n) (left - ?b) = Inr ws" "length ws = left - ?b"
        "read_values packed n (off + ?b * n) ws"
      using less.IH by blast
    have "read_values packed n off (read_block packed n off @ ws)"
      using ws(3) len by (intro read_values_append [OF vs]) (simp add: mult.commute)
    with ws False len show ?thesis by (simp add: read_blocks.simps [of packed n off left])
  qed
qed

lemma total_bits: "n * k \<le> 8 * total_bytes k n"
  by (simp add: total_bytes_def mult.commute)

lemma written_values:
  assumes "n \<le> 32" "adds n vs 0 (replicate (total_bytes (length vs) n) 0) packed"
  shows "read_values packed n 0 (map (take_bit n) vs)"
  unfolding read_values_def packed_value_def
proof (intro allI impI)
  fix i b assume "i < length (map (take_bit n) vs)"
  then have i: "i < length vs" by simp
  show "bit (map (take_bit n) vs ! i) b = (b < n \<and> packed_bit packed (0 + i * n + b))"
  proof (cases "b < n")
    case True
    have "Suc i * n \<le> length vs * n" using i by (intro mult_le_mono1) simp
    then have le: "i * n + b < n * length vs" using True by (simp add: mult.commute)
    with total_bits [of n "length vs"] have "i * n + b < 8 * total_bytes (length vs) n" by linarith
    with assms(2) have "packed_bit packed (i * n + b) = value_bit n vs 0 (i * n + b)"
      by (auto simp: adds_def packed_bit_def)
    also have "\<dots> = bit (vs ! i) b" using le True by (simp add: value_bit_def)
    finally show ?thesis using True i by (simp add: bit_take_bit_iff)
  qed (use i in \<open>simp add: bit_take_bit_iff\<close>)
qed

section \<open>Properties\<close>

text \<open>
  C16: packing and unpacking. For every width of 0 to 32 bits, the packed vector has the
  smallest number of whole bytes, and reading it gives back each element, cut to the width.
\<close>

theorem bits_roundtrip:
  assumes "0 \<le> nbits" "nbits \<le> 32" "length vector * nat nbits < 2 ^ 31"
  shows "\<exists>packed. writeBitsNaive vector nbits = Inr packed \<and> length packed = total_bytes (length vector) (nat nbits) \<and>
           readBitsNaive packed nbits (length vector) = Inr (map (take_bit (nat nbits)) vector)"
proof (cases "vector = []")
  case True
  with assms show ?thesis by (simp add: writeBitsNaive_def readBitsNaive_def total_bytes_def)
next
  case False
  let ?n = "nat nbits" and ?k = "length vector"
  let ?zero = "replicate (total_bytes ?k ?n) 0"
  have n: "?n \<le> 32" using assms(2) by simp
  obtain packed where packed: "write_naive_loop ?n vector 0 ?zero = Inr packed" "adds ?n vector 0 ?zero packed"
    using write_naive_adds [OF n, of 0 vector ?zero] assms(3) total_bits [of ?n ?k] by (auto simp: mult.commute)
  then have len: "length packed = total_bytes ?k ?n" by (simp add: adds_def)
  obtain ws where ws: "read_loop packed ?n 0 ?k = Inr ws" "length ws = ?k" "read_values packed ?n 0 ws"
    using read_loop_values [OF n, of 0 ?k packed] total_bits [of ?n ?k] len by auto
  have "ws = map (take_bit ?n) vector" by (rule read_values_unique [OF ws(3) written_values [OF n packed(2)]]) (simp add: ws(2))
  with ws packed len False assms(1,2) show ?thesis by (simp add: writeBitsNaive_def readBitsNaive_def)
qed

theorem bits_roundtrip_witness:
  "\<exists>packed. writeBitsNaive [5, 9, 2] 3 = Inr packed \<and> length packed = 2 \<and> readBitsNaive packed 3 3 = Inr [5, 1, 2]"
  using bits_roundtrip [of 3 "[5, 9, 2]"] by (simp add: total_bytes_def flip: numeral_3_eq_3)

text \<open>
  C14: the implementation in blocks of 64 bits is the one bit by bit, for writing and for
  reading, for every width except 31.
\<close>

theorem avx2_equivalent:
  assumes "0 \<le> nbits" "nbits \<le> 32" "nbits \<noteq> 31" "length vector * nat nbits < 2 ^ 31"
  shows "writeBitsAVX2 vector nbits = writeBitsNaive vector nbits \<and>
         (case (readBitsAVX2 packed nbits nelements, readBitsNaive packed nbits nelements) of
            (Inr vs, Inr ws) \<Rightarrow> vs = ws | (Inl e, Inl e') \<Rightarrow> True | _ \<Rightarrow> False)"
proof (intro conjI)
  let ?n = "nat nbits" and ?k = "length vector"
  let ?zero = "replicate (total_bytes ?k ?n) 0"
  have n: "?n \<le> 32" "?n \<noteq> 31" using assms(1-3) by auto
  have bits: "0 + ?n * ?k \<le> 8 * length ?zero" using total_bits [of ?n ?k] by simp
  obtain a where a: "write_naive_loop ?n vector 0 ?zero = Inr a" "adds ?n vector 0 ?zero a"
    using write_naive_adds [OF n(1) bits] assms(4) by (auto simp: mult.commute)
  obtain b where b: "write_blocks ?n vector 0 ?zero = Inr b" "adds ?n vector 0 ?zero b"
    using write_blocks_adds [OF n _ bits] by auto
  have "a = b" by (rule adds_unique [OF a(2) b(2)])
  with a b assms(1,2) show "writeBitsAVX2 vector nbits = writeBitsNaive vector nbits"
    by (simp add: writeBitsAVX2_def writeBitsNaive_def)
  show "case (readBitsAVX2 packed nbits nelements, readBitsNaive packed nbits nelements) of
      (Inr vs, Inr ws) \<Rightarrow> vs = ws | (Inl e, Inl e') \<Rightarrow> True | _ \<Rightarrow> False"
  proof (cases "nelements = 0 \<or> length packed < total_bytes nelements ?n")
    case True
    then show ?thesis using assms(1,2) by (auto simp: readBitsAVX2_def readBitsNaive_def total_bytes_def)
  next
    case False
    then have bits: "0 + ?n * nelements \<le> 8 * length packed" using total_bits [of ?n nelements] by linarith
    obtain vs where vs: "read_blocks packed ?n 0 nelements = Inr vs" "length vs = nelements" "read_values packed ?n 0 vs"
      using read_blocks_values [OF n _ bits] by auto
    obtain ws where ws: "read_loop packed ?n 0 nelements = Inr ws" "length ws = nelements" "read_values packed ?n 0 ws"
      using read_loop_values [OF n(1) bits] by auto
    have "vs = ws" by (rule read_values_unique [OF vs(3) ws(3)]) (simp add: vs(2) ws(2))
    with vs ws False assms(1,2) show ?thesis by (simp add: readBitsAVX2_def readBitsNaive_def)
  qed
qed

theorem avx2_equivalent_witness:
  "writeBitsAVX2 [1, 2, 3, 4, 5] 17 = writeBitsNaive [1, 2, 3, 4, 5] 17"
  using avx2_equivalent [of 17 "[1, 2, 3, 4, 5]"] by simp

lemma write_block_beyond:
  assumes "off div 8 \<le> length packed" "8 * (off div 8) + 64 \<le> j" "j < 8 * length packed"
  shows "packed_bit (write_block n vals off packed) j = packed_bit packed j" "length (write_block n vals off packed) = length packed"
  using store_block_bits [OF assms(1,3)] length_store_block [OF assms(1)] assms(2) by (simp_all add: write_block_def Let_def)

text \<open>
  C35: with 31 bits the second block of two elements would need 68 bits. The writer in blocks
  loses the four high bits of the fourth element, whatever they are.
\<close>

theorem avx2_31_loses_bits:
  assumes "length vec = 4"
  shows "\<exists>packed ws. writeBitsAVX2 vec 31 = Inr packed \<and> readBitsNaive packed 31 4 = Inr ws \<and>
           (\<forall>b. 27 \<le> b \<longrightarrow> \<not> bit (ws ! 3) b)"
proof -
  let ?z = "replicate 16 0 :: byte list"
  let ?p1 = "write_block 31 (take 2 vec) 0 ?z" and ?p2 = "write_block 31 (drop 2 vec) 62 (write_block 31 (take 2 vec) 0 ?z)"
  have p1: "packed_bit ?p1 j = packed_bit ?z j" "length ?p1 = 16" if "64 \<le> j" "j < 128" for j
    using write_block_beyond [of 0 ?z j 31 "take 2 vec"] that by simp_all
  have len1: "length ?p1 = 16" using p1(2) [of 64] by simp
  have p2: "packed_bit ?p2 j = packed_bit ?p1 j" "length ?p2 = 16" if "120 \<le> j" "j < 128" for j
    using write_block_beyond [of 62 ?p1 j 31 "drop 2 vec"] that len1 by simp_all
  have len2: "length ?p2 = 16" using p2(2) [of 120] by simp
  have "write_blocks 31 vec 0 ?z = Inr ?p2"
    using assms by (simp add: write_blocks.simps [of 31 vec] write_blocks.simps [of 31 "drop 2 vec"] write_blocks.simps [of 31 "[]"] batch_size_def)
  then have written: "writeBitsAVX2 vec 31 = Inr ?p2" using assms by (auto simp: writeBitsAVX2_def total_bytes_def)
  obtain ws where ws: "read_loop ?p2 31 0 4 = Inr ws" "length ws = 4" "read_values ?p2 31 0 ws"
    using read_loop_values [of 31 0 4 ?p2] len2 by auto
  have "readBitsNaive ?p2 31 4 = Inr ws" using ws(1) len2 by (simp add: readBitsNaive_def total_bytes_def)
  moreover have "\<not> bit (ws ! 3) b" if "27 \<le> b" for b
  proof -
    have "packed_value ?p2 31 0 3 (ws ! 3)" using ws(2,3) by (simp add: read_values_def)
    then have "bit (ws ! 3) b = (b < 31 \<and> packed_bit ?p2 (93 + b))" by (simp add: packed_value_def)
    moreover have "\<not> packed_bit ?p2 (93 + b)" if "b < 31"
      using p1(1) [of "93 + b"] p2(1) [of "93 + b"] that \<open>27 \<le> b\<close> by (simp add: packed_bit_def)
    ultimately show ?thesis by blast
  qed
  ultimately show ?thesis using written by blast
qed

theorem avx2_31_loses_bits_witness:
  "\<exists>packed ws. writeBitsAVX2 [0, 0, 0, 0x7fffffff] 31 = Inr packed \<and> readBitsNaive packed 31 4 = Inr ws \<and>
     bit ([0, 0, 0, 0x7fffffff :: u32] ! 3) 27 \<and> \<not> bit (ws ! 3) 27"
  using avx2_31_loses_bits [of "[0, 0, 0, 0x7fffffff]"] by (auto simp: bit_numeral_rec)

end
