(* ===== verification/NS_Proto.thy ===== *)
theory NS_Proto
  imports NR_Prelude
begin

text \<open>
  The wire protocol of the model store's microservice: messages
  (\<^verbatim>\<open>nr_store/src/microservice/ns_micro_proto.cpp\<close>), frames on a socket (\<^verbatim>\<open>ns_micro_utils.c\<close>), the two
  ends of a connection (\<^verbatim>\<open>ns_micro_server_main.cpp\<close>) and the decoding of the requests
  (\<^verbatim>\<open>ns_micro_service.cpp\<close>).

  A socket is the list of bytes sent and not yet read. What the kernel does at a call is a
  schedule: how many bytes a call moves, interrupts, errors. With no event left, the caller is
  still blocked in the call.
\<close>

section \<open>Messages\<close>

record ns_msg =
  mtype :: u32
  resp_id :: u32
  payload_size :: u32
  payload :: "byte list"

definition NS_MICRO_TASK_SHUTDOWN :: u32 where "NS_MICRO_TASK_SHUTDOWN = 1"
definition NS_MICRO_TASK_SAVE_MODEL :: u32 where "NS_MICRO_TASK_SAVE_MODEL = 10"
definition NS_MICRO_TASK_SAVE_MODELS :: u32 where "NS_MICRO_TASK_SAVE_MODELS = 11"
definition NS_MICRO_TASK_LOAD_MODEL :: u32 where "NS_MICRO_TASK_LOAD_MODEL = 13"
definition NS_MICRO_TASK_INFERENCE :: u32 where "NS_MICRO_TASK_INFERENCE = 14"
definition NS_MICRO_TASK_CLEAN_CACHE :: u32 where "NS_MICRO_TASK_CLEAN_CACHE = 15"
definition NS_MICRO_TASK_OK :: u32 where "NS_MICRO_TASK_OK = 1000"
definition NS_MICRO_TASK_ERROR :: u32 where "NS_MICRO_TASK_ERROR = 1001"

text \<open>\<open>garbage\<close> is what the allocated memory holds when there is no payload to copy.\<close>

definition NewMicroTask :: "u32 \<Rightarrow> u32 \<Rightarrow> u32 \<Rightarrow> byte list option \<Rightarrow> byte list \<Rightarrow> nr_error + ns_msg" where
  "NewMicroTask ty sz resp data garbage =
     ebind (case data of
              None \<Rightarrow> Inr (take (unat sz) (garbage @ replicate (unat sz) 0))
            | Some bs \<Rightarrow> mem_read bs 0 (unat sz)) (\<lambda>body.
       Inr \<lparr>mtype = ty, resp_id = resp, payload_size = sz, payload = body\<rparr>)"

definition NewMicroOkResponse :: ns_msg where
  "NewMicroOkResponse = \<lparr>mtype = NS_MICRO_TASK_OK, resp_id = 0, payload_size = 0, payload = []\<rparr>"

text \<open>An error message is sent with its terminating zero.\<close>

definition NewMicroErrorResponse :: "string \<Rightarrow> ns_msg" where
  "NewMicroErrorResponse errmsg =
     (let body = map of_char errmsg @ [0] in
      \<lparr>mtype = NS_MICRO_TASK_ERROR, resp_id = 0, payload_size = of_nat (length body), payload = body\<rparr>)"

definition htonl :: "u32 \<Rightarrow> u32" where
  "htonl w = le_word (rev (le_bytes w))"

definition header_size :: u32 where "header_size = 12"

text \<open>The buffer has \<^verbatim>\<open>total_len\<close> bytes, a sum of 32 bits; a write behind it is an error.\<close>

definition ns_micro_msg_serialize :: "ns_msg \<Rightarrow> nr_error + byte list" where
  "ns_micro_msg_serialize message =
     (let total_len = header_size + payload_size message in
      if unat total_len < 12 + unat (payload_size message) then Inl Bad_memory
      else ebind (mem_read (payload message) 0 (unat (payload_size message))) (\<lambda>body.
             Inr (le_bytes (htonl (mtype message)) @ le_bytes (htonl (resp_id message)) @
                  le_bytes (htonl (payload_size message)) @ body)))"

text \<open>\<open>None\<close>: the null pointer.\<close>

definition ns_micro_msg_deserialize :: "byte list \<Rightarrow> u32 \<Rightarrow> nr_error + ns_msg option" where
  "ns_micro_msg_deserialize inp in_len =
     (if in_len < header_size then Inr None
      else ebind (rd_word inp 0) (\<lambda>t. ebind (rd_word inp 4) (\<lambda>r. ebind (rd_word inp 8) (\<lambda>p.
             (let sz = htonl p in
              if in_len \<noteq> header_size + sz then Inr None
              else ebind (mem_read inp 12 (unat sz)) (\<lambda>body.
                     Inr (Some \<lparr>mtype = htonl t, resp_id = htonl r, payload_size = sz, payload = body\<rparr>)))))))"

section \<open>Sockets\<close>

text \<open>One \<^verbatim>\<open>read\<close> or \<^verbatim>\<open>write\<close>: it moves at least one byte, is interrupted, finds the peer gone or fails.\<close>

datatype sock_event = Moves nat | Interrupted | Closed | Fails

datatype sock_result = NS_SOCKET_OK | NS_SOCKET_ERR | NS_SOCKET_EOF | NS_SOCKET_TOOLARGE | NS_SOCKET_NOMEM | Blocked_call

text \<open>The bytes read so far, the rest of the stream and of the schedule.\<close>

fun ns_micro_read_n :: "sock_event list \<Rightarrow> byte list \<Rightarrow> nat \<Rightarrow> sock_result \<times> byte list \<times> byte list \<times> sock_event list" where
  "ns_micro_read_n es stream 0 = (NS_SOCKET_OK, [], stream, es)"
| "ns_micro_read_n [] stream n = (Blocked_call, [], stream, [])"
| "ns_micro_read_n (e # es) stream n =
     (case e of
        Closed \<Rightarrow> (NS_SOCKET_EOF, [], stream, es)
      | Fails \<Rightarrow> (NS_SOCKET_ERR, [], stream, es)
      | Interrupted \<Rightarrow> ns_micro_read_n es stream n
      | Moves k \<Rightarrow>
          (if stream = [] then ns_micro_read_n es stream n
           else (let r = min (Suc k) (min n (length stream));
                     (rc, bs, rest, es') = ns_micro_read_n es (drop r stream) (n - r)
                 in (rc, take r stream @ bs, rest, es'))))"

text \<open>The bytes that were sent.\<close>

fun ns_micro_write_n :: "sock_event list \<Rightarrow> byte list \<Rightarrow> sock_result \<times> byte list \<times> sock_event list" where
  "ns_micro_write_n es [] = (NS_SOCKET_OK, [], es)"
| "ns_micro_write_n [] buf = (Blocked_call, [], [])"
| "ns_micro_write_n (e # es) buf =
     (case e of
        Closed \<Rightarrow> (NS_SOCKET_ERR, [], es)
      | Fails \<Rightarrow> (NS_SOCKET_ERR, [], es)
      | Interrupted \<Rightarrow> ns_micro_write_n es buf
      | Moves k \<Rightarrow>
          (let (rc, bs, es') = ns_micro_write_n es (drop (Suc k) buf) in (rc, take (Suc k) buf @ bs, es')))"

text \<open>Any failure of the two writes is reported as \<^verbatim>\<open>NS_SOCKET_ERR\<close>.\<close>

definition ns_micro_frame_write :: "sock_event list \<Rightarrow> byte list \<Rightarrow> sock_result \<times> byte list \<times> sock_event list" where
  "ns_micro_frame_write es body =
     (case ns_micro_write_n es (le_bytes (htonl (of_nat (length body)))) of
        (NS_SOCKET_OK, sent, es') \<Rightarrow>
          (if body = [] then (NS_SOCKET_OK, sent, es')
           else (case ns_micro_write_n es' body of
               (NS_SOCKET_OK, sent', es'') \<Rightarrow> (NS_SOCKET_OK, sent @ sent', es'')
             | (Blocked_call, sent', es'') \<Rightarrow> (Blocked_call, sent @ sent', es'')
             | (_, sent', es'') \<Rightarrow> (NS_SOCKET_ERR, sent @ sent', es'')))
      | (Blocked_call, sent, es') \<Rightarrow> (Blocked_call, sent, es')
      | (_, sent, es') \<Rightarrow> (NS_SOCKET_ERR, sent, es'))"

text \<open>\<open>mem\<close>: whether \<^verbatim>\<open>malloc\<close> has memory for the body.\<close>

definition ns_micro_frame_read ::
  "(nat \<Rightarrow> bool) \<Rightarrow> sock_event list \<Rightarrow> byte list \<Rightarrow> u32 \<Rightarrow> sock_result \<times> byte list \<times> byte list \<times> sock_event list" where
  "ns_micro_frame_read mem es stream max_len =
     (case ns_micro_read_n es stream 4 of
        (NS_SOCKET_OK, len, rest, es') \<Rightarrow>
          (let body_len = htonl (le_word len) in
           if body_len = 0 \<or> (max_len > 0 \<and> body_len > max_len) then (NS_SOCKET_TOOLARGE, [], rest, es')
           else if \<not> mem (unat body_len) then (NS_SOCKET_NOMEM, [], rest, es')
           else (case ns_micro_read_n es' rest (unat body_len) of
               (NS_SOCKET_OK, body, rest', es'') \<Rightarrow> (NS_SOCKET_OK, body, rest', es'')
             | (rc, _, rest', es'') \<Rightarrow> (rc, [], rest', es'')))
      | (rc, _, rest, es') \<Rightarrow> (rc, [], rest, es'))"

section \<open>The two ends of a connection\<close>

definition MAX_FRAME :: u32 where "MAX_FRAME = push_bit 20 256"

text \<open>\<^verbatim>\<open>on_task_done\<close>: serialize a message and send it in a frame.\<close>

definition send_message :: "sock_event list \<Rightarrow> ns_msg \<Rightarrow> nr_error + sock_result \<times> byte list \<times> sock_event list" where
  "send_message es resp = ebind (ns_micro_msg_serialize resp) (\<lambda>body. Inr (ns_micro_frame_write es body))"

text \<open>One turn of the loop of \<^verbatim>\<open>handle_client\<close>: the message to submit, or the end of the connection.\<close>

definition receive_message ::
  "(nat \<Rightarrow> bool) \<Rightarrow> sock_event list \<Rightarrow> byte list \<Rightarrow> nr_error + ns_msg option \<times> byte list \<times> sock_event list" where
  "receive_message mem es stream =
     (case ns_micro_frame_read mem es stream MAX_FRAME of
        (NS_SOCKET_OK, body, rest, es') \<Rightarrow>
          ebind (ns_micro_msg_deserialize body (of_nat (length body))) (\<lambda>m. Inr (m, rest, es'))
      | (_, _, rest, es') \<Rightarrow> Inr (None, rest, es'))"

section \<open>Requests\<close>

text \<open>
  The decoding of a request: the offsets and lengths of the strings in the payload, or the
  message of the error response. The structures have 16, 16, 12 and 60 bytes in front of the strings.
\<close>

datatype 'a parsed = Reject string | Accept 'a

type_synonym fields = "(nat \<times> nat) list"

definition parse_save_model :: "ns_msg \<Rightarrow> nr_error + fields parsed" where
  "parse_save_model task =
     (if payload_size task < 16 then Inr (Reject ''invalid payload size: too small'')
      else ebind (rd_word (payload task) 8) (\<lambda>name_len :: u32. ebind (rd_word (payload task) 12) (\<lambda>path_len :: u32.
        (let expect = 16 + unat name_len + unat path_len in
         if unat (payload_size task) < expect \<or> name_len = 0 \<or> path_len = 0 then Inr (Reject ''invalid name/path length'')
         else Inr (Accept [(16, unat name_len), (16 + unat name_len, unat path_len)])))))"

text \<open>A list of strings, each with its length in front. \<open>Accept\<close>: the fields and the end of the last one.\<close>

fun parse_strings :: "bool \<Rightarrow> string \<Rightarrow> ns_msg \<Rightarrow> nat \<Rightarrow> nat \<Rightarrow> nr_error + fields parsed" where
  "parse_strings nonempty err task cursor 0 = Inr (Accept [])"
| "parse_strings nonempty err task cursor (Suc left) =
     (if cursor + 4 > unat (payload_size task) then Inr (Reject ''payload truncated'')
      else ebind (rd_word (payload task) cursor) (\<lambda>len :: u32.
        if nonempty \<and> len = 0 \<or> cursor + 4 + unat len > unat (payload_size task) then Inr (Reject err)
        else ebind (parse_strings nonempty err task (cursor + 4 + unat len) left) (\<lambda>r.
          case r of Reject e \<Rightarrow> Inr (Reject e) | Accept fs \<Rightarrow> Inr (Accept ((cursor + 4, unat len) # fs)))))"

definition parse_save_models :: "ns_msg \<Rightarrow> nr_error + fields parsed" where
  "parse_save_models task =
     (if payload_size task < 16 then Inr (Reject ''invalid payload size: too small'')
      else ebind (rd_word (payload task) 8) (\<lambda>folder_len :: u32. ebind (rd_word (payload task) 12) (\<lambda>n_models :: u32.
        if folder_len = 0 \<or> n_models = 0 then Inr (Reject ''invalid folder_len or n_models'')
        else if unat (payload_size task) < 16 + unat folder_len + unat n_models * 4 then Inr (Reject ''payload truncated'')
        else ebind (parse_strings True ''invalid name_len or payload overflow'' task (16 + unat folder_len) (unat n_models)) (\<lambda>r.
          case r of Reject e \<Rightarrow> Inr (Reject e) | Accept fs \<Rightarrow> Inr (Accept ((16, unat folder_len) # fs))))))"

definition parse_load_model :: "ns_msg \<Rightarrow> nr_error + (u32 \<times> u32 \<times> fields) parsed" where
  "parse_load_model task =
     (if payload_size task < 12 then Inr (Reject ''invalid payload size: too small'')
      else ebind (rd_word (payload task) 0) (\<lambda>return_serialized :: u32. ebind (rd_word (payload task) 4) (\<lambda>load_mode :: u32.
        ebind (rd_word (payload task) 8) (\<lambda>name_len :: u32.
        if name_len = 0 \<or> load_mode > 3 then Inr (Reject ''invalid field'')
        else if unat (payload_size task) < 12 + unat name_len then Inr (Reject ''payload truncated'')
        else Inr (Accept (return_serialized, load_mode, [(12, unat name_len)]))))))"

text \<open>\<^verbatim>\<open>ADVANCE_STR\<close>: the strings of an inference request follow each other; their lengths are in the header.\<close>

fun advance_strs :: "ns_msg \<Rightarrow> nat \<Rightarrow> nat list \<Rightarrow> nr_error + (fields \<times> nat) parsed" where
  "advance_strs task cursor [] = Inr (Accept ([], cursor))"
| "advance_strs task cursor (off # offs) =
     ebind (rd_word (payload task) off) (\<lambda>len :: u32.
       if cursor + unat len > unat (payload_size task) then Inr (Reject ''payload truncated'')
       else ebind (advance_strs task (cursor + unat len) offs) (\<lambda>r.
         case r of Reject e \<Rightarrow> Inr (Reject e) | Accept (fs, c) \<Rightarrow> Inr (Accept ((cursor, unat len) # fs, c))))"

definition parse_inference :: "ns_msg \<Rightarrow> nr_error + fields parsed" where
  "parse_inference task =
     (if payload_size task < 60 then Inr (Reject ''payload too small'')
      else ebind (advance_strs task 60 [24, 28, 32, 36, 40, 44, 48, 52]) (\<lambda>r.
        case r of
          Reject e \<Rightarrow> Inr (Reject e)
        | Accept (fs, cursor) \<Rightarrow>
            ebind (rd_word (payload task) 56) (\<lambda>n_input_columns :: u32.
            ebind (parse_strings False ''payload truncated'' task cursor (unat n_input_columns)) (\<lambda>r'.
              case r' of Reject e \<Rightarrow> Inr (Reject e) | Accept cs \<Rightarrow> Inr (Accept (fs @ cs))))))"

text \<open>
  The handlers hand the strings to the store as pointers: the store reads each one up to a zero
  byte, which may be behind the string and behind the payload. The operations of the store are
  parameters: whether a save succeeds, the serialized model of a load, the error of an inference.
\<close>

fun c_string :: "byte list \<Rightarrow> nr_error + byte list" where
  "c_string [] = Inl Bad_memory"
| "c_string (b # bs) = (if b = 0 then Inr [] else ebind (c_string bs) (\<lambda>s. Inr (b # s)))"

definition field_string :: "ns_msg \<Rightarrow> nat \<times> nat \<Rightarrow> nr_error + byte list" where
  "field_string task f = c_string (drop (fst f) (payload task))"

record 's model_store =
  ms_save :: "byte list list \<Rightarrow> u64 \<Rightarrow> 's \<Rightarrow> bool \<times> 's"
  ms_save_all :: "byte list list \<Rightarrow> u64 \<Rightarrow> 's \<Rightarrow> bool \<times> 's"
  ms_load :: "u32 \<Rightarrow> byte list list \<Rightarrow> 's \<Rightarrow> byte list option \<times> 's"
  ms_infer :: "byte list \<Rightarrow> byte list list \<Rightarrow> 's \<Rightarrow> string option \<times> 's"
  ms_clear_cache :: "'s \<Rightarrow> 's"

definition handle_save_model :: "'s model_store \<Rightarrow> ns_msg \<Rightarrow> 's \<Rightarrow> nr_error + ns_msg \<times> 's" where
  "handle_save_model st task s =
     ebind (parse_save_model task) (\<lambda>r.
       case r of
         Reject e \<Rightarrow> Inr (NewMicroErrorResponse e, s)
       | Accept fs \<Rightarrow>
           ebind (rd_word (payload task) 0) (\<lambda>tolerance. ebind (mapE (field_string task) fs) (\<lambda>strs.
             (let (ok, s') = ms_save st strs tolerance s in
              Inr (if ok then NewMicroOkResponse else NewMicroErrorResponse ''ns_save_model_internal failed'', s')))))"

definition handle_save_models :: "'s model_store \<Rightarrow> ns_msg \<Rightarrow> 's \<Rightarrow> nr_error + ns_msg \<times> 's" where
  "handle_save_models st task s =
     ebind (parse_save_models task) (\<lambda>r.
       case r of
         Reject e \<Rightarrow> Inr (NewMicroErrorResponse e, s)
       | Accept fs \<Rightarrow>
           ebind (rd_word (payload task) 0) (\<lambda>tolerance. ebind (mapE (field_string task) fs) (\<lambda>strs.
             (let (ok, s') = ms_save_all st strs tolerance s in
              Inr (if ok then NewMicroOkResponse else NewMicroErrorResponse ''ns_save_models_internal failed'', s')))))"

text \<open>The size of a serialized model is cut to 32 bits; a larger one is written behind the response.\<close>

definition handle_load_model :: "'s model_store \<Rightarrow> ns_msg \<Rightarrow> 's \<Rightarrow> nr_error + ns_msg \<times> 's" where
  "handle_load_model st task s =
     ebind (parse_load_model task) (\<lambda>r.
       case r of
         Reject e \<Rightarrow> Inr (NewMicroErrorResponse e, s)
       | Accept (return_serialized, load_mode, fs) \<Rightarrow>
           ebind (mapE (field_string task) fs) (\<lambda>strs.
             (let (model, s') = ms_load st load_mode strs s in
              case model of
                None \<Rightarrow> Inr (NewMicroErrorResponse ''ns_load_model failed'', s')
              | Some blob \<Rightarrow>
                  (if return_serialized = 0 then Inr (NewMicroOkResponse, s')
                   else if 4 + length blob \<ge> 2 ^ 32 then Inl Bad_memory
                   else Inr (\<lparr>mtype = NS_MICRO_TASK_OK, resp_id = 0, payload_size = of_nat (4 + length blob),
                          payload = le_bytes (of_nat (length blob) :: u32) @ blob\<rparr>, s')))))"

definition handle_inference :: "'s model_store \<Rightarrow> ns_msg \<Rightarrow> 's \<Rightarrow> nr_error + ns_msg \<times> 's" where
  "handle_inference st task s =
     ebind (parse_inference task) (\<lambda>r.
       case r of
         Reject e \<Rightarrow> Inr (NewMicroErrorResponse e, s)
       | Accept fs \<Rightarrow>
           ebind (mapE (field_string task) fs) (\<lambda>strs.
             (let (err, s') = ms_infer st (take 24 (payload task)) strs s in
              Inr (case err of None \<Rightarrow> NewMicroOkResponse | Some e \<Rightarrow> NewMicroErrorResponse e, s'))))"

text \<open>\<open>cache\<close>: whether there is a cache manager.\<close>

definition handle_clean_cache :: "'s model_store \<Rightarrow> bool \<Rightarrow> 's \<Rightarrow> nr_error + ns_msg \<times> 's" where
  "handle_clean_cache st cache s =
     Inr (if cache then (NewMicroOkResponse, ms_clear_cache st s) else (NewMicroErrorResponse ''Cache manager not initialized'', s))"

definition process_task :: "'s model_store \<Rightarrow> bool \<Rightarrow> ns_msg \<Rightarrow> 's \<Rightarrow> nr_error + ns_msg \<times> 's" where
  "process_task st cache req s =
     (if mtype req = NS_MICRO_TASK_SAVE_MODEL then handle_save_model st req s
      else if mtype req = NS_MICRO_TASK_SAVE_MODELS then handle_save_models st req s
      else if mtype req = NS_MICRO_TASK_LOAD_MODEL then handle_load_model st req s
      else if mtype req = NS_MICRO_TASK_INFERENCE then handle_inference st req s
      else if mtype req = NS_MICRO_TASK_CLEAN_CACHE then handle_clean_cache st cache s
      else if mtype req = NS_MICRO_TASK_SHUTDOWN then Inr (NewMicroOkResponse, s)
      else Inr (NewMicroErrorResponse ''unknown task type'', s))"

section \<open>Round trips\<close>

lemma htonl_htonl [simp]: "htonl (htonl w) = w"
proof -
  have "le_bytes (le_word (rev (le_bytes w)) :: u32) = rev (le_bytes w)" by (rule le_bytes_le_word) simp_all
  then show ?thesis by (simp add: htonl_def)
qed

definition msg_wf :: "ns_msg \<Rightarrow> bool" where
  "msg_wf m = (length (payload m) = unat (payload_size m) \<and> 12 + unat (payload_size m) < 2 ^ 32)"

definition msg_bytes :: "ns_msg \<Rightarrow> byte list" where
  "msg_bytes m = le_bytes (htonl (mtype m)) @ le_bytes (htonl (resp_id m)) @ le_bytes (htonl (payload_size m)) @ payload m"

lemma total_len_unat: "12 + unat (sz :: u32) < 2 ^ 32 \<Longrightarrow> unat (header_size + sz) = 12 + unat sz"
  by (simp add: header_size_def unat_word_ariths)

lemma serialize_wf: "msg_wf m \<Longrightarrow> ns_micro_msg_serialize m = Inr (msg_bytes m)"
  by (simp add: msg_wf_def ns_micro_msg_serialize_def Let_def total_len_unat mem_read_def msg_bytes_def)

lemma length_msg_bytes: "msg_wf m \<Longrightarrow> length (msg_bytes m) = 12 + unat (payload_size m)"
  by (simp add: msg_bytes_def msg_wf_def)

lemma deserialize_msg_bytes:
  assumes "msg_wf m"
  shows "ns_micro_msg_deserialize (msg_bytes m) (of_nat (length (msg_bytes m))) = Inr (Some m)"
proof -
  let ?t = "le_bytes (htonl (mtype m))" and ?r = "le_bytes (htonl (resp_id m))" and ?p = "le_bytes (htonl (payload_size m))"
  have len: "(of_nat (length (msg_bytes m)) :: u32) = header_size + payload_size m"
    by (simp add: length_msg_bytes [OF assms] header_size_def)
  have "unat (header_size + payload_size m) = 12 + unat (payload_size m)"
    using assms by (intro total_len_unat) (simp add: msg_wf_def)
  then have "\<not> header_size + payload_size m < header_size" by (simp add: word_less_nat_alt header_size_def)
  moreover have "rd_word (msg_bytes m) 0 = Inr (htonl (mtype m))"
    using rd_word_append [of 0 "[]" "htonl (mtype m)" "?r @ ?p @ payload m"] by (simp add: msg_bytes_def)
  moreover have "rd_word (msg_bytes m) 4 = Inr (htonl (resp_id m))"
    using rd_word_append [of 4 ?t "htonl (resp_id m)" "?p @ payload m"] by (simp add: msg_bytes_def)
  moreover have "rd_word (msg_bytes m) 8 = Inr (htonl (payload_size m))"
    using rd_word_append [of 8 "?t @ ?r" "htonl (payload_size m)" "payload m"] by (simp add: msg_bytes_def)
  moreover have "mem_read (msg_bytes m) 12 (unat (payload_size m)) = Inr (payload m)"
    using mem_read_append [of 12 "?t @ ?r @ ?p" "unat (payload_size m)" "payload m" "[]"] assms by (simp add: msg_bytes_def msg_wf_def)
  ultimately show ?thesis by (simp add: ns_micro_msg_deserialize_def len)
qed

text \<open>
  A schedule with no failure and enough events moves all bytes: each event that is not an
  interrupt moves at least one.
\<close>

definition live :: "nat \<Rightarrow> sock_event list \<Rightarrow> bool" where
  "live n es = (Closed \<notin> set es \<and> Fails \<notin> set es \<and> n \<le> length (filter (\<lambda>e. e \<noteq> Interrupted) es))"

lemma live_weaken: "live n es \<Longrightarrow> m \<le> n \<Longrightarrow> live m es"
  by (simp add: live_def)

lemma read_n_all:
  assumes "live (n + m) es" "length bs = n"
  shows "\<exists>es'. ns_micro_read_n es (bs @ rest) n = (NS_SOCKET_OK, bs, rest, es') \<and> live m es'"
  using assms
proof (induction es arbitrary: bs n)
  case Nil
  then show ?case by (simp add: live_def)
next
  case (Cons e es)
  show ?case
  proof (cases n)
    case 0
    with Cons.prems show ?thesis by simp
  next
    case (Suc n')
    show ?thesis
    proof (cases e)
      case (Moves k)
      let ?r = "min (Suc k) (min n (length (bs @ rest)))"
      have r: "0 < ?r" "?r \<le> length bs" using Cons.prems(2) Suc by auto
      have "live (n' + m) es" using Cons.prems(1) Moves Suc by (simp add: live_def)
      then have "live (n - ?r + m) es" by (rule live_weaken) (use r(1) Suc in linarith)
      moreover have "length (drop ?r bs) = n - ?r" using Cons.prems(2) by simp
      ultimately obtain es' where "ns_micro_read_n es (drop ?r bs @ rest) (n - ?r) = (NS_SOCKET_OK, drop ?r bs, rest, es')" "live m es'"
        using Cons.IH by blast
      moreover have "take ?r (bs @ rest) = take ?r bs" "drop ?r (bs @ rest) = drop ?r bs @ rest" using r(2) by simp_all
      moreover have "bs @ rest \<noteq> []" using Cons.prems(2) Suc by auto
      ultimately have "ns_micro_read_n (e # es) (bs @ rest) n = (NS_SOCKET_OK, bs, rest, es')"
        unfolding Moves Suc by (simp add: Let_def del: take_append drop_append append_is_Nil_conv) 
      with \<open>live m es'\<close> show ?thesis by blast
    next
      case Interrupted
      with Cons.IH [of n bs] Cons.prems Suc show ?thesis by (simp add: live_def)
    qed (use Cons.prems(1) in \<open>simp_all add: live_def\<close>)
  qed
qed

lemma write_n_all:
  assumes "live (length buf + m) es"
  shows "\<exists>es'. ns_micro_write_n es buf = (NS_SOCKET_OK, buf, es') \<and> live m es'"
  using assms
proof (induction es arbitrary: buf)
  case Nil
  then show ?case by (simp add: live_def)
next
  case hd: (Cons e es)
  show ?case
  proof (cases buf)
    case Nil
    with hd.prems show ?thesis by simp
  next
    case (Cons b buf')
    show ?thesis
    proof (cases e)
      case (Moves k)
      have "live (length (drop (Suc k) buf) + m) es" using hd.prems Moves Cons by (auto simp: live_def)
      with hd.IH [of "drop (Suc k) buf"] Moves Cons show ?thesis by (auto simp: Let_def)
    next
      case Interrupted
      with hd.IH [of buf] hd.prems Cons show ?thesis by (simp add: live_def)
    qed (use hd.prems in \<open>simp_all add: live_def\<close>)
  qed
qed

lemma frame_write_all:
  assumes "live (4 + length body + m) es" "body \<noteq> []"
  shows "\<exists>es'. ns_micro_frame_write es body = (NS_SOCKET_OK, le_bytes (htonl (of_nat (length body))) @ body, es') \<and> live m es'"
proof -
  let ?len = "le_bytes (htonl (of_nat (length body)))"
  have "live (length ?len + (length body + m)) es" using assms(1) by (simp add: add.assoc)
  from write_n_all [OF this] obtain es1 where "ns_micro_write_n es ?len = (NS_SOCKET_OK, ?len, es1)" "live (length body + m) es1" by blast
  moreover from write_n_all [OF this(2)] obtain es2 where "ns_micro_write_n es1 body = (NS_SOCKET_OK, body, es2)" "live m es2" by blast
  ultimately show ?thesis using assms(2) by (simp add: ns_micro_frame_write_def)
qed

lemma frame_read_all:
  assumes "live (4 + length body + m) es" "0 < length body" "length body \<le> unat max_len" "mem (length body)"
  shows "\<exists>es'. ns_micro_frame_read mem es (le_bytes (htonl (of_nat (length body))) @ body @ rest) max_len =
           (NS_SOCKET_OK, body, rest, es') \<and> live m es'"
proof -
  let ?len = "le_bytes (htonl (of_nat (length body)))"
  have "live (4 + (length body + m)) es" using assms(1) by (simp add: add.assoc)
  from read_n_all [OF this, of ?len "body @ rest"] obtain es1 where
    es1: "ns_micro_read_n es (?len @ body @ rest) 4 = (NS_SOCKET_OK, ?len, body @ rest, es1)" "live (length body + m) es1" by auto
  from read_n_all [OF es1(2) refl, of rest] obtain es2 where
    es2: "ns_micro_read_n es1 (body @ rest) (length body) = (NS_SOCKET_OK, body, rest, es2)" "live m es2" by blast
  have "length body < 2 ^ 32" using assms(3) unat_less [of max_len] by simp
  then have len: "unat (of_nat (length body) :: u32) = length body" by (simp add: unat_of_nat take_bit_nat_eq_self)
  have "(of_nat (length body) :: u32) \<noteq> 0"
  proof
    assume "(of_nat (length body) :: u32) = 0"
    with len assms(2) show False by simp
  qed
  moreover have "\<not> of_nat (length body) > max_len" using assms(3) len by (simp add: word_less_nat_alt)
  ultimately show ?thesis using es1(1) es2 len assms(4) by (simp add: ns_micro_frame_read_def)
qed

section \<open>Properties\<close>

text \<open>
  C17: a message arrives. Whatever pieces the kernel moves and however often calls are
  interrupted, a message of at most 256 MB that is sent over a connection is the message that is
  received at the other end, and the bytes behind it stay in the stream for the next one.
\<close>

theorem message_over_socket:
  assumes "msg_wf m" "12 + unat (payload_size m) \<le> 2 ^ 28" "mem (12 + unat (payload_size m))"
    and "live (16 + unat (payload_size m)) ws" "live (16 + unat (payload_size m)) rs"
  shows "\<exists>sent ws' rs'. send_message ws m = Inr (NS_SOCKET_OK, sent, ws') \<and>
           receive_message mem rs (sent @ rest) = Inr (Some m, rest, rs')"
proof -
  let ?body = "msg_bytes m"
  have len: "length ?body = 12 + unat (payload_size m)" by (rule length_msg_bytes [OF assms(1)])
  then have ne: "?body \<noteq> []" "0 < length ?body" by auto
  obtain ws' where ws': "ns_micro_frame_write ws ?body = (NS_SOCKET_OK, le_bytes (htonl (of_nat (length ?body))) @ ?body, ws')"
    using frame_write_all [of ?body 0 ws] assms(4) len ne(1) by auto
  have "length ?body \<le> unat MAX_FRAME" using len assms(2) by (simp add: MAX_FRAME_def)
  from frame_read_all [OF _ ne(2) this, of 0 rs mem rest] obtain rs' where
    rs': "ns_micro_frame_read mem rs (le_bytes (htonl (of_nat (length ?body))) @ ?body @ rest) MAX_FRAME = (NS_SOCKET_OK, ?body, rest, rs')"
    using assms(3,5) len by auto
  have "send_message ws m = Inr (NS_SOCKET_OK, le_bytes (htonl (of_nat (length ?body))) @ ?body, ws')"
    by (simp add: send_message_def serialize_wf [OF assms(1)] ws')
  moreover have "receive_message mem rs ((le_bytes (htonl (of_nat (length ?body))) @ ?body) @ rest) = Inr (Some m, rest, rs')"
    by (simp add: receive_message_def rs' deserialize_msg_bytes [OF assms(1)])
  ultimately show ?thesis by blast
qed

theorem message_over_socket_witness:
  "\<exists>sent ws' rs'. send_message (Interrupted # replicate 14 (Moves 0) @ [Moves 2, Moves 0, Moves 0, Moves 0]) (NewMicroErrorResponse ''x'') = Inr (NS_SOCKET_OK, sent, ws') \<and>
     receive_message (\<lambda>_. True) (replicate 18 (Moves 1)) (sent @ [7]) = Inr (Some (NewMicroErrorResponse ''x''), [7], rs')"
  by (rule message_over_socket) (simp_all add: NewMicroErrorResponse_def msg_wf_def live_def)

lemma rd_word_inside: "off + 4 \<le> length mem \<Longrightarrow> \<exists>w. rd_word mem off = Inr (w :: u32)"
  by (simp add: rd_word_def mem_read_def)

definition inside :: "ns_msg \<Rightarrow> fields \<Rightarrow> bool" where
  "inside task fs = (\<forall>(off, len) \<in> set fs. off + len \<le> unat (payload_size task))"

text \<open>A decoder that ends in no error; what it accepts satisfies \<open>P\<close>.\<close>

definition decodes :: "('a \<Rightarrow> bool) \<Rightarrow> nr_error + 'a parsed \<Rightarrow> bool" where
  "decodes P res = (case res of Inl _ \<Rightarrow> False | Inr (Reject _) \<Rightarrow> True | Inr (Accept x) \<Rightarrow> P x)"

lemma decodes_simps [simp]: "decodes P (Inr (Reject e))" "decodes P (Inr (Accept x)) = P x" "\<not> decodes P (Inl err)"
  by (simp_all add: decodes_def)

lemma decodesE:
  assumes "decodes P res"
  obtains e where "res = Inr (Reject e)" | x where "res = Inr (Accept x)" "P x"
  using assms by (auto simp: decodes_def split: sum.splits parsed.splits)

lemma inside_simps [simp]: "inside task []" "inside task ((off, len) # fs) = (off + len \<le> unat (payload_size task) \<and> inside task fs)"
  "inside task (fs @ gs) = (inside task fs \<and> inside task gs)"
  by (auto simp: inside_def)

lemma parse_strings_inside:
  assumes "length (payload task) = unat (payload_size task)"
  shows "decodes (inside task) (parse_strings ne err task cursor left)"
proof (induction left arbitrary: cursor)
  case (Suc left)
  show ?case
  proof (cases "cursor + 4 > unat (payload_size task)")
    case False
    then obtain len where "rd_word (payload task) cursor = Inr (len :: u32)"
      using rd_word_inside [of cursor "payload task"] assms by auto
    with False Suc.IH [of "cursor + 4 + unat len"] show ?thesis by (auto elim!: decodesE)
  qed simp
qed simp

lemma advance_strs_inside:
  assumes "length (payload task) = unat (payload_size task)" "\<forall>off \<in> set offs. off + 4 \<le> unat (payload_size task)"
  shows "decodes (\<lambda>(fs, c). inside task fs) (advance_strs task cursor offs)"
  using assms(2)
proof (induction offs arbitrary: cursor)
  case (Cons off offs)
  then obtain len where "rd_word (payload task) off = Inr (len :: u32)"
    using rd_word_inside [of off "payload task"] assms(1) by auto
  with Cons.IH [of "cursor + unat len"] Cons.prems show ?case by (auto elim!: decodesE)
qed simp

lemma header_word:
  assumes "length (payload task) = unat (payload_size task)" "\<not> payload_size task < of_nat k" "k < 100" "off + 4 \<le> k"
  shows "\<exists>w. rd_word (payload task) off = Inr (w :: u32)"
proof -
  have "k \<le> unat (payload_size task)"
    using assms(2,3) by (simp add: word_less_nat_alt unat_of_nat take_bit_nat_eq_self)
  then show ?thesis using rd_word_inside [of off "payload task"] assms(1,4) by simp
qed

lemma parse_save_model_inside:
  assumes "length (payload task) = unat (payload_size task)"
  shows "decodes (inside task) (parse_save_model task)"
proof (cases "payload_size task < 16")
  case False
  then obtain a b where "rd_word (payload task) 8 = Inr (a :: u32)" "rd_word (payload task) 12 = Inr (b :: u32)"
    using header_word [OF assms, of 16 8] header_word [OF assms, of 16 12] by auto
  with False show ?thesis by (simp add: parse_save_model_def Let_def)
qed (simp add: parse_save_model_def)

lemma parse_save_models_inside:
  assumes "length (payload task) = unat (payload_size task)"
  shows "decodes (inside task) (parse_save_models task)"
proof (cases "payload_size task < 16")
  case False
  then obtain a b where "rd_word (payload task) 8 = Inr (a :: u32)" "rd_word (payload task) 12 = Inr (b :: u32)"
    using header_word [OF assms, of 16 8] header_word [OF assms, of 16 12] by auto
  with False parse_strings_inside [OF assms, of True "''invalid name_len or payload overflow''" "16 + unat a" "unat b"]
  show ?thesis by (auto simp: parse_save_models_def elim!: decodesE)
qed (simp add: parse_save_models_def)

lemma parse_load_model_inside:
  assumes "length (payload task) = unat (payload_size task)"
  shows "decodes (\<lambda>(ret, mode, fs). inside task fs) (parse_load_model task)"
proof (cases "payload_size task < 12")
  case False
  then obtain a b c where "rd_word (payload task) 0 = Inr (a :: u32)" "rd_word (payload task) 4 = Inr (b :: u32)"
      "rd_word (payload task) 8 = Inr (c :: u32)"
    using header_word [OF assms, of 12 0] header_word [OF assms, of 12 4] header_word [OF assms, of 12 8] by auto
  with False show ?thesis by (simp add: parse_load_model_def)
qed (simp add: parse_load_model_def)

lemma parse_inference_inside:
  assumes "length (payload task) = unat (payload_size task)"
  shows "decodes (inside task) (parse_inference task)"
proof (cases "payload_size task < 60")
  case False
  then have "60 \<le> unat (payload_size task)" by (simp add: word_less_nat_alt)
  then have "\<forall>off \<in> set [24, 28, 32, 36, 40, 44, 48, 52]. off + 4 \<le> unat (payload_size task)" by auto
  note strs = advance_strs_inside [OF assms this, of 60]
  obtain nc where nc: "rd_word (payload task) 56 = Inr (nc :: u32)" using header_word [OF assms, of 60 56] False by auto
  from strs show ?thesis
  proof (cases rule: decodesE)
    case (2 x)
    obtain fs c where x: "x = (fs, c)" by force
    with parse_strings_inside [OF assms, of False "''payload truncated''" c "unat nc"] False nc 2 show ?thesis
      by (auto simp: parse_inference_def simp del: advance_strs.simps elim!: decodesE)
  qed (use False in \<open>simp add: parse_inference_def del: advance_strs.simps\<close>)
qed (simp add: parse_inference_def)

text \<open>
  C19: decoding a request stays inside of its payload, whatever the bytes are: no header field or
  length is read behind the payload, and every string that is accepted lies in it.
\<close>

theorem requests_decoded_in_bounds:
  assumes "length (payload task) = unat (payload_size task)"
  shows "decodes (inside task) (parse_save_model task) \<and> decodes (inside task) (parse_save_models task) \<and>
         decodes (\<lambda>(ret, mode, fs). inside task fs) (parse_load_model task) \<and> decodes (inside task) (parse_inference task)"
  using parse_save_model_inside parse_save_models_inside parse_load_model_inside parse_inference_inside assms by blast

definition sample_task :: ns_msg where
  "sample_task = \<lparr>mtype = NS_MICRO_TASK_LOAD_MODEL, resp_id = 0, payload_size = 13, payload = [1, 0, 0, 0, 0, 0, 0, 0, 1, 0, 0, 0, 65]\<rparr>"

theorem requests_decoded_in_bounds_witness:
  "length (payload sample_task) = 13 \<and> decodes (\<lambda>(ret, mode, fs). inside sample_task fs) (parse_load_model sample_task)"
  using requests_decoded_in_bounds [of sample_task] by (simp add: sample_task_def)

text \<open>
  A name is read up to a zero byte. The layout of a request has none, so the name of this one
  (of length 1, the last byte of the payload) is read behind the message.
\<close>

lemma unterminated_name_overread: "process_task st True sample_task s = Inl Bad_memory"
  by (simp add: process_task_def sample_task_def handle_load_model_def parse_load_model_def mem_eval field_string_def
      NS_MICRO_TASK_LOAD_MODEL_def NS_MICRO_TASK_SAVE_MODEL_def NS_MICRO_TASK_SAVE_MODELS_def)

end
