(* ===== verification/NS_Cache.thy ===== *)
theory NS_Cache
  imports NR_Policy
begin

text \<open>
  The cache of tensor indexes in the model store:
  \<^verbatim>\<open>nr_store/src/neurstore/cache/index_cache_manager.cpp\<close>. A list in the order of use, counts of
  the current users, sizes, and marks for indexes that have to be saved when they are evicted.

  The methods run under one mutex, so each is one step. An index is a shared object; its users
  change it between \<^verbatim>\<open>get\<close> and \<^verbatim>\<open>release\<close>, and \<^verbatim>\<open>release\<close> brings the changed index here. Size, file format
  and creation of an index are parameters.
\<close>

section \<open>State\<close>

record 'i index_api =
  ix_space :: "'i \<Rightarrow> int"
  ix_serialize :: "'i \<Rightarrow> byte list"
  ix_deserialize :: "byte list \<Rightarrow> 'i option"
  ix_create :: "int \<Rightarrow> 'i"

text \<open>What the cache relies on: an index can be read back from its file, and its size is not negative.\<close>

definition index_ok :: "'i index_api \<Rightarrow> bool" where
  "index_ok api = (\<forall>ix. ix_deserialize api (ix_serialize api ix) = Some ix \<and> 0 \<le> ix_space api ix)"

record 'i icache =
  max_bytes :: int
  used_bytes :: int
  size_map :: "string \<rightharpoonup> int"
  updated_map :: "string \<rightharpoonup> bool"
  use_count_map :: "string \<rightharpoonup> int"
  cache_list :: "(string \<times> 'i) list"
  index_files :: "string \<rightharpoonup> byte list"

text \<open>\<^verbatim>\<open>std::to_string\<close> and the key of an index.\<close>

definition to_string :: "int \<Rightarrow> string" where
  "to_string i = (if i < 0 then CHR ''-'' # show_nat (nat (- i)) else show_nat (nat i))"

definition makeKey :: "int \<Rightarrow> int \<Rightarrow> string" where
  "makeKey dimension index_id = to_string dimension @ ''_'' @ to_string index_id"

text \<open>Reading an entry of a map: a missing one is created with the default.\<close>

definition entry :: "(string \<rightharpoonup> 'v) \<Rightarrow> 'v \<Rightarrow> string \<Rightarrow> 'v" where
  "entry m d k = (case m k of None \<Rightarrow> d | Some v \<Rightarrow> v)"

section \<open>Operations\<close>

definition IndexCacheManager :: "int \<Rightarrow> (string \<rightharpoonup> byte list) \<Rightarrow> nr_error + 'i icache" where
  "IndexCacheManager mb files =
     (if mb \<le> 0 then Inl (Elog ''IndexCacheManager::IndexCacheManager: max_bytes must be positive'')
      else Inr \<lparr>max_bytes = mb, used_bytes = 0, size_map = Map.empty, updated_map = Map.empty, use_count_map = Map.empty,
             cache_list = [], index_files = files\<rparr>)"

text \<open>\<open>writable\<close>: whether the file of a key can be opened.\<close>

definition saveIndex :: "'i index_api \<Rightarrow> (string \<Rightarrow> bool) \<Rightarrow> string \<Rightarrow> 'i \<Rightarrow> 'i icache \<Rightarrow> nr_error + 'i icache" where
  "saveIndex api writable key index c =
     (if writable key then Inr (c\<lparr>index_files := (index_files c)(key \<mapsto> ix_serialize api index)\<rparr>)
      else Inl (Elog ''IndexCacheManager::saveIndex: Failed to open file''))"

text \<open>The entry the scan from the end of the list stops at.\<close>

definition victim :: "'i icache \<Rightarrow> (string \<times> 'i) option" where
  "victim c = find (\<lambda>(k, ix). entry (use_count_map c) 0 k = 0) (rev (cache_list c))"

definition evict_entry :: "'i index_api \<Rightarrow> (string \<Rightarrow> bool) \<Rightarrow> string \<times> 'i \<Rightarrow> 'i icache \<Rightarrow> nr_error + 'i icache" where
  "evict_entry api writable e c =
     (let (evict_key, index) = e in
      ebind (if entry (updated_map c) False evict_key then saveIndex api writable evict_key index c else Inr c) (\<lambda>c1.
        Inr (c1\<lparr>updated_map := (updated_map c1)(evict_key := None),
               used_bytes := used_bytes c1 - entry (size_map c1) 0 evict_key,
               use_count_map := (use_count_map c1)(evict_key := None),
               size_map := (size_map c1)(evict_key := None),
               cache_list := filter (\<lambda>(k, ix). k \<noteq> evict_key) (cache_list c1)\<rparr>)))"

text \<open>\<open>None\<close>: the loop does not end.\<close>

partial_function (option) evictCacheIfNeeded ::
  "'i index_api \<Rightarrow> (string \<Rightarrow> bool) \<Rightarrow> 'i icache \<Rightarrow> (nr_error + 'i icache) option" where
  [code]: "evictCacheIfNeeded api writable c =
     (if used_bytes c \<le> max_bytes c then Some (Inr c)
      else case victim c of
        None \<Rightarrow> evictCacheIfNeeded api writable c
      | Some e \<Rightarrow>
          (case evict_entry api writable e c of
             Inl err \<Rightarrow> Some (Inl err)
           | Inr c' \<Rightarrow> evictCacheIfNeeded api writable c'))"

definition load_index :: "'i index_api \<Rightarrow> int \<Rightarrow> string \<Rightarrow> 'i icache \<Rightarrow> 'i" where
  "load_index api dimension key c =
     (case Option.bind (index_files c key) (ix_deserialize api) of Some ix \<Rightarrow> ix | None \<Rightarrow> ix_create api dimension)"

definition cache_get ::
  "'i index_api \<Rightarrow> (string \<Rightarrow> bool) \<Rightarrow> int \<Rightarrow> int \<Rightarrow> 'i icache \<Rightarrow> (nr_error + 'i \<times> 'i icache) option" where
  "cache_get api writable dimension index_id c =
     (let key = makeKey dimension index_id in
      case map_of (cache_list c) key of
        Some index \<Rightarrow>
          Some (Inr (index, c\<lparr>cache_list := (key, index) # filter (\<lambda>(k, ix). k \<noteq> key) (cache_list c),
            use_count_map := (use_count_map c)(key \<mapsto> entry (use_count_map c) 0 key + 1)\<rparr>))
      | None \<Rightarrow>
          (let index = load_index api dimension key c; space_bytes = ix_space api index;
               c1 = c\<lparr>cache_list := (key, index) # cache_list c, use_count_map := (use_count_map c)(key \<mapsto> 1),
                     size_map := (size_map c)(key \<mapsto> space_bytes), used_bytes := used_bytes c + space_bytes,
                     updated_map := (updated_map c)(key \<mapsto> False)\<rparr>
           in map_option (\<lambda>r. ebind r (\<lambda>c2. Inr (index, c2))) (evictCacheIfNeeded api writable c1)))"

text \<open>The index in the list is the object the caller changed.\<close>

definition cache_release ::
  "'i index_api \<Rightarrow> (string \<Rightarrow> bool) \<Rightarrow> 'i \<Rightarrow> int \<Rightarrow> int \<Rightarrow> bool \<Rightarrow> 'i icache \<Rightarrow> (nr_error + 'i icache) option" where
  "cache_release api writable index dimension index_id is_updated c =
     (let key = makeKey dimension index_id;
          c1 = c\<lparr>use_count_map := (use_count_map c)(key \<mapsto> max 0 (entry (use_count_map c) 0 key - 1)),
                cache_list := map (\<lambda>(k, ix). if k = key then (k, index) else (k, ix)) (cache_list c)\<rparr>
      in if is_updated
         then evictCacheIfNeeded api writable
                (c1\<lparr>used_bytes := used_bytes c1 + (ix_space api index - entry (size_map c1) 0 key),
                   size_map := (size_map c1)(key \<mapsto> ix_space api index), updated_map := (updated_map c1)(key \<mapsto> True)\<rparr>)
         else Some (Inr c1))"

definition markDirty :: "string \<Rightarrow> 'i icache \<Rightarrow> 'i icache" where
  "markDirty key c = c\<lparr>updated_map := (updated_map c)(key \<mapsto> True)\<rparr>"

fun saveIndexes :: "'i index_api \<Rightarrow> (string \<Rightarrow> bool) \<Rightarrow> (string \<times> 'i) list \<Rightarrow> 'i icache \<Rightarrow> nr_error + 'i icache" where
  "saveIndexes api writable [] c = Inr c"
| "saveIndexes api writable ((key, index) # indexes) c =
     ebind (saveIndex api writable key index c) (saveIndexes api writable indexes)"

fun save_updated :: "'i index_api \<Rightarrow> (string \<Rightarrow> bool) \<Rightarrow> (string \<times> 'i) list \<Rightarrow> 'i icache \<Rightarrow> nr_error + 'i icache" where
  "save_updated api writable [] c = Inr c"
| "save_updated api writable ((key, index) # es) c =
     ebind (if entry (updated_map c) False key then saveIndex api writable key index c else Inr c) (save_updated api writable es)"

text \<open>The cache keeps its entries and their marks.\<close>

definition clearCache :: "'i index_api \<Rightarrow> (string \<Rightarrow> bool) \<Rightarrow> 'i icache \<Rightarrow> nr_error + 'i icache" where
  "clearCache api writable c = save_updated api writable (cache_list c) c"

section \<open>Keys\<close>

text \<open>The dimension in a key.\<close>

definition key_dimension :: "string \<Rightarrow> int" where
  "key_dimension k =
     (case takeWhile (\<lambda>c. c \<noteq> CHR ''_'') k of
        [] \<Rightarrow> 0
      | c # cs \<Rightarrow> if c = CHR ''-'' then - int (digits_value cs) else int (digits_value (c # cs)))"

lemma digit_chars: "isdigit c \<Longrightarrow> c \<noteq> CHR ''_'' \<and> c \<noteq> CHR ''-''"
  by (auto simp: isdigit_def)

lemma key_dimension_makeKey [simp]: "key_dimension (makeKey d i) = d"
proof -
  have chars: "\<forall>c \<in> set (show_nat n). c \<noteq> CHR ''_'' \<and> c \<noteq> CHR ''-''" for n
    using show_nat_digits digit_chars by blast
  then have "\<forall>c \<in> set (to_string d). c \<noteq> CHR ''_''" by (auto simp: to_string_def)
  then have "takeWhile (\<lambda>c. c \<noteq> CHR ''_'') (to_string d @ CHR ''_'' # rest) = to_string d" for rest
    by (induction "to_string d") auto
  then have take: "takeWhile (\<lambda>c. c \<noteq> CHR ''_'') (makeKey d i) = to_string d" by (simp add: makeKey_def)
  show ?thesis
  proof (cases "d < 0")
    case True
    then show ?thesis by (simp add: key_dimension_def take to_string_def)
  next
    case False
    obtain c cs where c: "show_nat (nat d) = c # cs" "isdigit c" using show_nat_head by blast
    then have "digits_value (c # cs) = nat d" by (metis digits_value_show_nat)
    with False c digit_chars show ?thesis by (auto simp: key_dimension_def take to_string_def)
  qed
qed

section \<open>Lists with keys\<close>

lemma entry_upd: "entry (m(k \<mapsto> v)) d = (entry m d)(k := v)" "entry (m(k := None)) d = (entry m d)(k := d)"
  by (auto simp: entry_def)

lemma sum_remove:
  fixes f :: "string \<times> 'i \<Rightarrow> int"
  assumes "distinct (map fst xs)" "(k, ix) \<in> set xs"
  shows "sum_list (map f xs) = f (k, ix) + sum_list (map f (filter (\<lambda>(j, y). j \<noteq> k) xs))"
  using assms
proof (induction xs)
  case (Cons x xs)
  show ?case
  proof (cases "x = (k, ix)")
    case True
    then have "filter (\<lambda>(j, y). j \<noteq> k) xs = xs" using Cons.prems(1) by (auto simp: filter_id_conv image_iff)
    with True show ?thesis by simp
  next
    case False
    with Cons.prems have "fst x \<noteq> k" "(k, ix) \<in> set xs" by (auto simp: image_iff)
    with Cons show ?thesis by (auto simp: case_prod_beta)
  qed
qed simp

lemma sum_upd:
  fixes g :: "string \<Rightarrow> int"
  assumes "distinct (map fst xs)" "k \<in> fst ` set xs"
  shows "sum_list (map (\<lambda>e. (g(k := v)) (fst e)) xs) = sum_list (map (\<lambda>e. g (fst e)) xs) + (v - g k)"
proof -
  obtain ix where ix: "(k, ix) \<in> set xs" using assms(2) by auto
  have "sum_list (map (\<lambda>e. (g(k := v)) (fst e)) (filter (\<lambda>(j, y). j \<noteq> k) xs)) =
      sum_list (map (\<lambda>e. g (fst e)) (filter (\<lambda>(j, y). j \<noteq> k) xs))"
    by (rule arg_cong [where f = sum_list], rule map_cong) auto
  then show ?thesis
    using sum_remove [OF assms(1) ix, of "\<lambda>e. (g(k := v)) (fst e)"] sum_remove [OF assms(1) ix, of "\<lambda>e. g (fst e)"] by simp
qed

lemma distinct_filter_keys: "distinct (map fst xs) \<Longrightarrow> distinct (map fst (filter P xs))"
  by (induction xs) auto

lemma map_of_filter_keys: "map_of (filter (\<lambda>(j, y). j \<noteq> k) xs) i = (if i = k then None else map_of xs i)"
  by (induction xs) auto

section \<open>The invariant\<close>

definition entry_size :: "'i icache \<Rightarrow> string \<times> 'i \<Rightarrow> int" where
  "entry_size c e = entry (size_map c) 0 (fst e)"

definition cache_inv :: "'i index_api \<Rightarrow> 'i icache \<Rightarrow> bool" where
  "cache_inv api c \<longleftrightarrow>
     distinct (map fst (cache_list c)) \<and>
     used_bytes c = sum_list (map (entry_size c) (cache_list c)) \<and>
     (\<forall>e \<in> set (cache_list c). 0 \<le> entry_size c e) \<and>
     (\<forall>(k, ix) \<in> set (cache_list c). \<not> entry (updated_map c) False k \<longrightarrow> load_index api (key_dimension k) k c = ix)"

lemma cache_invI:
  assumes "distinct (map fst (cache_list c))" "used_bytes c = sum_list (map (entry_size c) (cache_list c))"
    and "\<And>e. e \<in> set (cache_list c) \<Longrightarrow> 0 \<le> entry_size c e"
    and "\<And>k ix. (k, ix) \<in> set (cache_list c) \<Longrightarrow> \<not> entry (updated_map c) False k \<Longrightarrow> load_index api (key_dimension k) k c = ix"
  shows "cache_inv api c"
  unfolding cache_inv_def using assms by blast

lemma cache_invD:
  assumes "cache_inv api c" "(k, ix) \<in> set (cache_list c)" "\<not> entry (updated_map c) False k"
  shows "load_index api (key_dimension k) k c = ix"
  using assms unfolding cache_inv_def by fast

text \<open>The index of a key, in the cache or not.\<close>

definition index_of :: "'i index_api \<Rightarrow> 'i icache \<Rightarrow> string \<Rightarrow> 'i" where
  "index_of api c k = (case map_of (cache_list c) k of Some ix \<Rightarrow> ix | None \<Rightarrow> load_index api (key_dimension k) k c)"

text \<open>The bytes of the indexes in use.\<close>

definition pinned_bytes :: "'i icache \<Rightarrow> int" where
  "pinned_bytes c = sum_list (map (entry_size c) (filter (\<lambda>(k, ix). entry (use_count_map c) 0 k \<noteq> 0) (cache_list c)))"

lemma load_index_files: "index_files c' k = index_files c k \<Longrightarrow> load_index api d k c' = load_index api d k c"
  by (simp add: load_index_def)

lemma victim_Some:
  assumes "victim c = Some (k, ix)"
  shows "(k, ix) \<in> set (cache_list c)" "entry (use_count_map c) 0 k = 0"
  using assms by (auto simp: victim_def find_Some_iff) (metis nth_mem set_rev length_rev)

lemma victim_None:
  assumes "victim c = None" "cache_inv api c"
  shows "pinned_bytes c = used_bytes c"
proof -
  have "filter (\<lambda>(k, ix). entry (use_count_map c) 0 k \<noteq> 0) (cache_list c) = cache_list c"
    using assms(1) by (auto simp: victim_def find_None_iff filter_id_conv)
  with assms(2) show ?thesis by (simp add: pinned_bytes_def cache_inv_def)
qed

lemma sum_filter_le:
  fixes f :: "'b \<Rightarrow> int"
  assumes "\<forall>e \<in> set xs. 0 \<le> f e"
  shows "sum_list (map f (filter P xs)) \<le> sum_list (map f xs)"
  using assms by (induction xs) auto

lemma pinned_le_used: "cache_inv api c \<Longrightarrow> pinned_bytes c \<le> used_bytes c"
  by (simp add: cache_inv_def pinned_bytes_def sum_filter_le)

text \<open>One eviction: everything else stays, and the index can be loaded again.\<close>

lemma evict_entry_effect:
  assumes "cache_inv api c" "index_ok api" "victim c = Some e" "evict_entry api writable e c = Inr c'"
  shows "cache_inv api c'" "index_of api c' = index_of api c" "pinned_bytes c' = pinned_bytes c"
    and "max_bytes c' = max_bytes c" "length (cache_list c') < length (cache_list c)"
proof -
  obtain k ix where e: "e = (k, ix)" by force
  note v = victim_Some [OF assms(3) [unfolded e]]
  have inv: "distinct (map fst (cache_list c))" "used_bytes c = sum_list (map (entry_size c) (cache_list c))"
    using assms(1) by (simp_all add: cache_inv_def)
  let ?files = "if entry (updated_map c) False k then (index_files c)(k \<mapsto> ix_serialize api ix) else index_files c"
  have c': "cache_list c' = filter (\<lambda>(j, y). j \<noteq> k) (cache_list c)" "used_bytes c' = used_bytes c - entry_size c (k, ix)"
      "entry (size_map c') 0 = (entry (size_map c) 0)(k := 0)" "entry (updated_map c') False = (entry (updated_map c) False)(k := False)"
      "entry (use_count_map c') 0 = (entry (use_count_map c) 0)(k := 0)" "index_files c' = ?files" "max_bytes c' = max_bytes c"
    using assms(4) e by (auto simp: evict_entry_def saveIndex_def entry_upd entry_size_def split: if_splits)
  have size: "entry_size c' x = entry_size c x" if "fst x \<noteq> k" for x using that by (simp add: entry_size_def c'(3))
  have load: "load_index api d j c' = load_index api d j c" if "j \<noteq> k" for d j
    using that c'(6) by (intro load_index_files) simp
  have reload: "load_index api (key_dimension k) k c' = ix"
    using assms(1,2) v(1) c'(6) load_index_files [of c' k c api] by (auto simp: cache_inv_def load_index_def index_ok_def split: if_splits)
  have sizes: "sum_list (map (entry_size c') (filter (\<lambda>(j, y). j \<noteq> k) (cache_list c))) =
      sum_list (map (entry_size c) (filter (\<lambda>(j, y). j \<noteq> k) (cache_list c)))"
    by (rule arg_cong [where f = sum_list], rule map_cong) (auto intro: size)
  show "cache_inv api c'"
    using assms(1) sum_remove [OF inv(1) v(1), of "entry_size c"] sizes load size inv(2) distinct_filter_keys [OF inv(1)]
    unfolding cache_inv_def c' by (auto simp: c')
  show "index_of api c' = index_of api c"
  proof
    fix j show "index_of api c' j = index_of api c j"
      using reload load [of j] map_of_is_SomeI [OF inv(1) v(1)] by (simp add: index_of_def c'(1) map_of_filter_keys split: option.split)
  qed
  have "filter (\<lambda>(j, y). entry (use_count_map c') 0 j \<noteq> 0) (cache_list c') = filter (\<lambda>(j, y). entry (use_count_map c) 0 j \<noteq> 0) (cache_list c)"
    unfolding c'(1,5) filter_filter using v(2) by (intro filter_cong) (auto split: if_splits)
  moreover have "map (entry_size c') (filter (\<lambda>(j, y). entry (use_count_map c) 0 j \<noteq> 0) (cache_list c)) =
      map (entry_size c) (filter (\<lambda>(j, y). entry (use_count_map c) 0 j \<noteq> 0) (cache_list c))"
    using v(2) by (intro map_cong) (auto intro: size)
  ultimately show "pinned_bytes c' = pinned_bytes c" by (simp only: pinned_bytes_def)
  show "max_bytes c' = max_bytes c" by (rule c'(7))
  show "length (cache_list c') < length (cache_list c)"
    unfolding c'(1) by (rule length_filter_less [OF v(1)]) simp
qed

section \<open>Eviction\<close>

lemma evict_correct:
  assumes "evictCacheIfNeeded api writable c = Some r"
  shows "index_ok api \<longrightarrow> cache_inv api c \<longrightarrow> r = Inr c' \<longrightarrow>
    cache_inv api c' \<and> index_of api c' = index_of api c \<and> pinned_bytes c' = pinned_bytes c \<and> used_bytes c' \<le> max_bytes c' \<and>
    max_bytes c' = max_bytes c"
  using assms
proof (induction rule: evictCacheIfNeeded.raw_induct [rotated, consumes 1, case_names step])
  case (step evict api writable c r)
  show ?case
  proof (intro impI)
    assume api: "index_ok api" and c: "cache_inv api c" and r: "r = Inr c'"
    consider (small) "used_bytes c \<le> max_bytes c" | (wait) "\<not> used_bytes c \<le> max_bytes c" "victim c = None"
      | (evict) e where "\<not> used_bytes c \<le> max_bytes c" "victim c = Some e" by blast
    then show "cache_inv api c' \<and> index_of api c' = index_of api c \<and> pinned_bytes c' = pinned_bytes c \<and>
        used_bytes c' \<le> max_bytes c' \<and> max_bytes c' = max_bytes c"
    proof cases
      case small
      with step(2) c r show ?thesis by simp
    next
      case wait
      with step(2) have "evict api writable c = Some r" by simp
      from step(1) [OF this] api c r show ?thesis by simp
    next
      case evict
      with step(2) r obtain c1 where c1: "evict_entry api writable e c = Inr c1" "evict api writable c1 = Some r"
        by (auto split: sum.splits)
      note eff = evict_entry_effect [OF c api evict(2) c1(1)]
      from step(1) [OF c1(2)] api eff r show ?thesis by simp
    qed
  qed
qed

lemma evict_entry_Inr: "\<forall>k. writable k \<Longrightarrow> \<exists>c'. evict_entry api writable e c = Inr c'"
  by (cases e) (simp add: evict_entry_def saveIndex_def)

lemma evict_returns:
  assumes "cache_inv api c" "index_ok api" "\<forall>k. writable k" "pinned_bytes c \<le> max_bytes c"
  shows "\<exists>c'. evictCacheIfNeeded api writable c = Some (Inr c')"
  using assms(1,4)
proof (induction "length (cache_list c)" arbitrary: c rule: less_induct)
  case less
  show ?case
  proof (cases "used_bytes c \<le> max_bytes c")
    case True
    then show ?thesis by (simp add: evictCacheIfNeeded.simps)
  next
    case False
    then obtain e where e: "victim c = Some e" using victim_None [OF _ less.prems(1)] less.prems(2) by (cases "victim c") auto
    obtain c1 where c1: "evict_entry api writable e c = Inr c1" using evict_entry_Inr [OF assms(3)] by blast
    note eff = evict_entry_effect [OF less.prems(1) assms(2) e c1]
    have "\<exists>c'. evictCacheIfNeeded api writable c1 = Some (Inr c')" using less.hyps [OF eff(5,1)] eff(3,4) less.prems(2) by simp
    with False e c1 show ?thesis by (simp add: evictCacheIfNeeded.simps [of _ _ c])
  qed
qed

lemma evict_no_error:
  assumes "evictCacheIfNeeded api writable c = Some r"
  shows "(\<forall>k. writable k) \<longrightarrow> r \<noteq> Inl err"
  using assms
proof (induction rule: evictCacheIfNeeded.raw_induct [rotated, consumes 1, case_names step])
  case (step evict api writable c r)
  show ?case
  proof
    assume w: "\<forall>k. writable k"
    show "r \<noteq> Inl err"
    proof (cases "victim c")
      case None
      with step(1) [of api writable c r] step(2) w show ?thesis by (auto split: if_splits)
    next
      case (Some e)
      obtain c' where "evict_entry api writable e c = Inr c'" using evict_entry_Inr [OF w] by blast
      with step(1) [of api writable c' r] step(2) w Some show ?thesis by (auto split: if_splits)
    qed
  qed
qed

lemma evict_hangs:
  assumes "cache_inv api c" "index_ok api" "\<forall>k. writable k" "max_bytes c < pinned_bytes c"
  shows "evictCacheIfNeeded api writable c = None"
proof (rule ccontr)
  assume "evictCacheIfNeeded api writable c \<noteq> None"
  then obtain r where r: "evictCacheIfNeeded api writable c = Some r" by blast
  have "r \<noteq> Inl err" for err using evict_no_error [OF r] assms(3) by blast
  then obtain c' where r': "r = Inr c'" by (cases r) auto
  have "cache_inv api c'" "used_bytes c' < pinned_bytes c'"
    using evict_correct [OF r [unfolded r'], of c'] assms(1,2,4) by simp_all
  then show False using pinned_le_used [of api c'] by simp
qed

section \<open>Getting and releasing\<close>

lemma index_of_cached: "map_of (cache_list c) k = Some ix \<Longrightarrow> index_of api c k = ix"
  by (simp add: index_of_def)

text \<open>A hit only moves the entry to the front.\<close>

lemma hit_effect:
  assumes "cache_inv api c" "map_of (cache_list c) k = Some ix"
  defines "c' \<equiv> c\<lparr>cache_list := (k, ix) # filter (\<lambda>(j, y). j \<noteq> k) (cache_list c),
            use_count_map := (use_count_map c)(k \<mapsto> entry (use_count_map c) 0 k + 1)\<rparr>"
  shows "cache_inv api c'" "index_of api c' = index_of api c"
proof -
  have inv: "distinct (map fst (cache_list c))" "used_bytes c = sum_list (map (entry_size c) (cache_list c))"
    using assms(1) by (simp_all add: cache_inv_def)
  have mem: "(k, ix) \<in> set (cache_list c)" using assms(2) by (rule map_of_SomeD)
  have same: "entry_size c' = entry_size c" "load_index api d j c' = load_index api d j c" for d j
    by (auto simp: c'_def entry_size_def load_index_def)
  show "cache_inv api c'"
    using assms(1) sum_remove [OF inv(1) mem, of "entry_size c"] inv(2) distinct_filter_keys [OF inv(1)] mem
    unfolding cache_inv_def same by (auto simp: c'_def)
  show "index_of api c' = index_of api c"
    unfolding index_of_def same using assms(2) by (auto simp: c'_def map_of_filter_keys)
qed

text \<open>A miss puts the loaded index in front.\<close>

lemma miss_effect:
  assumes "cache_inv api c" "index_ok api" "map_of (cache_list c) k = None"
  defines "ix \<equiv> load_index api (key_dimension k) k c"
  defines "c' \<equiv> c\<lparr>cache_list := (k, ix) # cache_list c, use_count_map := (use_count_map c)(k \<mapsto> 1),
                     size_map := (size_map c)(k \<mapsto> ix_space api ix), used_bytes := used_bytes c + ix_space api ix,
                     updated_map := (updated_map c)(k \<mapsto> False)\<rparr>"
  shows "cache_inv api c'" "index_of api c' = index_of api c" "pinned_bytes c' = pinned_bytes c + ix_space api ix"
    and "max_bytes c' = max_bytes c"
proof -
  have new: "k \<notin> fst ` set (cache_list c)" using assms(3) by (simp add: map_of_eq_None_iff)
  have sel: "cache_list c' = (k, ix) # cache_list c" "used_bytes c' = used_bytes c + ix_space api ix"
      "entry (updated_map c') False = (entry (updated_map c) False)(k := False)"
      "entry (use_count_map c') 0 = (entry (use_count_map c) 0)(k := 1)" "max_bytes c' = max_bytes c"
    by (simp_all add: c'_def entry_upd)
  have load: "load_index api d j c' = load_index api d j c" for d j
    by (auto simp: c'_def load_index_def)
  have size: "entry_size c' e = (if fst e = k then ix_space api ix else entry_size c e)" for e
    by (simp add: c'_def entry_size_def entry_upd)
  have old: "entry_size c' e = entry_size c e" if "e \<in> set (cache_list c)" for e
    using new that by (auto simp: size image_iff)
  have sum: "sum_list (map (entry_size c') (filter P (cache_list c))) = sum_list (map (entry_size c) (filter P (cache_list c)))" for P
    by (intro arg_cong [where f = sum_list] map_cong) (auto simp: old)
  have files: "load_index api (key_dimension j) j c' = y" if "(j, y) \<in> set (cache_list c')" "\<not> entry (updated_map c') False j" for j y
  proof (cases "j = k")
    case True
    then have "(j, y) \<notin> set (cache_list c)" using new by force
    with that(1) show ?thesis by (simp add: sel(1) ix_def load)
  next
    case False
    then have "(j, y) \<in> set (cache_list c)" "\<not> entry (updated_map c) False j" using that by (simp_all add: sel(1,3))
    with assms(1) show ?thesis unfolding load by (rule cache_invD)
  qed
  have nonneg: "0 \<le> ix_space api ix" using assms(2) by (simp add: index_ok_def)
  have "used_bytes c' = sum_list (map (entry_size c') (cache_list c'))"
    using assms(1) sum [of "\<lambda>_. True"] by (simp add: sel(1,2) size cache_inv_def)
  moreover have "\<forall>e \<in> set (cache_list c'). 0 \<le> entry_size c' e"
    using assms(1) nonneg by (auto simp: sel(1) size cache_inv_def)
  moreover have "distinct (map fst (cache_list c'))" using assms(1) new by (simp add: cache_inv_def sel(1))
  ultimately show "cache_inv api c'" using files by (intro cache_invI) simp_all
  show "index_of api c' = index_of api c"
    using assms(3) by (auto simp: index_of_def load sel(1) ix_def fun_eq_iff split: option.split)
  have "filter (\<lambda>(j, y). entry (use_count_map c') 0 j \<noteq> 0) (cache_list c) = filter (\<lambda>(j, y). entry (use_count_map c) 0 j \<noteq> 0) (cache_list c)"
    using new by (intro filter_cong) (auto simp: sel(4) image_iff)
  then show "pinned_bytes c' = pinned_bytes c + ix_space api ix"
    using sum [of "\<lambda>(j, y). entry (use_count_map c) 0 j \<noteq> 0"] by (simp add: pinned_bytes_def sel(1,4) size)
  show "max_bytes c' = max_bytes c" by (rule sel(5))
qed

text \<open>A release with an update changes the index of the key and nothing else.\<close>

definition replace_index :: "string \<Rightarrow> 'i \<Rightarrow> (string \<times> 'i) list \<Rightarrow> (string \<times> 'i) list" where
  "replace_index k ix = map (\<lambda>(j, y). if j = k then (j, ix) else (j, y))"

lemma replace_index_simps [simp]:
  "replace_index k ix [] = []"
  "replace_index k ix (e # es) = (fst e, if fst e = k then ix else snd e) # replace_index k ix es"
  by (simp_all add: replace_index_def case_prod_beta)

lemma replace_index_keys: "map fst (replace_index k ix xs) = map fst xs"
  by (induction xs) simp_all

lemma replace_index_map_of: "map_of (replace_index k ix xs) j = (if j = k \<and> k \<in> fst ` set xs then Some ix else map_of xs j)"
proof (induction xs)
  case (Cons e es)
  then show ?case by (cases "fst e = k"; cases "j = fst e") simp_all
qed simp

lemma replace_index_map: "map (\<lambda>e. g (fst e)) (replace_index k ix xs) = map (\<lambda>e. g (fst e)) xs"
  by (induction xs) simp_all

lemma replace_index_other: "(j, y) \<in> set (replace_index k ix xs) \<Longrightarrow> j \<noteq> k \<Longrightarrow> (j, y) \<in> set xs"
  by (auto simp: replace_index_def split: if_splits)

lemma replace_index_same:
  "distinct (map fst xs) \<Longrightarrow> map_of xs k = Some ix \<Longrightarrow> replace_index k ix xs = xs"
  unfolding replace_index_def by (rule map_idI) (auto dest: map_of_SomeD eq_key_imp_eq_value)

lemma update_effect:
  assumes "cache_inv api c" "index_ok api" "k \<in> fst ` set (cache_list c)"
    and c': "cache_list c' = replace_index k ix (cache_list c)" "used_bytes c' = used_bytes c + (ix_space api ix - entry (size_map c) 0 k)"
      "size_map c' = (size_map c)(k \<mapsto> ix_space api ix)" "updated_map c' = (updated_map c)(k \<mapsto> True)" "index_files c' = index_files c"
  shows "cache_inv api c'" "index_of api c' = (index_of api c)(k := ix)"
proof -
  have inv: "distinct (map fst (cache_list c))" "used_bytes c = sum_list (map (entry_size c) (cache_list c))"
    using assms(1) by (simp_all add: cache_inv_def)
  have load: "load_index api d j c' = load_index api d j c" for d j
    using c'(5) by (intro load_index_files) simp
  have size: "entry_size c' = (\<lambda>e. ((entry (size_map c) 0)(k := ix_space api ix)) (fst e))" "entry_size c = (\<lambda>e. entry (size_map c) 0 (fst e))"
    by (simp_all add: entry_size_def c'(3) entry_upd fun_eq_iff)
  have used: "used_bytes c' = sum_list (map (entry_size c') (cache_list c'))"
    unfolding c'(1,2) inv(2) size replace_index_map sum_upd [OF inv(1) assms(3)] by simp
  have nonneg: "0 \<le> entry_size c' e" if "e \<in> set (cache_list c')" for e
  proof (cases "fst e = k")
    case True
    then show ?thesis using assms(2) by (simp add: size index_ok_def)
  next
    case False
    then have "e \<in> set (cache_list c)" using that replace_index_other [of "fst e" "snd e" k ix] by (simp add: c'(1))
    then have "0 \<le> entry_size c e" using assms(1) by (simp add: cache_inv_def)
    with False show ?thesis by (simp add: size)
  qed
  have files: "load_index api (key_dimension j) j c' = y" if "(j, y) \<in> set (cache_list c')" "\<not> entry (updated_map c') False j" for j y
  proof -
    have j: "j \<noteq> k" "\<not> entry (updated_map c) False j" using that(2) by (auto simp: c'(4) entry_upd split: if_splits)
    show ?thesis unfolding load by (rule cache_invD [OF assms(1) replace_index_other [OF that(1) [unfolded c'(1)] j(1)] j(2)])
  qed
  show "cache_inv api c'"
    by (rule cache_invI [OF _ used nonneg files]) (simp_all add: c'(1) replace_index_keys inv(1))
  show "index_of api c' = (index_of api c)(k := ix)"
    using assms(3) by (auto simp: index_of_def c'(1) replace_index_map_of load fun_eq_iff split: option.split)
qed

lemma release_unchanged:
  assumes "cache_inv api c" "map_of (cache_list c) k = Some ix"
    and c': "cache_list c' = replace_index k ix (cache_list c)" "used_bytes c' = used_bytes c"
      "size_map c' = size_map c" "updated_map c' = updated_map c" "index_files c' = index_files c"
  shows "cache_inv api c'" "index_of api c' = index_of api c"
proof -
  have list: "cache_list c' = cache_list c"
    using assms(1,2) c'(1) by (simp add: replace_index_same cache_inv_def)
  have load: "load_index api d j c' = load_index api d j c" for d j using c'(5) by (intro load_index_files) simp
  have "entry_size c' = entry_size c" by (simp add: fun_eq_iff entry_size_def c'(3))
  then show "cache_inv api c'" using assms(1) unfolding cache_inv_def c'(2,4) list load by simp
  show "index_of api c' = index_of api c" unfolding index_of_def list load ..
qed

text \<open>\<^verbatim>\<open>get\<close>: the index of the key, and no index changes.\<close>

definition missed :: "'i index_api \<Rightarrow> string \<Rightarrow> 'i icache \<Rightarrow> 'i icache" where
  "missed api k c =
     (let ix = load_index api (key_dimension k) k c in
      c\<lparr>cache_list := (k, ix) # cache_list c, use_count_map := (use_count_map c)(k \<mapsto> 1),
        size_map := (size_map c)(k \<mapsto> ix_space api ix), used_bytes := used_bytes c + ix_space api ix,
        updated_map := (updated_map c)(k \<mapsto> False)\<rparr>)"

lemmas missed_effect = miss_effect [folded missed_def [unfolded Let_def]]

lemma cache_get_missed:
  assumes "map_of (cache_list c) (makeKey d i) = None"
  shows "cache_get api writable d i c =
    map_option (\<lambda>r. ebind r (\<lambda>c2. Inr (index_of api c (makeKey d i), c2))) (evictCacheIfNeeded api writable (missed api (makeKey d i) c))"
  using assms by (simp add: cache_get_def missed_def index_of_def Let_def)

lemma cache_get_correct:
  assumes "cache_inv api c" "index_ok api" "cache_get api writable d i c = Some (Inr (ix, c'))"
  shows "ix = index_of api c (makeKey d i) \<and> cache_inv api c' \<and> index_of api c' = index_of api c"
proof (cases "map_of (cache_list c) (makeKey d i)")
  case None
  have "ix = index_of api c (makeKey d i)" "evictCacheIfNeeded api writable (missed api (makeKey d i) c) = Some (Inr c')"
    using assms(3) by (auto simp: cache_get_missed [OF None])
  then show ?thesis using evict_correct [of api writable _ "Inr c'" c'] missed_effect [OF assms(1,2) None] assms(2) by metis
next
  case (Some ix0)
  then show ?thesis using hit_effect [OF assms(1) Some] assms(3) by (auto simp: cache_get_def Let_def index_of_cached)
qed

lemma cache_get_returns:
  assumes "cache_inv api c" "index_ok api" "\<forall>k. writable k"
    and "pinned_bytes c + ix_space api (index_of api c (makeKey d i)) \<le> max_bytes c"
  shows "\<exists>c'. cache_get api writable d i c = Some (Inr (index_of api c (makeKey d i), c'))"
proof (cases "map_of (cache_list c) (makeKey d i)")
  case None
  note eff = missed_effect [OF assms(1,2) None]
  have "\<exists>c'. evictCacheIfNeeded api writable (missed api (makeKey d i) c) = Some (Inr c')"
    using assms(4) None by (intro evict_returns [OF eff(1) assms(2,3)]) (simp add: eff(3,4) index_of_def)
  then show ?thesis by (auto simp: cache_get_missed [OF None])
qed (simp add: cache_get_def Let_def index_of_cached)

lemma cache_release_correct:
  assumes "cache_inv api c" "index_ok api" "makeKey d i \<in> fst ` set (cache_list c)"
    and "cache_release api writable ix d i upd c = Some (Inr c')" "upd \<or> ix = index_of api c (makeKey d i)"
  shows "cache_inv api c' \<and> index_of api c' = (index_of api c)(makeKey d i := ix)"
proof -
  let ?k = "makeKey d i"
  define c1 where "c1 = c\<lparr>use_count_map := (use_count_map c)(?k \<mapsto> max 0 (entry (use_count_map c) 0 ?k - 1)),
      cache_list := replace_index ?k ix (cache_list c)\<rparr>"
  define c2 where "c2 = c1\<lparr>used_bytes := used_bytes c1 + (ix_space api ix - entry (size_map c1) 0 ?k),
      size_map := (size_map c1)(?k \<mapsto> ix_space api ix), updated_map := (updated_map c1)(?k \<mapsto> True)\<rparr>"
  have run: "(if upd then evictCacheIfNeeded api writable c2 else Some (Inr c1)) = Some (Inr c')"
    using assms(4) unfolding cache_release_def Let_def c1_def c2_def replace_index_def .
  show ?thesis
  proof (cases upd)
    case True
    have "cache_inv api c2 \<and> index_of api c2 = (index_of api c)(?k := ix)"
      using update_effect [OF assms(1-3), of c2 ix] by (simp add: c2_def c1_def)
    moreover have "evictCacheIfNeeded api writable c2 = Some (Inr c')" using run True by simp
    ultimately show ?thesis using evict_correct [of api writable c2 "Inr c'" c'] assms(2) by simp
  next
    case False
    obtain y where "map_of (cache_list c) ?k = Some y" using assms(3) by (cases "map_of (cache_list c) ?k") (simp_all add: map_of_eq_None_iff)
    then have "map_of (cache_list c) ?k = Some ix" using False assms(5) by (simp add: index_of_cached)
    then show ?thesis
      using release_unchanged [OF assms(1), of ?k ix c'] run False index_of_cached [of c ?k ix api] by (auto simp: c1_def)
  qed
qed

text \<open>Marking an index only makes its eviction save it.\<close>

lemma markDirty_effect:
  assumes "cache_inv api c"
  shows "cache_inv api (markDirty k c)" "index_of api (markDirty k c) = index_of api c"
proof -
  have load: "load_index api d j (markDirty k c) = load_index api d j c" for d j
    by (rule load_index_files) (simp add: markDirty_def)
  have same: "cache_list (markDirty k c) = cache_list c" "entry_size (markDirty k c) = entry_size c" "used_bytes (markDirty k c) = used_bytes c"
    by (simp_all add: markDirty_def entry_size_def fun_eq_iff)
  have marks: "\<not> entry (updated_map (markDirty k c)) False j \<Longrightarrow> \<not> entry (updated_map c) False j" for j
    by (auto simp: markDirty_def entry_upd split: if_splits)
  show "cache_inv api (markDirty k c)"
  proof (rule cache_invI; unfold same load)
    show "load_index api (key_dimension j) j c = ix" if "(j, ix) \<in> set (cache_list c)" "\<not> entry (updated_map (markDirty k c)) False j" for j ix
      by (rule cache_invD [OF assms that(1) marks [OF that(2)]])
  qed (use assms in \<open>simp_all add: cache_inv_def\<close>)
  show "index_of api (markDirty k c) = index_of api c" unfolding index_of_def same load ..
qed

section \<open>Saving everything\<close>

lemma saveIndexes_all:
  assumes "saveIndexes api writable es c = Inr c'" "distinct (map fst es)" "(k, ix) \<in> set es"
  shows "index_files c' k = Some (ix_serialize api ix)"
  using assms
proof (induction api writable es c rule: saveIndexes.induct)
  case (2 api writable key index es c)
  have keep: "saveIndexes api writable xs a = Inr b \<Longrightarrow> k \<notin> fst ` set xs \<Longrightarrow> index_files b k = index_files a k" for xs a b k
    by (induction xs arbitrary: a) (auto simp: saveIndex_def split: if_splits)
  from "2.prems" obtain c1 where c1: "saveIndex api writable key index c = Inr c1" "saveIndexes api writable es c1 = Inr c'" by auto
  show ?case
  proof (cases "(k, ix) = (key, index)")
    case True
    with keep [OF c1(2), of k] "2.prems"(2) c1(1) show ?thesis by (auto simp: saveIndex_def split: if_splits)
  next
    case False
    with "2.IH" [OF c1(2)] "2.prems"(2,3) show ?thesis by auto
  qed
qed simp

lemma save_updated_effect:
  assumes "save_updated api writable es c = Inr c'" "distinct (map fst es)"
  shows "c' = c\<lparr>index_files := index_files c'\<rparr> \<and>
    (\<forall>k. index_files c' k = (case map_of es k of None \<Rightarrow> index_files c k
       | Some ix \<Rightarrow> if entry (updated_map c) False k then Some (ix_serialize api ix) else index_files c k))"
  using assms
proof (induction api writable es c rule: save_updated.induct)
  case (2 api writable key ix es c)
  then obtain c1 where c1: "(if entry (updated_map c) False key then saveIndex api writable key ix c else Inr c) = Inr c1"
      "save_updated api writable es c1 = Inr c'" by auto
  let ?f = "index_files c1"
  have f: "c1 = c\<lparr>index_files := ?f\<rparr>" "?f = (if entry (updated_map c) False key then (index_files c)(key \<mapsto> ix_serialize api ix) else index_files c)"
    using c1(1) by (auto simp: saveIndex_def split: if_splits)
  have upd: "updated_map c1 = updated_map c" by (subst f(1)) simp
  have key: "map_of es key = None" using "2.prems"(2) by (simp add: map_of_eq_None_iff)
  have IH: "c' = c1\<lparr>index_files := index_files c'\<rparr>" "\<forall>k. index_files c' k = (case map_of es k of None \<Rightarrow> ?f k
      | Some ix \<Rightarrow> if entry (updated_map c) False k then Some (ix_serialize api ix) else ?f k)"
    using "2.IH" [OF c1(2)] "2.prems"(2) unfolding upd by simp_all
  have "c' = c\<lparr>index_files := index_files c'\<rparr>"
    by (subst IH(1), subst f(1)) simp
  moreover have "index_files c' k = (case map_of ((key, ix) # es) k of None \<Rightarrow> index_files c k
       | Some ix \<Rightarrow> if entry (updated_map c) False k then Some (ix_serialize api ix) else index_files c k)" for k
    using IH(2) key f(2) by (cases "k = key") (auto split: option.split)
  ultimately show ?case by blast
qed simp

lemma save_updated_Inr: "\<forall>k. writable k \<Longrightarrow> \<exists>c'. save_updated api writable es c = Inr c'"
  by (induction es arbitrary: c) (auto simp: saveIndex_def)

text \<open>After \<^verbatim>\<open>clearCache\<close> the files hold every index.\<close>

lemma clearCache_effect:
  assumes "cache_inv api c" "index_ok api" "clearCache api writable c = Inr c'"
  shows "load_index api (key_dimension k) k c' = index_of api c k"
proof -
  have files: "index_files c' k = (case map_of (cache_list c) k of None \<Rightarrow> index_files c k
       | Some ix \<Rightarrow> if entry (updated_map c) False k then Some (ix_serialize api ix) else index_files c k)"
    using save_updated_effect assms(1,3) unfolding clearCache_def cache_inv_def by blast
  show ?thesis
  proof (cases "\<exists>ix. map_of (cache_list c) k = Some ix \<and> entry (updated_map c) False k")
    case True
    with files assms(2) show ?thesis by (auto simp: index_of_def load_index_def index_ok_def)
  next
    case False
    then have "load_index api (key_dimension k) k c' = load_index api (key_dimension k) k c"
      using files by (intro load_index_files) (auto split: option.splits)
    with False show ?thesis
      using cache_invD [OF assms(1) map_of_SomeD] by (auto simp: index_of_def split: option.split)
  qed
qed

lemma new_manager: "IndexCacheManager mb files = Inr c \<Longrightarrow> cache_inv api c \<and> index_files c = files \<and> cache_list c = []"
  by (auto simp: IndexCacheManager_def cache_inv_def split: if_splits)

section \<open>Correctness\<close>


text \<open>
  C15: the eviction loop ends exactly when it can. When all files can be written, the loop ends if
  and only if the indexes in use fit into the cache; it then leaves at most the allowed bytes. When
  the indexes in use are larger than the cache, the loop scans the list forever.
\<close>

theorem eviction_terminates:
  assumes "cache_inv api c" "index_ok api" "\<forall>k. writable k"
  shows "(evictCacheIfNeeded api writable c = None \<longleftrightarrow> max_bytes c < pinned_bytes c) \<and>
    (pinned_bytes c \<le> max_bytes c \<longrightarrow>
      (\<exists>c'. evictCacheIfNeeded api writable c = Some (Inr c') \<and> used_bytes c' \<le> max_bytes c \<and> pinned_bytes c' = pinned_bytes c))"
proof (cases "max_bytes c < pinned_bytes c")
  case True
  then show ?thesis using evict_hangs [OF assms] by simp
next
  case False
  then obtain c' where "evictCacheIfNeeded api writable c = Some (Inr c')" using evict_returns [OF assms] by auto
  with False show ?thesis using evict_correct [of api writable c _ c'] assms(1,2) by auto
qed


text \<open>A concrete instance: an index is its bytes, and two of them are in the cache, one in use.\<close>

definition bytes_api :: "byte list index_api" where
  "bytes_api = \<lparr>ix_space = (\<lambda>ix. int (length ix)), ix_serialize = (\<lambda>ix. ix), ix_deserialize = Some, ix_create = (\<lambda>_. [])\<rparr>"

definition sample_cache :: "int \<Rightarrow> byte list icache" where
  "sample_cache mb = \<lparr>max_bytes = mb, used_bytes = 3, size_map = [''4_0'' \<mapsto> 2, ''4_1'' \<mapsto> 1],
     updated_map = [''4_0'' \<mapsto> False, ''4_1'' \<mapsto> True], use_count_map = [''4_0'' \<mapsto> 1, ''4_1'' \<mapsto> 0],
     cache_list = [(''4_0'', [7, 8]), (''4_1'', [9])], index_files = [''4_0'' \<mapsto> [7, 8], ''4_1'' \<mapsto> [1, 2, 3]]\<rparr>"

lemma bytes_api_ok: "index_ok bytes_api"
  by (simp add: index_ok_def bytes_api_def)

lemma sample_cache_inv: "cache_inv bytes_api (sample_cache mb)"
  by (simp add: cache_inv_def sample_cache_def entry_size_def entry_def load_index_def bytes_api_def)

lemma sample_pinned: "pinned_bytes (sample_cache mb) = 2"
  by (simp add: pinned_bytes_def sample_cache_def entry_size_def entry_def)


theorem eviction_terminates_witness:
  "evictCacheIfNeeded bytes_api (\<lambda>_. True) (sample_cache 1) = None \<and>
   (\<exists>c'. evictCacheIfNeeded bytes_api (\<lambda>_. True) (sample_cache 2) = Some (Inr c') \<and> used_bytes c' \<le> 2)"
  using eviction_terminates [OF sample_cache_inv bytes_api_ok, of "\<lambda>_. True" 1]
    eviction_terminates [OF sample_cache_inv bytes_api_ok, of "\<lambda>_. True" 2]
  by (auto simp: sample_pinned) (auto simp: sample_cache_def)


end
