(* ===== verification/Spec2Isabelle.thy ===== *)
theory Spec2Isabelle
  imports NR_Session NS_Bits NS_Proto NS_Cache
begin

text \<open>
  Verification of the NeurDB storage engine.
\<close>

end
